(* ===== verification/Prelude.thy ===== *)
theory Prelude
  imports Complex_Main "HOL-Library.Word"
begin

text \<open>
  Shared vocabulary of the development.  It holds the \<^theory_text>\<open>named_theorems\<close> collections the
  component theories fill, the fallible result type, and the operations of the JavaScript standard
  library that the sources call: trimming, lower-casing, splitting, joining and searching
  strings, decimal printing and parsing, the remainder operator and rounding.

  A JavaScript string is a sequence of code units.  The model's \<^typ>\<open>string\<close> is a list of
  8-bit \<^typ>\<open>char\<close>s, that is the strings all of whose code units are below 256; on these
  the length, the indices and the white-space and case tables below are those of ECMAScript.
\<close>

named_theorems result_simps \<open>equations of the fallible results\<close>
named_theorems string_simps \<open>equations of the string library\<close>
named_theorems record_defs \<open>definitions that only build or update a record\<close>

section \<open>Fallible results\<close>

text \<open>A computation that may throw: \<open>Inl e\<close> is the thrown value, \<open>Inr x\<close> the returned one.\<close>

type_synonym ('e, 'a) result = "'e + 'a"

definition bind_result :: "('e, 'a) result \<Rightarrow> ('a \<Rightarrow> ('e, 'b) result) \<Rightarrow> ('e, 'b) result" where
  "bind_result r f = (case r of Inl e \<Rightarrow> Inl e | Inr x \<Rightarrow> f x)"

lemma bind_result_Inl [simp, result_simps]: "bind_result (Inl e) f = Inl e"
  by (simp add: bind_result_def)

lemma bind_result_Inr [simp, result_simps]: "bind_result (Inr x) f = f x"
  by (simp add: bind_result_def)

lemma bind_result_eq_Inr:
  "bind_result r f = Inr y \<longleftrightarrow> (\<exists>x. r = Inr x \<and> f x = Inr y)"
  by (cases r) auto

lemma bind_result_eq_Inl:
  "bind_result r f = Inl e \<longleftrightarrow> r = Inl e \<or> (\<exists>x. r = Inr x \<and> f x = Inl e)"
  by (cases r) auto

lemma bind_result_assoc:
  "bind_result (bind_result r f) g = bind_result r (\<lambda>x. bind_result (f x) g)"
  by (cases r) auto

text \<open>Mapping a throwing function over an array stops at the first element that throws.\<close>

fun map_result :: "('a \<Rightarrow> ('e, 'b) result) \<Rightarrow> 'a list \<Rightarrow> ('e, 'b list) result" where
  "map_result f [] = Inr []"
| "map_result f (x # xs) =
     bind_result (f x) (\<lambda>y. bind_result (map_result f xs) (\<lambda>ys. Inr (y # ys)))"

lemma map_result_length: "map_result f xs = Inr ys \<Longrightarrow> length ys = length xs"
  by (induction xs arbitrary: ys) (auto simp: bind_result_eq_Inr)

lemma map_result_Inr: "(\<And>x. x \<in> set xs \<Longrightarrow> f x = Inr (g x)) \<Longrightarrow> map_result f xs = Inr (map g xs)"
  by (induction xs) auto

section \<open>Truthiness of optional strings\<close>

text \<open>\<open>value || fallback\<close> on a string: the empty string is falsy.\<close>

definition str_or :: "string \<Rightarrow> string \<Rightarrow> string" where
  "str_or s d = (if s = [] then d else s)"

lemma str_or_simps [simp, string_simps]: "str_or [] d = d" "str_or (c # s) d = c # s"
  by (simp_all add: str_or_def)

section \<open>White space and case\<close>

definition is_js_space :: "char \<Rightarrow> bool" where
  "is_js_space c \<longleftrightarrow> of_char c \<in> {9, 10, 11, 12, 13, 32, 160 :: nat}"

text \<open>\<open>String.prototype.trim\<close>.\<close>

definition js_trim :: "string \<Rightarrow> string" where
  "js_trim s = rev (dropWhile is_js_space (rev (dropWhile is_js_space s)))"

lemma js_trim_Nil [simp, string_simps]: "js_trim [] = []"
  by (simp add: js_trim_def)

lemma dropWhile_all [simp]: "dropWhile P (dropWhile P xs) = dropWhile P xs"
  by (induction xs) auto

lemma hd_dropWhile_rev_dropWhile:
  assumes "dropWhile P xs = xs"
  shows "dropWhile P (rev (dropWhile P (rev xs))) = rev (dropWhile P (rev xs))"
proof (cases xs)
  case Nil
  then show ?thesis by simp
next
  case (Cons y ys)
  with assms have y: "\<not> P y" by (auto split: if_splits dest: arg_cong [where f = length])
      (metis dropWhile_eq_Cons_conv list.set_intros(1) set_takeWhileD)
  have "dropWhile P (rev ys @ [y]) = dropWhile P (rev ys) @ [y]"
    using y by (simp add: dropWhile_append3)
  with Cons y show ?thesis by simp
qed

lemma js_trim_idem [simp, string_simps]: "js_trim (js_trim s) = js_trim s"
proof -
  let ?d = "dropWhile is_js_space"
  have "?d (rev (?d (rev (?d s)))) = rev (?d (rev (?d s)))"
    by (rule hd_dropWhile_rev_dropWhile) simp
  then show ?thesis by (simp add: js_trim_def)
qed

text \<open>\<open>String.prototype.toLowerCase\<close> on the code units below 256.\<close>

definition js_lower_char :: "char \<Rightarrow> char" where
  "js_lower_char c =
     (let n = of_char c :: nat in
      if (65 \<le> n \<and> n \<le> 90) \<or> (192 \<le> n \<and> n \<le> 222 \<and> n \<noteq> 215) then char_of (n + 32) else c)"

definition js_lower :: "string \<Rightarrow> string" where
  "js_lower s = map js_lower_char s"

lemma length_js_lower [simp, string_simps]: "length (js_lower s) = length s"
  by (simp add: js_lower_def)

section \<open>Splitting, joining and searching\<close>

text \<open>\<open>s.split(c)\<close> for a one-character separator: always at least one part.\<close>

fun js_split :: "char \<Rightarrow> string \<Rightarrow> string list" where
  "js_split c [] = [[]]"
| "js_split c (x # xs) =
     (if x = c then [] # js_split c xs
      else case js_split c xs of [] \<Rightarrow> [[x]] | p # ps \<Rightarrow> (x # p) # ps)"

text \<open>\<open>parts.join(sep)\<close>.\<close>

fun js_join :: "string \<Rightarrow> string list \<Rightarrow> string" where
  "js_join sep [] = []"
| "js_join sep [s] = s"
| "js_join sep (s # t # ss) = s @ sep @ js_join sep (t # ss)"

lemma js_split_not_Nil [simp, string_simps]: "js_split c s \<noteq> []"
  by (cases s) (auto split: list.splits)

lemma js_join_split [simp, string_simps]: "js_join [c] (js_split c s) = s"
proof (induction s)
  case Nil
  then show ?case by simp
next
  case (Cons x xs)
  obtain p ps where ps: "js_split c xs = p # ps"
    by (cases "js_split c xs") auto
  show ?case
  proof (cases ps)
    case Nil
    with Cons ps show ?thesis by auto
  next
    case (Cons q qs)
    with Cons.IH ps show ?thesis by auto
  qed
qed

lemma js_split_no_sep: "p \<in> set (js_split c s) \<Longrightarrow> c \<notin> set p"
proof (induction s arbitrary: p)
  case Nil
  then show ?case by simp
next
  case (Cons x xs)
  obtain q qs where "js_split c xs = q # qs"
    by (cases "js_split c xs") auto
  with Cons show ?case by (auto split: if_splits)
qed

lemma js_split_free: "c \<notin> set s \<Longrightarrow> js_split c s = [s]"
  by (induction s) auto

lemma js_split_append_sep: "c \<notin> set p \<Longrightarrow> js_split c (p @ c # s) = p # js_split c s"
  by (induction p) auto

lemma js_split_join:
  "ps \<noteq> [] \<Longrightarrow> (\<And>p. p \<in> set ps \<Longrightarrow> c \<notin> set p) \<Longrightarrow> js_split c (js_join [c] ps) = ps"
  by (induction "[c]" ps rule: js_join.induct) (auto simp: js_split_free js_split_append_sep)

text \<open>\<open>s.split(/\s+/)\<close>: a run of white space separates two parts.\<close>

fun js_split_spaces :: "string \<Rightarrow> string list" where
  "js_split_spaces [] = [[]]"
| "js_split_spaces [x] = (if is_js_space x then [[], []] else [[x]])"
| "js_split_spaces (x # y # xs) =
     (if is_js_space x
      then (if is_js_space y then js_split_spaces (y # xs) else [] # js_split_spaces (y # xs))
      else case js_split_spaces (y # xs) of [] \<Rightarrow> [[x]] | p # ps \<Rightarrow> (x # p) # ps)"

text \<open>
  \<open>s.indexOf(pat, from)\<close>: the first position at or after \<open>from\<close> where \<open>pat\<close> occurs;
  \<open>None\<close> is the \<open>-1\<close> of JavaScript.
\<close>

definition occurs_at :: "string \<Rightarrow> string \<Rightarrow> nat \<Rightarrow> bool" where
  "occurs_at pat s i \<longleftrightarrow> take (length pat) (drop i s) = pat \<and> i + length pat \<le> length s"

definition js_index_of :: "string \<Rightarrow> string \<Rightarrow> nat \<Rightarrow> nat option" where
  "js_index_of pat s from = List.find (occurs_at pat s) [from ..< Suc (length s)]"

lemma js_index_of_Some:
  assumes "js_index_of pat s from = Some i"
  shows "from \<le> i" and "occurs_at pat s i" and "\<And>j. from \<le> j \<Longrightarrow> j < i \<Longrightarrow> \<not> occurs_at pat s j"
proof -
  from assms obtain k where k: "k < length [from ..< Suc (length s)]"
    and P: "occurs_at pat s ([from ..< Suc (length s)] ! k)"
    and i: "i = [from ..< Suc (length s)] ! k"
    and first: "\<forall>j<k. \<not> occurs_at pat s ([from ..< Suc (length s)] ! j)"
    unfolding js_index_of_def find_Some_iff by blast
  have ik: "i = from + k" using i k by (simp del: upt_Suc)
  show "from \<le> i" using ik by simp
  show "occurs_at pat s i" using P i by simp
  show "\<not> occurs_at pat s j" if "from \<le> j" "j < i" for j
    using first [rule_format, of "j - from"] that ik k by (simp del: upt_Suc)
qed

lemma js_index_of_None:
  "js_index_of pat s from = None \<longleftrightarrow> (\<forall>i\<ge>from. \<not> occurs_at pat s i)"
  unfolding js_index_of_def find_None_iff
  by (auto simp: occurs_at_def simp del: upt_Suc)

section \<open>Decimal numbers\<close>

definition digit_char :: "nat \<Rightarrow> char" where
  "digit_char d = char_of (48 + d)"

definition is_digit :: "char \<Rightarrow> bool" where
  "is_digit c \<longleftrightarrow> 48 \<le> (of_char c :: nat) \<and> (of_char c :: nat) \<le> 57"

definition digit_value :: "char \<Rightarrow> nat" where
  "digit_value c = of_char c - 48"

text \<open>\<open>String(n)\<close> of a natural number, and \<open>Number(text)\<close> of a string matching \<open>/^\d+$/\<close>.\<close>

fun show_nat :: "nat \<Rightarrow> string" where
  "show_nat n = (if n < 10 then [digit_char n] else show_nat (n div 10) @ [digit_char (n mod 10)])"

declare show_nat.simps [simp del]

definition show_int :: "int \<Rightarrow> string" where
  "show_int i = (if i < 0 then CHR ''-'' # show_nat (nat (- i)) else show_nat (nat i))"

definition all_digits :: "string \<Rightarrow> bool" where
  "all_digits s \<longleftrightarrow> s \<noteq> [] \<and> list_all is_digit s"

definition read_nat :: "string \<Rightarrow> nat" where
  "read_nat s = foldl (\<lambda>n c. 10 * n + digit_value c) 0 s"

lemma digit_char_props:
  assumes "d < 10"
  shows "is_digit (digit_char d)" and "digit_value (digit_char d) = d"
  using assms by (simp_all add: is_digit_def digit_value_def digit_char_def)

lemma read_nat_snoc: "read_nat (s @ [c]) = 10 * read_nat s + digit_value c"
  by (simp add: read_nat_def)

lemma show_nat_digits: "all_digits (show_nat n)"
proof (induction n rule: show_nat.induct)
  case (1 n)
  then show ?case
    by (subst show_nat.simps) (auto simp: all_digits_def digit_char_props)
qed

lemma read_show_nat [simp, string_simps]: "read_nat (show_nat n) = n"
proof (induction n rule: show_nat.induct)
  case (1 n)
  show ?case
  proof (cases "n < 10")
    case True
    then show ?thesis
      by (subst show_nat.simps) (simp add: read_nat_def digit_char_props)
  next
    case False
    with 1 have "read_nat (show_nat (n div 10)) = n div 10" by simp
    with False show ?thesis
      by (subst show_nat.simps) (simp add: read_nat_snoc digit_char_props)
  qed
qed

text \<open>\<open>replace(/\s+/g, " ")\<close>.\<close>

fun squeeze :: "string \<Rightarrow> string" where
  "squeeze [] = []"
| "squeeze [c] = (if is_js_space c then '' '' else [c])"
| "squeeze (c # d # cs) = (if is_js_space c then (if is_js_space d then squeeze (d # cs) else CHR '' '' # squeeze (d # cs))
     else c # squeeze (d # cs))"

section \<open>Maps that remember the order of their keys\<close>

text \<open>JavaScript's \<open>Map\<close>: a key that is set again keeps its place.\<close>

fun map_set :: "string \<Rightarrow> 'a \<Rightarrow> (string \<times> 'a) list \<Rightarrow> (string \<times> 'a) list" where
  "map_set k v [] = [(k, v)]"
| "map_set k v ((k', v') # xs) = (if k' = k then (k, v) # xs else (k', v') # map_set k v xs)"

lemma map_of_map_set [simp]: "map_of (map_set k v xs) = (map_of xs)(k \<mapsto> v)"
  by (induction k v xs rule: map_set.induct) auto

lemma map_set_keys: "map fst (map_set k v xs) = (if k \<in> fst ` set xs then map fst xs else map fst xs @ [k])"
  by (induction k v xs rule: map_set.induct) auto

lemma distinct_map_set [simp]: "distinct (map fst xs) \<Longrightarrow> distinct (map fst (map_set k v xs))"
  by (simp add: map_set_keys image_iff)

lemma set_map_set: "distinct (map fst xs) \<Longrightarrow> set (map_set k v xs) = insert (k, v) {x \<in> set xs. fst x \<noteq> k}"
  by (induction k v xs rule: map_set.induct) force+

section \<open>Number operators\<close>

text \<open>The remainder \<open>a % b\<close> takes the sign of the dividend; the model is used with \<open>b > 0\<close>.\<close>

definition js_rem :: "int \<Rightarrow> int \<Rightarrow> int" where
  "js_rem a b = sgn a * (\<bar>a\<bar> mod \<bar>b\<bar>)"

lemma js_rem_zero_iff: "js_rem a b = 0 \<longleftrightarrow> b dvd a"
proof -
  have "\<bar>a\<bar> mod \<bar>b\<bar> = 0 \<longleftrightarrow> b dvd a"
    by (metis abs_dvd_iff dvd_abs_iff dvd_eq_mod_eq_0)
  then show ?thesis by (cases "a = 0") (auto simp: js_rem_def sgn_if)
qed

lemma js_rem_nonneg: "0 \<le> a \<Longrightarrow> 0 < b \<Longrightarrow> js_rem a b = a mod b"
  by (cases "a = 0") (auto simp: js_rem_def)

text \<open>\<open>Math.round\<close>: half-way cases go up.\<close>

definition js_round :: "rat \<Rightarrow> int" where
  "js_round x = \<lfloor>x + 1 / 2\<rfloor>"

lemma js_round_of_int [simp]: "js_round (of_int i) = i"
  by (simp add: js_round_def floor_eq_iff)

end
