(* ===== verification/AgentTypes.thy ===== *)
theory AgentTypes
  imports Prelude
begin

text \<open>
  The data the agent loop exchanges with models, tools and clients: the types of
  \<^verbatim>\<open>packages/inference/src/types.ts\<close> and \<^verbatim>\<open>packages/core/src/types.ts\<close>, and the usage
  arithmetic of \<^verbatim>\<open>packages/core/src/usage.ts\<close>.

  A TypeScript interface is a \<^theory_text>\<open>record\<close>, a union tagged by \<open>type\<close> or \<open>role\<close> a
  \<^theory_text>\<open>datatype\<close>, an optional field an \<open>option\<close>.  Numbers are \<^typ>\<open>int\<close> where the code only
  counts or adds milliseconds, \<^typ>\<open>rat\<close> where they may be fractional (prices, JSON numbers).
  The \<open>providerData\<close> a block carries back to its provider is opaque and left out.
\<close>

section \<open>JSON values and model references\<close>

datatype json =
    JNull
  | JBool bool
  | JNum rat
  | JStr string
  | JArr "json list"
  | JObj "(string \<times> json) list"

record model_ref =
  mr_provider :: string
  mr_id :: string

record inference_model = model_ref +
  im_name :: string
  im_contextWindow :: int
  im_maxOutputTokens :: int
  im_reasoning :: bool

datatype reasoning_effort = EffOff | EffMinimal | EffLow | EffMedium | EffHigh | EffXhigh | EffMax

datatype stop_reason = StopStop | StopLength | StopToolUse | StopDeferred | StopError | StopAborted

section \<open>Usage\<close>

record inference_usage =
  inputTokens :: int
  outputTokens :: int
  cacheReadTokens :: int
  cacheWriteTokens :: int
  reasoningTokens :: "int option"
  totalTokens :: int
  costUsd :: rat

definition emptyUsage :: inference_usage where
  "emptyUsage = \<lparr>inputTokens = 0, outputTokens = 0, cacheReadTokens = 0, cacheWriteTokens = 0,
     reasoningTokens = Some 0, totalTokens = 0, costUsd = 0\<rparr>"

text \<open>\<open>value ?? 0\<close>.\<close>

definition or_zero :: "int option \<Rightarrow> int" where
  "or_zero x = (case x of None \<Rightarrow> 0 | Some n \<Rightarrow> n)"

lemma or_zero_simps [simp]: "or_zero None = 0" "or_zero (Some n) = n"
  by (simp_all add: or_zero_def)

definition addUsage :: "inference_usage \<Rightarrow> inference_usage option \<Rightarrow> inference_usage" where
  "addUsage tot nxt = (case nxt of None \<Rightarrow> tot | Some n \<Rightarrow>
     \<lparr>inputTokens = inputTokens tot + inputTokens n,
      outputTokens = outputTokens tot + outputTokens n,
      cacheReadTokens = cacheReadTokens tot + cacheReadTokens n,
      cacheWriteTokens = cacheWriteTokens tot + cacheWriteTokens n,
      reasoningTokens = Some (or_zero (reasoningTokens tot) + or_zero (reasoningTokens n)),
      totalTokens = totalTokens tot + totalTokens n,
      costUsd = costUsd tot + costUsd n\<rparr>)"

text \<open>The run adds the usage of each final message in turn; the total is the sum, field by field.\<close>

lemma foldl_addUsage:
  "inputTokens (foldl addUsage u us) = inputTokens u + (\<Sum>n\<leftarrow>List.map_filter id us. inputTokens n)"
  "outputTokens (foldl addUsage u us) = outputTokens u + (\<Sum>n\<leftarrow>List.map_filter id us. outputTokens n)"
  "totalTokens (foldl addUsage u us) = totalTokens u + (\<Sum>n\<leftarrow>List.map_filter id us. totalTokens n)"
  "costUsd (foldl addUsage u us) = costUsd u + (\<Sum>n\<leftarrow>List.map_filter id us. costUsd n)"
  by (induction us arbitrary: u) (auto simp: addUsage_def List.map_filter_simps split: option.splits)

section \<open>Messages\<close>

datatype input_block =
    TextBlock string
  | ImageBlock string string  \<comment> \<open>data, mimeType\<close>

record tool_call =
  tc_id :: string
  tc_name :: string
  tc_arguments :: json

datatype assistant_block =
    AText string
  | AReasoning string bool  \<comment> \<open>text, redacted\<close>
  | AToolCall tool_call

datatype user_content = UText string | UBlocks "input_block list"

record user_message =
  um_content :: user_content
  um_timestamp :: "int option"

record assistant_message =
  am_content :: "assistant_block list"
  am_provider :: "string option"
  am_model :: "string option"
  am_responseId :: "string option"
  am_usage :: "inference_usage option"
  am_stopReason :: "stop_reason option"
  am_timestamp :: "int option"

record tool_result_message =
  tr_toolCallId :: string
  tr_toolName :: string
  tr_content :: "input_block list"
  tr_isError :: bool
  tr_timestamp :: int

datatype inference_message =
    UserMsg user_message
  | AssistantMsg assistant_message
  | ToolResultMsg tool_result_message

text \<open>A user message \<open>{role: "user", content: text}\<close> built by the runner itself.\<close>

definition user_text :: "string \<Rightarrow> inference_message" where
  "user_text s = UserMsg \<lparr>um_content = UText s, um_timestamp = None\<rparr>"

record inference_tool =
  it_name :: string
  it_description :: string
  it_parameters :: json
  it_strict :: "string option"

section \<open>Inference streams\<close>

datatype inference_error_code =
    IE_model_not_found | IE_auth | IE_rate_limit | IE_context_overflow | IE_aborted
  | IE_provider_error | IE_unknown

record inference_error =
  ie_code :: inference_error_code
  ie_message :: string
  ie_retryable :: bool

datatype inference_event =
    EvStart inference_model
  | EvTextStart nat | EvTextDelta nat string | EvTextEnd nat string
  | EvReasoningStart nat | EvReasoningDelta nat string | EvReasoningEnd nat string
  | EvToolCallStart nat | EvToolCallDelta nat string | EvToolCallEnd nat tool_call
  | EvDone stop_reason assistant_message
  | EvError inference_error

text \<open>The three events whose arrival the runner counts as visible content.\<close>

fun is_content_event :: "inference_event \<Rightarrow> bool" where
  "is_content_event (EvTextDelta _ _) = True"
| "is_content_event (EvReasoningDelta _ _) = True"
| "is_content_event (EvToolCallDelta _ _) = True"
| "is_content_event _ = False"

section \<open>Runs\<close>

datatype run_status = Idle | Running | ExecutingTools | Completed | Cancelled | Failed

datatype execution_mode = Sequential | Parallel

record agent_context =
  cx_systemPrompt :: "string option"
  cx_messages :: "inference_message list"

datatype tool_content = TCText string | TCBlocks "input_block list"

record agent_tool_result =
  rs_content :: tool_content
  rs_isError :: "bool option"
  rs_metadata :: "json option"

datatype run_error_code =
    RE_aborted | RE_inference | RE_max_turns | RE_invalid_tool_call | RE_tool_blocked_by_hook
  | RE_internal

text \<open>\<open>cause\<close> is carried for diagnosis only and never read by the core; the model leaves it out.\<close>

record agent_run_error =
  er_code :: run_error_code
  er_message :: string
  er_retryable :: bool

record agent_run_result =
  ar_runId :: string
  ar_status :: run_status
  ar_context :: agent_context
  ar_turns :: nat
  ar_usage :: inference_usage
  ar_durationMs :: int
  ar_hadWorkActivity :: bool
  ar_lastAgentMessage :: string
  ar_error :: "agent_run_error option"

record compaction_telemetry =
  ct_originalTokens :: "int option"
  ct_compactedTokens :: "int option"
  ct_summaryTokens :: "int option"
  ct_summarizedMessages :: "int option"
  ct_retainedMessages :: "int option"

datatype message_phase = Commentary | Final

text \<open>
  The body of a run event; \<open>turn.started\<close> is modelled without its byte-count telemetry.
\<close>

datatype run_event_body =
    RunStarted model_ref
  | RunState run_status
  | TurnStarted nat agent_context "string list"  \<comment> \<open>turn, context, names of the tools offered\<close>
  | ModelStarted nat inference_model
  | ContextCompacting nat
  | ContextCompacted nat "compaction_telemetry option"
  | MessageTextDelta nat nat string
  | MessageReasoningDelta nat nat string
  | MessageToolCallDelta nat nat string
  | MessageCompleted nat assistant_message message_phase
  | MessageFinalRejected nat nat
  | ToolStarted nat tool_call
  | ToolProgress nat string string "json option"
  | ToolCompleted nat tool_call agent_tool_result int
  | ToolFailed nat tool_call agent_run_error int
  | SteerAccepted inference_message
  | RunCompleted agent_run_result
  | RunCancelled agent_run_result
  | RunFailed agent_run_result

record agent_run_event =
  ev_runId :: string
  ev_sequence :: nat
  ev_timestamp :: int
  ev_body :: run_event_body

fun is_terminal_event :: "run_event_body \<Rightarrow> bool" where
  "is_terminal_event (RunCompleted _) = True"
| "is_terminal_event (RunCancelled _) = True"
| "is_terminal_event (RunFailed _) = True"
| "is_terminal_event _ = False"

section \<open>Reading an assistant message\<close>

definition tool_calls_of :: "assistant_message \<Rightarrow> tool_call list" where
  "tool_calls_of m = List.map_filter (\<lambda>b. case b of AToolCall c \<Rightarrow> Some c | _ \<Rightarrow> None) (am_content m)"

definition text_of :: "assistant_message \<Rightarrow> string" where
  "text_of m = js_join [CHR 0x0A]
     (List.map_filter (\<lambda>b. case b of AText t \<Rightarrow> Some t | _ \<Rightarrow> None) (am_content m))"

end
