(* ===== verification/RunControl.thy ===== *)
theory RunControl
  imports AgentTypes
begin

text \<open>
  The handle a host holds on a run, \<^verbatim>\<open>AgentRunControl\<close> of \<^verbatim>\<open>packages/core/src/control.ts\<close>:
  cancelling, steering, observing steering, draining it, and the seal that closes the race between
  the runner's last drain and completion.

  The state keeps the abort reason (\<open>Some\<close> once aborted), the queued messages, the registered
  listeners in insertion order (a JavaScript \<open>Set\<close> iterates in that order) and whether steering
  is still accepted.  A listener is a name; the calls made to listeners are returned as a list.
\<close>

record run_control =
  abort_reason :: "string option"
  steering :: "inference_message list"
  steer_listeners :: "nat list"
  accepting_steering :: bool

definition new_control :: run_control where
  "new_control = \<lparr>abort_reason = None, steering = [], steer_listeners = [],
     accepting_steering = True\<rparr>"

definition control_aborted :: "run_control \<Rightarrow> bool" where
  "control_aborted c \<longleftrightarrow> abort_reason c \<noteq> None"

definition cancel :: "string \<Rightarrow> run_control \<Rightarrow> run_control" where
  "cancel reason c = (if control_aborted c then c else c\<lparr>abort_reason := Some reason\<rparr>)"

text \<open>The listener calls \<open>steer\<close> makes, in order, with the new state; or the error it throws.\<close>

definition steer :: "inference_message \<Rightarrow> run_control
    \<Rightarrow> (string, (nat \<times> inference_message) list \<times> run_control) result" where
  "steer m c =
     (if control_aborted c then Inl ''Cannot steer a cancelled run''
      else if \<not> accepting_steering c then Inl ''Run no longer accepts steering''
      else Inr (map (\<lambda>l. (l, m)) (steer_listeners c), c\<lparr>steering := steering c @ [m]\<rparr>))"

definition on_steer :: "nat \<Rightarrow> run_control \<Rightarrow> run_control" where
  "on_steer l c = (if l \<in> set (steer_listeners c) then c
     else c\<lparr>steer_listeners := steer_listeners c @ [l]\<rparr>)"

definition off_steer :: "nat \<Rightarrow> run_control \<Rightarrow> run_control" where
  "off_steer l c = c\<lparr>steer_listeners := filter (\<lambda>k. k \<noteq> l) (steer_listeners c)\<rparr>"

definition peek_steering :: "run_control \<Rightarrow> inference_message list" where
  "peek_steering c = steering c"

definition drain_steering :: "run_control \<Rightarrow> inference_message list \<times> run_control" where
  "drain_steering c = (steering c, c\<lparr>steering := []\<rparr>)"

definition seal_steering_if_empty :: "run_control \<Rightarrow> bool \<times> run_control" where
  "seal_steering_if_empty c =
     (if steering c \<noteq> [] then (False, c) else (True, c\<lparr>accepting_steering := False\<rparr>))"

lemmas control_defs = new_control_def control_aborted_def cancel_def steer_def on_steer_def
  off_steer_def peek_steering_def drain_steering_def seal_steering_if_empty_def

section \<open>The steering contract\<close>

text \<open>
  What the runner relies on: a queue that is emptied by draining, that an accepted message joins at
  the end, and that no message can join once it has been sealed.  The contract is stated over
  any representation of the handle with its pending messages and its open flag.
\<close>

locale steering_queue =
  fixes pending :: "'c \<Rightarrow> 'm list"
    and open_q :: "'c \<Rightarrow> bool"
    and push :: "'m \<Rightarrow> 'c \<Rightarrow> 'c option"
    and drain :: "'c \<Rightarrow> 'm list \<times> 'c"
    and seal :: "'c \<Rightarrow> bool \<times> 'c"
  assumes push_Some: "push m c = Some c' \<Longrightarrow> pending c' = pending c @ [m] \<and> open_q c' \<and> open_q c"
    and drain_result: "fst (drain c) = pending c"
    and drain_pending: "pending (snd (drain c)) = []"
    and drain_open: "open_q (snd (drain c)) = open_q c"
    and seal_result: "fst (seal c) \<longleftrightarrow> pending c = []"
    and seal_pending: "pending (snd (seal c)) = pending c"
    and seal_open: "open_q (snd (seal c)) \<longleftrightarrow> open_q c \<and> pending c \<noteq> []"
begin

text \<open>One action of the two parties on the queue: the host pushes, the runner drains or seals.\<close>

fun act :: "'m option \<Rightarrow> bool \<Rightarrow> 'm list \<times> 'm list \<times> 'c \<Rightarrow> 'm list \<times> 'm list \<times> 'c" where
  "act (Some m) _ (acc, heard, c) =
     (case push m c of None \<Rightarrow> (acc, heard, c) | Some c' \<Rightarrow> (acc @ [m], heard, c'))"
| "act None True (acc, heard, c) = (acc, heard @ fst (drain c), snd (drain c))"
| "act None False (acc, heard, c) = (acc, heard, snd (seal c))"

definition conserved :: "'m list \<times> 'm list \<times> 'c \<Rightarrow> bool" where
  "conserved s = (case s of (acc, heard, c) \<Rightarrow> acc = heard @ pending c)"

lemma act_conserved: "conserved s \<Longrightarrow> conserved (act p b s)"
  by (cases s; cases p; cases b)
    (auto simp: conserved_def drain_result drain_pending seal_pending
      split: option.splits dest: push_Some)

text \<open>Whatever the interleaving, what was accepted is what was drained plus what is queued.\<close>

lemma run_conserved: "conserved s \<Longrightarrow> conserved (foldl (\<lambda>s (p, b). act p b s) s acts)"
  by (induction acts arbitrary: s) (auto simp: act_conserved split: prod.splits)

text \<open>A successful seal leaves nothing queued and shuts the queue for good.\<close>

lemma sealed_refuses:
  assumes "fst (seal c)"
  shows "push m (snd (seal c)) = None" and "pending (snd (seal c)) = []"
proof -
  have empty: "pending c = []" using assms by (simp add: seal_result)
  then have closed: "\<not> open_q (snd (seal c))" by (simp add: seal_open)
  show "push m (snd (seal c)) = None"
    using closed by (cases "push m (snd (seal c))") (auto dest: push_Some)
  show "pending (snd (seal c)) = []" using empty by (simp add: seal_pending)
qed

end

text \<open>The host's view of \<open>steer\<close>: the new handle when the call does not throw.\<close>

definition steer_opt :: "inference_message \<Rightarrow> run_control \<Rightarrow> run_control option" where
  "steer_opt m c = (case steer m c of Inl _ \<Rightarrow> None | Inr (_, c') \<Rightarrow> Some c')"

interpretation rc: steering_queue steering accepting_steering steer_opt drain_steering
  seal_steering_if_empty
  by unfold_locales (auto simp: steer_opt_def control_defs split: if_splits)

lemma steer_opt_Some_iff:
  "steer_opt m c = Some c' \<longleftrightarrow>
     abort_reason c = None \<and> accepting_steering c \<and> c' = c\<lparr>steering := steering c @ [m]\<rparr>"
  by (auto simp: steer_opt_def control_defs)

lemma steer_after_cancel: "steer m (cancel r c) = Inl ''Cannot steer a cancelled run''"
  by (auto simp: control_defs)

lemma cancel_idem [simp]: "cancel r' (cancel r c) = cancel r c"
  by (auto simp: control_defs)

end
