(* ===== verification/RunMonad.thy ===== *)
theory RunMonad
  imports RunControl
begin

text \<open>
  The state, the effects and the elementary steps of the agent loop,
  \<^verbatim>\<open>AgentRunner\<close> of \<^verbatim>\<open>packages/core/src/runner.ts\<close>.

  \<^bold>\<open>State and effects.\<close>  A run is a state-passing computation that may throw
  (\<open>('w, 'a) run\<close>).  The state holds the world \<open>'w\<close> of everything outside the runner, the
  control handle, the counters of the loop and the events pushed to the client's queue.
  Every \<open>await\<close> hands the world to a function of the environment; it returns a value, the calls the
  host made on the handle meanwhile (\<open>ctl_event\<close>), and the new world.  Steering and
  cancellation can therefore arrive at every suspension point.

  \<^bold>\<open>Parameters.\<close>  The inference service, the tools, the hooks, the event sink, the observer, the
  request callbacks and the clock are functions over \<open>'w\<close>.  A stream is a finite list of events
  followed by its end or a thrown error.  One \<open>emit\<close> is atomic: the sink and the observer of
  one event settle before the next event is emitted.
\<close>

section \<open>Thrown values and the environment\<close>

datatype thrown =
    ThrownRunError agent_run_error
  | ThrownError string   \<comment> \<open>an \<open>Error\<close> with its message\<close>
  | ThrownOther string   \<comment> \<open>any other value, as \<open>String\<close> prints it\<close>

datatype ctl_event =
    CtlSteer inference_message
  | CtlCancel string
  | CtlAbortRequest string  \<comment> \<open>the caller's own \<open>request.signal\<close>\<close>

text \<open>One suspension: the value, the host's calls meanwhile, the new world.\<close>

type_synonym ('w, 'a) await = "'w \<Rightarrow> 'a \<times> ctl_event list \<times> 'w"

record tool_context =
  tx_runId :: string
  tx_budgetScope :: "string option"
  tx_turn :: nat
  tx_callId :: string
  tx_subagent :: bool

text \<open>
  Executing a tool yields the progress it reports, each \<open>emitProgress\<close> call in order, and then its
  result or what it throws.
\<close>

type_synonym tool_outcome = "(string \<times> json option) list \<times> (thrown, agent_tool_result) result"

record 'w agent_tool =
  at_name :: string
  at_description :: string
  at_parameters :: json
  at_strict :: "string option"
  at_executionMode :: "execution_mode option"
  at_execute :: "json \<Rightarrow> tool_context \<Rightarrow> ('w, tool_outcome) await"

record hook_decision =
  hd_allow :: bool
  hd_message :: "string option"

record tool_turn_budget =
  tb_maximum :: int
  tb_synthesisPrompt :: string

datatype compaction_report = ReportCompacting | ReportCompacted "compaction_telemetry option"

record inference_request =
  ir_model :: model_ref
  ir_systemPrompt :: "string option"
  ir_messages :: "inference_message list"
  ir_tools :: "inference_tool list"

record callback_input =
  ci_runId :: string
  ci_turn :: nat
  ci_text :: string

text \<open>
  A run request.  \<open>rq_maxTurns\<close> is \<open>None\<close> when the field is absent or not a finite number; a finite
  bound is an integer.
\<close>

record 'w run_request =
  rq_runId :: string
  rq_budgetScope :: "string option"
  rq_model :: model_ref
  rq_context :: agent_context
  rq_tools :: "'w agent_tool list"
  rq_subagentRun :: bool
  rq_maxTurns :: "int option"
  rq_toolTurnBudget :: "tool_turn_budget option"
  rq_toolExecution :: "execution_mode option"
  rq_transformContext :: "(nat \<Rightarrow> agent_context
      \<Rightarrow> ('w, compaction_report list \<times> (thrown, agent_context) result) await) option"
  rq_reviewFinal :: "(callback_input \<Rightarrow> ('w, (thrown, inference_message list) result) await) option"
  rq_beforeComplete :: "(callback_input \<Rightarrow> ('w, (thrown, inference_message list) result) await) option"
  rq_hasSignal :: bool

text \<open>What the runner was constructed with, and the services it reaches.\<close>

record 'w run_env =
  en_stream :: "inference_request
      \<Rightarrow> ('w, (ctl_event list \<times> inference_event) list \<times> thrown option) await"
  en_sink :: "agent_run_event \<Rightarrow> ('w, thrown option) await"
  en_observer :: "agent_run_event \<Rightarrow> ('w, thrown option) await"
  en_clock :: "'w \<Rightarrow> int \<times> 'w"
  en_now :: "'w \<Rightarrow> int \<times> 'w"
  en_beforeTool :: "(tool_call \<Rightarrow> ('w, (thrown, hook_decision) result) await) option"
  en_afterTool :: "(tool_call \<Rightarrow> agent_tool_result \<Rightarrow> ('w, unit) await) option"
  en_retryWait :: "int \<Rightarrow> ('w, unit) await"
  en_toolSchedule :: "'w \<Rightarrow> nat list"

section \<open>The run state\<close>

record locals =
  lc_messages :: "inference_message list"
  lc_usage :: inference_usage
  lc_hadWorkActivity :: bool
  lc_lastAgentMessage :: string
  lc_emptyFinalRepairIssued :: bool
  lc_toolTurns :: int

record 'w run_state =
  st_world :: 'w
  st_control :: run_control
  st_requestAborted :: "string option"
  st_calls :: "(ctl_event \<times> bool) list"  \<comment> \<open>the host's calls and whether each was accepted\<close>
  st_sequence :: nat
  st_events :: "agent_run_event list"
  st_turns :: nat
  st_allowRepairTurn :: bool
  st_remainingRepairTurns :: nat
  st_locals :: locals

type_synonym ('w, 'a) run = "'w run_state \<Rightarrow> (thrown, 'a) result \<times> 'w run_state"

definition ret :: "'a \<Rightarrow> ('w, 'a) run" where
  "ret x = (\<lambda>s. (Inr x, s))"

definition throw :: "thrown \<Rightarrow> ('w, 'a) run" where
  "throw e = (\<lambda>s. (Inl e, s))"

definition seq :: "('w, 'a) run \<Rightarrow> ('a \<Rightarrow> ('w, 'b) run) \<Rightarrow> ('w, 'b) run" where
  "seq m f = (\<lambda>s. case m s of (Inl e, s') \<Rightarrow> (Inl e, s') | (Inr x, s') \<Rightarrow> f x s')"

definition attempt :: "('w, 'a) run \<Rightarrow> ('w, (thrown, 'a) result) run" where
  "attempt m = (\<lambda>s. case m s of (r, s') \<Rightarrow> (Inr r, s'))"

definition lift_result :: "(thrown, 'a) result \<Rightarrow> ('w, 'a) run" where
  "lift_result r = (\<lambda>s. (r, s))"

definition gets :: "('w run_state \<Rightarrow> 'a) \<Rightarrow> ('w, 'a) run" where
  "gets f = (\<lambda>s. (Inr (f s), s))"

definition modify_locals :: "(locals \<Rightarrow> locals) \<Rightarrow> ('w, unit) run" where
  "modify_locals f = (\<lambda>s. (Inr (), s\<lparr>st_locals := f (st_locals s)\<rparr>))"

definition set_allow_repair :: "bool \<Rightarrow> ('w, unit) run" where
  "set_allow_repair b = (\<lambda>s. (Inr (), s\<lparr>st_allowRepairTurn := b\<rparr>))"

fun for_each :: "('a \<Rightarrow> ('w, unit) run) \<Rightarrow> 'a list \<Rightarrow> ('w, unit) run" where
  "for_each f [] = ret ()"
| "for_each f (x # xs) = seq (f x) (\<lambda>_. for_each f xs)"

section \<open>Suspensions\<close>

text \<open>The host's calls act on the handle in order; a steer that throws leaves it unchanged.\<close>

fun apply_ctl :: "ctl_event \<Rightarrow> 'w run_state \<Rightarrow> 'w run_state" where
  "apply_ctl (CtlSteer m) s =
     (case steer_opt m (st_control s) of
        None \<Rightarrow> s\<lparr>st_calls := st_calls s @ [(CtlSteer m, False)]\<rparr>
      | Some c \<Rightarrow> s\<lparr>st_control := c, st_calls := st_calls s @ [(CtlSteer m, True)]\<rparr>)"
| "apply_ctl (CtlCancel r) s =
     s\<lparr>st_control := cancel r (st_control s), st_calls := st_calls s @ [(CtlCancel r, True)]\<rparr>"
| "apply_ctl (CtlAbortRequest r) s =
     s\<lparr>st_requestAborted := (case st_requestAborted s of None \<Rightarrow> Some r | Some r' \<Rightarrow> Some r'),
       st_calls := st_calls s @ [(CtlAbortRequest r, True)]\<rparr>"

definition host_calls :: "ctl_event list \<Rightarrow> ('w, unit) run" where
  "host_calls cs = (\<lambda>s. (Inr (), fold apply_ctl cs s))"

definition awaiting :: "('w, 'a) await \<Rightarrow> ('w, 'a) run" where
  "awaiting f = (\<lambda>s. case f (st_world s) of (x, cs, w) \<Rightarrow>
     (Inr x, fold apply_ctl cs (s\<lparr>st_world := w\<rparr>)))"

definition reading :: "('w \<Rightarrow> int \<times> 'w) \<Rightarrow> ('w, int) run" where
  "reading f = (\<lambda>s. case f (st_world s) of (x, w) \<Rightarrow> (Inr x, s\<lparr>st_world := w\<rparr>))"

text \<open>\<open>AbortSignal.any\<close> of the request's signal, when it has one, and the control's.\<close>

definition signal_aborted :: "'w run_request \<Rightarrow> 'w run_state \<Rightarrow> bool" where
  "signal_aborted rq s \<longleftrightarrow>
     control_aborted (st_control s) \<or> (rq_hasSignal rq \<and> st_requestAborted s \<noteq> None)"

definition coreError :: "run_error_code \<Rightarrow> string \<Rightarrow> bool \<Rightarrow> agent_run_error" where
  "coreError code m retryable = \<lparr>er_code = code, er_message = m, er_retryable = retryable\<rparr>"

definition throwIfAborted :: "'w run_request \<Rightarrow> ('w, unit) run" where
  "throwIfAborted rq = seq (gets (signal_aborted rq)) (\<lambda>a.
     if a then throw (ThrownRunError (coreError RE_aborted ''Agent run was cancelled'' False))
     else ret ())"

definition normalizeError :: "thrown \<Rightarrow> bool \<Rightarrow> agent_run_error" where
  "normalizeError cause aborted =
     (if aborted then coreError RE_aborted ''Agent run was cancelled'' False
      else case cause of
             ThrownRunError e \<Rightarrow> e
           | ThrownError m \<Rightarrow> coreError RE_internal m False
           | ThrownOther m \<Rightarrow> coreError RE_internal m False)"

section \<open>Emitting events\<close>

definition check_thrown :: "thrown option \<Rightarrow> ('w, unit) run" where
  "check_thrown t = (case t of None \<Rightarrow> ret () | Some e \<Rightarrow> throw e)"

definition next_sequence :: "('w, nat) run" where
  "next_sequence = (\<lambda>s. (Inr (Suc (st_sequence s)), s\<lparr>st_sequence := Suc (st_sequence s)\<rparr>))"

definition queue_push :: "agent_run_event \<Rightarrow> ('w, unit) run" where
  "queue_push e = (\<lambda>s. (Inr (), s\<lparr>st_events := st_events s @ [e]\<rparr>))"

definition emit :: "'w run_env \<Rightarrow> 'w run_request \<Rightarrow> run_event_body \<Rightarrow> ('w, unit) run" where
  "emit env rq body =
     seq next_sequence (\<lambda>n.
     seq (reading (en_clock env)) (\<lambda>t.
     let full = \<lparr>ev_runId = rq_runId rq, ev_sequence = n, ev_timestamp = t, ev_body = body\<rparr> in
     seq (awaiting (en_sink env full)) (\<lambda>r1.
     seq (check_thrown r1) (\<lambda>_.
     seq (awaiting (en_observer env full)) (\<lambda>r2.
     seq (check_thrown r2) (\<lambda>_.
     queue_push full))))))"

definition setStatus :: "'w run_env \<Rightarrow> 'w run_request \<Rightarrow> run_status \<Rightarrow> ('w, unit) run" where
  "setStatus env rq st = emit env rq (RunState st)"

definition push_messages :: "inference_message list \<Rightarrow> ('w, unit) run" where
  "push_messages ms = modify_locals (\<lambda>l. l\<lparr>lc_messages := lc_messages l @ ms\<rparr>)"

definition mark_work :: "('w, unit) run" where
  "mark_work = modify_locals (\<lambda>l. l\<lparr>lc_hadWorkActivity := True\<rparr>)"

section \<open>Steering\<close>

definition drain :: "('w, inference_message list) run" where
  "drain = (\<lambda>s. case drain_steering (st_control s) of (ms, c) \<Rightarrow> (Inr ms, s\<lparr>st_control := c\<rparr>))"

definition accept_steering :: "'w run_env \<Rightarrow> 'w run_request \<Rightarrow> inference_message list \<Rightarrow> ('w, unit) run" where
  "accept_steering env rq ms = for_each (\<lambda>m.
     seq (push_messages [m]) (\<lambda>_. emit env rq (SteerAccepted m))) ms"

definition seal :: "('w, bool) run" where
  "seal = (\<lambda>s. case seal_steering_if_empty (st_control s) of (b, c) \<Rightarrow>
     (Inr b, s\<lparr>st_control := c\<rparr>))"

section \<open>Computations that never throw\<close>

lemmas run_defs = ret_def throw_def seq_def attempt_def lift_result_def gets_def modify_locals_def
  set_allow_repair_def host_calls_def

lemma seq_Inr_iff:
  "seq m f s = (Inr y, s'') \<longleftrightarrow> (\<exists>x s'. m s = (Inr x, s') \<and> f x s' = (Inr y, s''))"
  by (auto simp: seq_def split: prod.splits sum.splits)

lemma seq_Inl_iff:
  "seq m f s = (Inl e, s'') \<longleftrightarrow>
     m s = (Inl e, s'') \<or> (\<exists>x s'. m s = (Inr x, s') \<and> f x s' = (Inl e, s''))"
  by (auto simp: seq_def split: prod.splits sum.splits)

definition no_throw :: "('w, 'a) run \<Rightarrow> bool" where
  "no_throw m \<longleftrightarrow> (\<forall>s. \<exists>x s'. m s = (Inr x, s'))"

lemma no_throwD: "no_throw m \<Longrightarrow> \<exists>x s'. m s = (Inr x, s')"
  by (simp add: no_throw_def)

lemma no_throw_ret: "no_throw (ret x)"
  by (simp add: no_throw_def ret_def)

lemma no_throw_gets: "no_throw (gets f)"
  by (simp add: no_throw_def gets_def)

lemma no_throw_attempt: "no_throw (attempt m)"
  by (auto simp: no_throw_def attempt_def split: prod.splits)

lemma no_throw_awaiting: "no_throw (awaiting f)"
  by (auto simp: no_throw_def awaiting_def split: prod.splits)

lemma no_throw_reading: "no_throw (reading f)"
  by (auto simp: no_throw_def reading_def split: prod.splits)

lemma no_throw_seq: "no_throw m \<Longrightarrow> (\<And>x. no_throw (f x)) \<Longrightarrow> no_throw (seq m f)"
  unfolding no_throw_def seq_Inr_iff by meson

lemmas no_throw_rules = no_throw_ret no_throw_gets no_throw_attempt no_throw_awaiting
  no_throw_reading no_throw_seq

section \<open>Relations between the states before and after\<close>

text \<open>
  A property of all the steps of a run is a preorder on states that the elementary effects respect:
  a change of the world, a call of the host, the emission of an event and, in the extension
  below, an update of the loop's local variables.  Emitting \<open>steer.accepted\<close> and the terminal events are set apart, since
  only the steering code and the two ends of the run do it.  Everything the runner builds from these effects then respects the relation; the theories
  below prove that once per operation, in this locale.
\<close>

fun is_steer_event :: "run_event_body \<Rightarrow> bool" where
  "is_steer_event (SteerAccepted _) = True"
| "is_steer_event _ = False"

abbreviation is_work_event :: "run_event_body \<Rightarrow> bool" where
  "is_work_event body \<equiv> \<not> is_steer_event body \<and> \<not> is_terminal_event body"

locale io_relation =
  fixes env :: "'w run_env" and rq :: "'w run_request"
    and R :: "'w run_state \<Rightarrow> 'w run_state \<Rightarrow> bool"
  assumes R_refl: "R s s"
    and R_trans: "R s t \<Longrightarrow> R t u \<Longrightarrow> R s u"
    and R_world: "R s (s\<lparr>st_world := w\<rparr>)"
    and R_ctl: "R s (apply_ctl c s)"
    and R_emit: "is_work_event body \<Longrightarrow> R s (snd (emit env rq body s))"
begin

definition stays :: "('w, 'a) run \<Rightarrow> bool" where
  "stays m \<longleftrightarrow> (\<forall>s. R s (snd (m s)))"

lemma staysD: "stays m \<Longrightarrow> m s = (r, s') \<Longrightarrow> R s s'"
  by (metis stays_def snd_conv)

lemma R_ctls: "R s (fold apply_ctl cs s)"
proof (induction cs arbitrary: s)
  case Nil
  show ?case by (simp add: R_refl)
next
  case (Cons c cs)
  from R_ctl [of s c] Cons [of "apply_ctl c s"] show ?case
    by (simp add: R_trans [of s "apply_ctl c s"])
qed

lemma stays_ret: "stays (ret x)"
  and stays_throw: "stays (throw e)"
  and stays_gets: "stays (gets f)"
  and stays_lift: "stays (lift_result r)"
  by (simp_all add: stays_def run_defs R_refl)

lemma stays_host_calls: "stays (host_calls cs)"
  by (simp add: stays_def host_calls_def R_ctls)

lemma stays_awaiting: "stays (awaiting f)"
  by (auto simp: stays_def awaiting_def split: prod.splits intro: R_trans [OF R_world R_ctls])

lemma stays_reading: "stays (reading f)"
  by (auto simp: stays_def reading_def split: prod.splits intro: R_world)

lemma stays_emit: "is_work_event body \<Longrightarrow> stays (emit env rq body)"
  by (simp add: stays_def R_emit)

lemma stays_seq: "stays m \<Longrightarrow> (\<And>x. stays (f x)) \<Longrightarrow> stays (seq m f)"
  unfolding stays_def
proof
  fix s
  assume m: "\<forall>s. R s (snd (m s))" and f: "\<And>x. \<forall>s. R s (snd (f x s))"
  obtain r t where mt: "m s = (r, t)" by (cases "m s")
  with m have "R s t" by (metis snd_conv)
  with mt f show "R s (snd (seq m f s))"
    by (cases r) (auto simp: seq_def intro: R_trans)
qed

lemma stays_attempt: "stays m \<Longrightarrow> stays (attempt m)"
  by (simp add: stays_def attempt_def split_def)

lemma stays_if: "stays a \<Longrightarrow> stays b \<Longrightarrow> stays (if c then a else b)"
  by simp

lemma stays_option: "stays a \<Longrightarrow> (\<And>y. stays (f y)) \<Longrightarrow> stays (case x of None \<Rightarrow> a | Some y \<Rightarrow> f y)"
  by (cases x) auto

lemma stays_sum: "(\<And>y. stays (f y)) \<Longrightarrow> (\<And>y. stays (g y))
    \<Longrightarrow> stays (case x of Inl y \<Rightarrow> f y | Inr y \<Rightarrow> g y)"
  by (cases x) auto

lemma stays_prod: "(\<And>y z. stays (f y z)) \<Longrightarrow> stays (case x of (y, z) \<Rightarrow> f y z)"
  by (cases x) auto

lemma stays_check: "stays (check_thrown t)"
  by (cases t) (simp_all add: check_thrown_def stays_ret stays_throw)

lemma stays_throwIfAborted: "stays (throwIfAborted rq)"
  by (simp add: throwIfAborted_def stays_seq stays_gets stays_throw stays_ret)

lemma stays_setStatus: "stays (setStatus env rq st)"
  by (simp add: setStatus_def stays_emit)

lemma stays_for_each: "(\<And>x. stays (f x)) \<Longrightarrow> stays (for_each f xs)"
  by (induction xs) (auto intro: stays_ret stays_seq)

lemmas stays_rules = stays_ret stays_throw stays_gets stays_lift
  stays_host_calls stays_awaiting stays_reading stays_emit stays_seq stays_attempt stays_if
  stays_option stays_sum stays_prod stays_check stays_throwIfAborted stays_setStatus stays_for_each

end

text \<open>Relations that also allow the loop's local variables to change.\<close>

locale run_relation = io_relation +
  assumes R_locals: "R s (s\<lparr>st_locals := l\<rparr>)"
    and R_allow: "R s (s\<lparr>st_allowRepairTurn := b\<rparr>)"
begin

lemma stays_locals: "stays (modify_locals f)"
  and stays_allow: "stays (set_allow_repair b)"
  by (simp_all add: stays_def run_defs R_locals R_allow)

lemma stays_push_messages: "stays (push_messages ms)"
  and stays_mark_work: "stays mark_work"
  by (simp_all add: push_messages_def mark_work_def stays_locals)

end

text \<open>
  Relations that also allow the handle to change and steering to be announced, and those that allow
  the terminal events too.
\<close>

locale steer_relation = run_relation +
  assumes R_emit_steer: "R s (snd (emit env rq (SteerAccepted m) s))"
    and R_control: "R s (s\<lparr>st_control := c\<rparr>)"
begin

lemma stays_drain: "stays drain"
  by (auto simp: stays_def drain_def split: prod.splits intro: R_control)

lemma stays_seal: "stays seal"
  by (auto simp: stays_def seal_def split: prod.splits intro: R_control)

lemma stays_emit_live: "\<not> is_terminal_event body \<Longrightarrow> stays (emit env rq body)"
  by (cases "is_steer_event body")
    (auto simp: stays_def R_emit_steer R_emit elim!: is_steer_event.elims)

lemma stays_accept_steering: "stays (accept_steering env rq ms)"
  unfolding accept_steering_def
  by (intro stays_for_each stays_seq stays_push_messages stays_emit_live) simp

end

locale turn_relation = steer_relation +
  assumes R_emit_terminal: "is_terminal_event body \<Longrightarrow> R s (snd (emit env rq body s))"
begin

lemma stays_emit_any: "stays (emit env rq body)"
  by (cases "is_terminal_event body") (auto simp: stays_def R_emit_terminal intro: stays_emit_live [unfolded stays_def, rule_format])

end

section \<open>The event log\<close>

text \<open>
  Emission numbers events upwards.  A failed emission (the sink or the observer throws) uses up
  a number and pushes nothing, so the log's numbers increase but may skip.
\<close>

definition log_extends :: "string \<Rightarrow> 'w run_state \<Rightarrow> 'w run_state \<Rightarrow> bool" where
  "log_extends rid s s' \<longleftrightarrow> st_sequence s \<le> st_sequence s' \<and>
     (\<exists>new. st_events s' = st_events s @ new \<and> sorted_wrt (<) (map ev_sequence new) \<and>
        (\<forall>e\<in>set new. st_sequence s < ev_sequence e \<and> ev_sequence e \<le> st_sequence s'
           \<and> ev_runId e = rid))"

lemma log_extends_refl: "log_extends rid s s"
  by (simp add: log_extends_def)

lemma log_extends_trans:
  assumes "log_extends rid s t" and "log_extends rid t u"
  shows "log_extends rid s u"
proof -
  from assms obtain a b where
      a: "st_events t = st_events s @ a" "sorted_wrt (<) (map ev_sequence a)"
        "\<forall>e\<in>set a. st_sequence s < ev_sequence e \<and> ev_sequence e \<le> st_sequence t \<and> ev_runId e = rid"
    and b: "st_events u = st_events t @ b" "sorted_wrt (<) (map ev_sequence b)"
        "\<forall>e\<in>set b. st_sequence t < ev_sequence e \<and> ev_sequence e \<le> st_sequence u \<and> ev_runId e = rid"
    and le: "st_sequence s \<le> st_sequence t" "st_sequence t \<le> st_sequence u"
    unfolding log_extends_def by blast
  have "sorted_wrt (<) (map ev_sequence (a @ b))"
    using a b by (fastforce simp: sorted_wrt_append)
  then show ?thesis unfolding log_extends_def using a b le by (intro conjI exI [of _ "a @ b"]) auto
qed

lemma apply_ctl_frame [simp]:
  "st_sequence (apply_ctl c s) = st_sequence s" "st_events (apply_ctl c s) = st_events s"
  "st_turns (apply_ctl c s) = st_turns s" "st_locals (apply_ctl c s) = st_locals s"
  "st_remainingRepairTurns (apply_ctl c s) = st_remainingRepairTurns s"
  "st_allowRepairTurn (apply_ctl c s) = st_allowRepairTurn s" "st_world (apply_ctl c s) = st_world s"
  by (cases c; simp split: option.splits)+

lemma fold_ctl_frame [simp]:
  "st_sequence (fold apply_ctl cs s) = st_sequence s" "st_events (fold apply_ctl cs s) = st_events s"
  "st_turns (fold apply_ctl cs s) = st_turns s" "st_locals (fold apply_ctl cs s) = st_locals s"
  "st_remainingRepairTurns (fold apply_ctl cs s) = st_remainingRepairTurns s"
  "st_allowRepairTurn (fold apply_ctl cs s) = st_allowRepairTurn s"
  "st_world (fold apply_ctl cs s) = st_world s"
  by (induction cs arbitrary: s) auto

text \<open>
  What one emission does: it takes a number; if neither the sink nor the observer throws it pushes
  one event with that number; otherwise it throws and pushes nothing.
\<close>

lemma emit_cases:
  obtains (sink) e cs w where "emit env rq body s =
      (Inl e, fold apply_ctl cs (s\<lparr>st_sequence := Suc (st_sequence s), st_world := w\<rparr>))"
  | (observer) e cs cs' w w' where "emit env rq body s =
      (Inl e, fold apply_ctl cs' ((fold apply_ctl cs
         (s\<lparr>st_sequence := Suc (st_sequence s), st_world := w\<rparr>))\<lparr>st_world := w'\<rparr>))"
  | (pushed) cs cs' w w' u where "emit env rq body s = (Inr (), u\<lparr>st_events := st_events u @
      [\<lparr>ev_runId = rq_runId rq, ev_sequence = Suc (st_sequence s),
        ev_timestamp = fst (en_clock env (st_world s)), ev_body = body\<rparr>]\<rparr>)"
      "u = fold apply_ctl cs' ((fold apply_ctl cs
         (s\<lparr>st_sequence := Suc (st_sequence s), st_world := w\<rparr>))\<lparr>st_world := w'\<rparr>)"
proof -
  obtain t w1 where c: "en_clock env (st_world s) = (t, w1)" by fastforce
  define full where "full = \<lparr>ev_runId = rq_runId rq, ev_sequence = Suc (st_sequence s),
    ev_timestamp = t, ev_body = body\<rparr>"
  obtain r1 cs1 w2 where k: "en_sink env full w1 = (r1, cs1, w2)" by (metis prod_cases3)
  obtain r2 cs2 w3 where ob: "en_observer env full w2 = (r2, cs2, w3)" by (metis prod_cases3)
  note steps = emit_def run_defs next_sequence_def reading_def awaiting_def check_thrown_def
    queue_push_def Let_def c full_def [symmetric] k ob
  show thesis
  proof (cases r1)
    case (Some e)
    then show ?thesis by (intro sink [where e = e and cs = cs1 and w = w2]) (simp add: steps)
  next
    case None
    show ?thesis
    proof (cases r2)
      case (Some e)
      with None show ?thesis by (intro observer [where e = e and cs = cs1 and cs' = cs2 and w = w2 and w' = w3]) (simp add: steps)
    next
      case None
      with \<open>r1 = None\<close> show ?thesis
        by (intro pushed [where cs = cs1 and cs' = cs2 and w = w2 and w' = w3, OF _ refl])
          (simp add: steps)
    qed
  qed
qed

lemma emit_effect:
  assumes "emit env rq body s = (r, s')"
  shows "st_sequence s' = Suc (st_sequence s)"
    and "st_turns s' = st_turns s" and "st_locals s' = st_locals s"
    and "st_remainingRepairTurns s' = st_remainingRepairTurns s"
    and "st_allowRepairTurn s' = st_allowRepairTurn s"
    and "st_events s' = (case r of Inl _ \<Rightarrow> st_events s | Inr _ \<Rightarrow> st_events s @
          [\<lparr>ev_runId = rq_runId rq, ev_sequence = Suc (st_sequence s),
            ev_timestamp = fst (en_clock env (st_world s)), ev_body = body\<rparr>])"
  by (cases rule: emit_cases [of env rq body s]; use assms in \<open>simp\<close>; fail)+

lemma emit_log_extends: "log_extends (rq_runId rq) s (snd (emit env rq body s))"
proof -
  obtain r s' where e: "emit env rq body s = (r, s')" by (cases "emit env rq body s")
  show ?thesis using emit_effect [OF e] e
    by (cases r) (auto simp: log_extends_def)
qed

interpretation log: turn_relation env rq "log_extends (rq_runId rq)" for env rq
proof (unfold_locales, goal_cases)
  case (2 s t u)
  then show ?case by (rule log_extends_trans)
qed (simp_all add: log_extends_refl emit_log_extends, simp_all add: log_extends_def)

text \<open>The two counters that bound the loop are written at its head only.\<close>

definition same_counters :: "'w run_state \<Rightarrow> 'w run_state \<Rightarrow> bool" where
  "same_counters s s' \<longleftrightarrow> st_turns s' = st_turns s \<and>
     st_remainingRepairTurns s' = st_remainingRepairTurns s"

lemma emit_same_counters: "same_counters s (snd (emit env rq body s))"
  by (cases "emit env rq body s") (simp add: emit_effect same_counters_def)

interpretation counters: turn_relation env rq same_counters for env rq
  by unfold_locales (simp_all add: emit_same_counters, simp_all add: same_counters_def)

text \<open>Inference and tools leave the loop's local variables alone.\<close>

lemma emit_locals: "st_locals (snd (emit env rq body s)) = st_locals s"
  by (cases "emit env rq body s") (simp add: emit_effect)

interpretation same_locals: io_relation env rq "\<lambda>s s'. st_locals s' = st_locals s" for env rq
  by unfold_locales (simp_all add: emit_locals)

section \<open>Steering is conserved\<close>

definition accepted_steering :: "'w run_state \<Rightarrow> inference_message list" where
  "accepted_steering s = List.map_filter (\<lambda>(c, ok). case c of CtlSteer m \<Rightarrow> if ok then Some m else None | _ \<Rightarrow> None)
     (st_calls s)"

definition heard_steering :: "'w run_state \<Rightarrow> inference_message list" where
  "heard_steering s = List.map_filter (\<lambda>e. case ev_body e of SteerAccepted m \<Rightarrow> Some m | _ \<Rightarrow> None)
     (st_events s)"

text \<open>
  What was queued before the run (\<open>pre\<close>) and what the host's steer calls were accepted with is what
  the run announced, then the messages it has drained and not yet announced (\<open>mid\<close>), then the queue.
\<close>

definition steering_ledger :: "inference_message list \<Rightarrow> inference_message list \<Rightarrow> 'w run_state \<Rightarrow> bool" where
  "steering_ledger pre mid s \<longleftrightarrow>
     pre @ accepted_steering s = heard_steering s @ mid @ steering (st_control s)"

abbreviation conserves_steering :: "inference_message list \<Rightarrow> 'w run_state \<Rightarrow> bool" where
  "conserves_steering pre \<equiv> steering_ledger pre []"

lemma map_filter_app: "List.map_filter f (xs @ ys) = List.map_filter f xs @ List.map_filter f ys"
  by (simp add: List.map_filter_def)

lemma apply_ctl_ledger: "steering_ledger pre mid s \<Longrightarrow> steering_ledger pre mid (apply_ctl c s)"
  by (cases c)
    (auto simp: steering_ledger_def accepted_steering_def heard_steering_def map_filter_app
      List.map_filter_simps steer_opt_Some_iff cancel_def split: option.splits)

lemma fold_ctl_ledger: "steering_ledger pre mid s \<Longrightarrow> steering_ledger pre mid (fold apply_ctl cs s)"
  by (induction cs arbitrary: s) (auto intro: apply_ctl_ledger)

lemma ledger_frame [simp]:
  "steering_ledger pre mid (s\<lparr>st_world := w\<rparr>) = steering_ledger pre mid s"
  "steering_ledger pre mid (s\<lparr>st_sequence := n\<rparr>) = steering_ledger pre mid s"
  "steering_ledger pre mid (s\<lparr>st_sequence := n, st_world := w\<rparr>) = steering_ledger pre mid s"
  "steering_ledger pre mid (s\<lparr>st_locals := l\<rparr>) = steering_ledger pre mid s"
  "steering_ledger pre mid (s\<lparr>st_allowRepairTurn := b\<rparr>) = steering_ledger pre mid s"
  by (simp_all add: steering_ledger_def accepted_steering_def heard_steering_def)

lemma heard_push:
  "heard_steering (u\<lparr>st_events := st_events u @ [e]\<rparr>) =
     heard_steering u @ (case ev_body e of SteerAccepted m \<Rightarrow> [m] | _ \<Rightarrow> [])"
  by (cases "ev_body e") (simp_all add: heard_steering_def map_filter_app List.map_filter_simps)

lemma emit_ledger:
  assumes "steering_ledger pre mid s" and "\<not> is_steer_event body"
  shows "steering_ledger pre mid (snd (emit env rq body s))"
proof (cases rule: emit_cases [of env rq body s])
  case (pushed cs cs' w w' u)
  have "steering_ledger pre mid u" using assms(1) by (simp add: pushed(2) fold_ctl_ledger)
  with pushed(1) assms(2) show ?thesis
    by (cases body) (simp_all add: steering_ledger_def heard_push accepted_steering_def)
qed (simp_all add: assms fold_ctl_ledger)

text \<open>A successful \<open>steer.accepted\<close> moves the first drained message to the announced ones.\<close>

lemma emit_steer_ledger:
  assumes "steering_ledger pre (m # mid) s" and "emit env rq (SteerAccepted m) s = (Inr x, s')"
  shows "steering_ledger pre mid s'"
proof (cases rule: emit_cases [of env rq "SteerAccepted m" s])
  case (pushed cs cs' w w' u)
  have "steering_ledger pre (m # mid) u" using assms(1) by (simp add: pushed(2) fold_ctl_ledger)
  with pushed(1) assms(2) show ?thesis
    by (auto simp: steering_ledger_def heard_push accepted_steering_def)
qed (use assms in auto)

interpretation steered: run_relation env rq
    "\<lambda>s s'. steering_ledger pre mid s \<longrightarrow> steering_ledger pre mid s'" for env rq pre mid
  by unfold_locales (auto simp: apply_ctl_ledger emit_ledger)

lemma accept_steering_ledger:
  "steering_ledger pre ms s \<Longrightarrow> accept_steering env rq ms s = (Inr x, s') \<Longrightarrow> conserves_steering pre s'"
proof (induction ms arbitrary: s)
  case Nil
  then show ?case by (simp add: accept_steering_def ret_def)
next
  case (Cons m ms)
  from Cons.prems(2) obtain u where
      "emit env rq (SteerAccepted m) (snd (push_messages [m] s)) = (Inr (), u)"
      "accept_steering env rq ms u = (Inr x, s')"
    by (auto simp: accept_steering_def seq_Inr_iff push_messages_def modify_locals_def)
  moreover have "steering_ledger pre (m # ms) (snd (push_messages [m] s))"
    using Cons.prems(1) by (simp add: push_messages_def modify_locals_def)
  ultimately show ?case using Cons.IH emit_steer_ledger by metis
qed

lemma drain_ledger:
  "conserves_steering pre s \<Longrightarrow> drain s = (Inr ms, s') \<Longrightarrow> steering_ledger pre ms s'"
  by (auto simp: drain_def drain_steering_def steering_ledger_def accepted_steering_def
      heard_steering_def)

lemma seal_ledger: "conserves_steering pre s \<Longrightarrow> conserves_steering pre (snd (seal s))"
  by (auto simp: seal_def seal_steering_if_empty_def steering_ledger_def accepted_steering_def
      heard_steering_def)

lemma drain_frame:
  assumes "drain s = (r, s')"
  shows "same_counters s s'" "log_extends rid s s'" "st_locals s' = st_locals s" "st_world s' = st_world s"
  using assms by (auto simp: drain_def same_counters_def log_extends_def drain_steering_def)

lemma seal_frame:
  assumes "seal s = (r, s')"
  shows "same_counters s s'" "log_extends rid s s'" "st_locals s' = st_locals s" "st_world s' = st_world s"
  using assms by (auto simp: seal_def same_counters_def log_extends_def split: prod.splits)

end
