(* ===== verification/Inference.thy ===== *)
theory Inference
  imports RunMonad
begin

text \<open>
  One turn's call of the model, from \<^verbatim>\<open>packages/core/src/runner.ts\<close>: consuming the stream of one
  attempt, deciding whether to retry, and backing off.  The lemmas show that there are at most
  \<open>INFERENCE_MAX_ATTEMPTS\<close> attempts and that only the last one can have emitted content.
\<close>

section \<open>One inference attempt and its retries\<close>

definition INFERENCE_MAX_ATTEMPTS :: nat where
  "INFERENCE_MAX_ATTEMPTS = 3"

definition retryDelayMs :: "nat \<Rightarrow> int" where
  "retryDelayMs attempts = min (1000 * 2 ^ (attempts - 1)) 4000"

record attempt_state =
  as_finalMessage :: "assistant_message option"
  as_failure :: "agent_run_error option"
  as_contentEmitted :: bool

definition fresh_attempt :: attempt_state where
  "fresh_attempt = \<lparr>as_finalMessage = None, as_failure = None, as_contentEmitted = False\<rparr>"

text \<open>What one stream event does: the event it emits, if any, and the attempt's variables.\<close>

fun stream_event_body :: "nat \<Rightarrow> inference_event \<Rightarrow> run_event_body option" where
  "stream_event_body turn (EvStart m) = Some (ModelStarted turn m)"
| "stream_event_body turn (EvTextDelta i d) = Some (MessageTextDelta turn i d)"
| "stream_event_body turn (EvReasoningDelta i d) = Some (MessageReasoningDelta turn i d)"
| "stream_event_body turn (EvToolCallDelta i d) = Some (MessageToolCallDelta turn i d)"
| "stream_event_body turn _ = None"

fun note_stream_event :: "inference_event \<Rightarrow> attempt_state \<Rightarrow> attempt_state" where
  "note_stream_event (EvTextDelta _ _) a = a\<lparr>as_contentEmitted := True\<rparr>"
| "note_stream_event (EvReasoningDelta _ _) a = a\<lparr>as_contentEmitted := True\<rparr>"
| "note_stream_event (EvToolCallDelta _ _) a = a\<lparr>as_contentEmitted := True\<rparr>"
| "note_stream_event (EvDone _ m) a = a\<lparr>as_finalMessage := Some m\<rparr>"
| "note_stream_event (EvError e) a = a\<lparr>as_failure := Some
     (coreError (if ie_code e = IE_aborted then RE_aborted else RE_inference)
        (ie_message e) (ie_retryable e))\<rparr>"
| "note_stream_event _ a = a"

fun consume_stream :: "'w run_env \<Rightarrow> 'w run_request \<Rightarrow> (ctl_event list \<times> inference_event) list
    \<Rightarrow> thrown option \<Rightarrow> attempt_state \<Rightarrow> ('w, attempt_state) run" where
  "consume_stream env rq [] fin a = seq (check_thrown fin) (\<lambda>_. ret a)"
| "consume_stream env rq ((cs, e) # es) fin a =
     seq (host_calls cs) (\<lambda>_.
     seq (gets st_turns) (\<lambda>turn.
     seq (case stream_event_body turn e of None \<Rightarrow> ret () | Some b \<Rightarrow> emit env rq b) (\<lambda>_.
     consume_stream env rq es fin (note_stream_event e a))))"

definition streamAttempt :: "'w run_env \<Rightarrow> 'w run_request \<Rightarrow> inference_request
    \<Rightarrow> ('w, attempt_state) run" where
  "streamAttempt env rq ir =
     seq (awaiting (en_stream env ir)) (\<lambda>(es, fin). consume_stream env rq es fin fresh_attempt)"

text \<open>Whether the loop breaks after attempt number \<open>n\<close>.\<close>

definition attempt_settled :: "nat \<Rightarrow> attempt_state \<Rightarrow> bool" where
  "attempt_settled n a \<longleftrightarrow>
     (case as_failure a of None \<Rightarrow> True
      | Some e \<Rightarrow> \<not> er_retryable e \<or> as_contentEmitted a \<or> INFERENCE_MAX_ATTEMPTS \<le> n)"

text \<open>
  The retry loop from attempt \<open>n + 1\<close> on, returning the attempts it made; the runner uses the
  last.  The second disjunct repeats the bound that \<open>attempt_settled\<close> already has, for the
  termination proof.
\<close>

function infer_from :: "'w run_env \<Rightarrow> 'w run_request \<Rightarrow> inference_request \<Rightarrow> nat
    \<Rightarrow> ('w, attempt_state list) run" where
  "infer_from env rq ir n =
     seq (throwIfAborted rq) (\<lambda>_.
     seq (streamAttempt env rq ir) (\<lambda>a.
     if attempt_settled (Suc n) a \<or> INFERENCE_MAX_ATTEMPTS \<le> Suc n then ret [a]
     else seq (awaiting (en_retryWait env (retryDelayMs (Suc n)))) (\<lambda>_.
          seq (infer_from env rq ir (Suc n)) (\<lambda>as. ret (a # as)))))"
  by pat_completeness auto
termination
  by (relation "measure (\<lambda>(env, rq, ir, n). INFERENCE_MAX_ATTEMPTS - n)") auto

declare infer_from.simps [simp del]

definition infer :: "'w run_env \<Rightarrow> 'w run_request \<Rightarrow> inference_request
    \<Rightarrow> ('w, attempt_state list) run" where
  "infer env rq ir = infer_from env rq ir 0"

section \<open>The loop respects every relation of the elementary effects\<close>

lemma stream_event_body_work:
  "stream_event_body turn e = Some b \<Longrightarrow> is_work_event b"
  by (cases e) auto

context io_relation
begin

lemma stays_stream_event:
  "stays (case stream_event_body turn e of None \<Rightarrow> ret () | Some b \<Rightarrow> emit env rq b)"
  by (cases "stream_event_body turn e")
    (auto intro: stays_ret stays_emit simp: stream_event_body_work)

lemma stays_consume_stream: "stays (consume_stream env rq es fin a)"
  by (induction es arbitrary: a)
    (auto intro!: stays_rules stays_stream_event simp del: stream_event_body.simps split del: option.splits)

lemma stays_streamAttempt: "stays (streamAttempt env rq ir)"
  unfolding streamAttempt_def by (intro stays_seq stays_awaiting stays_prod stays_consume_stream)

lemma stays_infer_from: "stays (infer_from env rq ir n)"
proof (induction "INFERENCE_MAX_ATTEMPTS - n" arbitrary: n rule: less_induct)
  case less
  show ?case
    by (subst infer_from.simps)
      (auto intro!: stays_seq stays_throwIfAborted stays_streamAttempt stays_ret stays_awaiting less)
qed

lemma stays_infer: "stays (infer env rq ir)"
  by (simp add: infer_def stays_infer_from)

end

section \<open>Content comes from one attempt\<close>

fun is_content_body :: "run_event_body \<Rightarrow> bool" where
  "is_content_body (MessageTextDelta _ _ _) = True"
| "is_content_body (MessageReasoningDelta _ _ _) = True"
| "is_content_body (MessageToolCallDelta _ _ _) = True"
| "is_content_body _ = False"

definition content_log :: "'w run_state \<Rightarrow> run_event_body list" where
  "content_log s = filter is_content_body (map ev_body (st_events s))"

lemma emit_content_log:
  assumes "emit env rq b s = (r, s')"
  shows "content_log s' = content_log s @ (case r of Inl _ \<Rightarrow> [] | Inr _ \<Rightarrow> filter is_content_body [b])"
  using emit_effect(6) [OF assms] by (cases r) (simp_all add: content_log_def)

lemma ctl_content_log [simp]: "content_log (fold apply_ctl cs s) = content_log s"
  "content_log (s\<lparr>st_world := w\<rparr>) = content_log s"
  by (simp_all add: content_log_def)

lemma note_stream_event_content:
  "as_contentEmitted (note_stream_event e a) \<longleftrightarrow> as_contentEmitted a \<or> is_content_event e"
  by (cases e) auto

lemma stream_event_content:
  "is_content_event e \<longleftrightarrow> (\<exists>b. stream_event_body turn e = Some b \<and> is_content_body b)"
  by (cases e) auto

lemma awaiting_content_log: "awaiting f s = (r, s') \<Longrightarrow> content_log s' = content_log s"
  by (auto simp: awaiting_def split: prod.splits)

lemma consume_stream_silent:
  "consume_stream env rq es fin a s = (Inr a', s') \<Longrightarrow> \<not> as_contentEmitted a' \<Longrightarrow>
     content_log s' = content_log s \<and> \<not> as_contentEmitted a"
proof (induction es arbitrary: a s)
  case Nil
  then show ?case
    by (auto simp: seq_Inr_iff check_thrown_def ret_def throw_def split: option.splits)
next
  case (Cons x es)
  obtain cs e where x: "x = (cs, e)" by (cases x)
  let ?t = "fold apply_ctl cs s"
  from Cons.prems(1) obtain y u where
      u: "(case stream_event_body (st_turns ?t) e of None \<Rightarrow> ret () | Some b \<Rightarrow> emit env rq b) ?t = (Inr y, u)"
      and rest: "consume_stream env rq es fin (note_stream_event e a) u = (Inr a', s')"
    by (auto simp: x seq_Inr_iff host_calls_def gets_def)
  note IH = Cons.IH [OF rest Cons.prems(2)]
  have ne: "\<not> is_content_event e" and na: "\<not> as_contentEmitted a"
    using IH by (auto simp: note_stream_event_content)
  have "content_log u = content_log ?t"
    using u ne
    by (cases "stream_event_body (st_turns ?t) e")
      (auto simp: ret_def stream_event_content [of e "st_turns ?t"] dest: emit_content_log)
  with IH na show ?case by simp
qed

lemma streamAttempt_silent:
  assumes "streamAttempt env rq ir s = (Inr a, s')" and "\<not> as_contentEmitted a"
  shows "content_log s' = content_log s"
proof -
  from assms(1) obtain es fin u where
      "consume_stream env rq es fin fresh_attempt u = (Inr a, s')" "content_log u = content_log s"
    by (auto simp: streamAttempt_def seq_Inr_iff awaiting_def split: prod.splits)
  with consume_stream_silent assms(2) show ?thesis by metis
qed

definition quiet_retry :: "attempt_state \<Rightarrow> bool" where
  "quiet_retry a \<longleftrightarrow> (\<exists>e. as_failure a = Some e \<and> er_retryable e) \<and> \<not> as_contentEmitted a"

lemma unsettled_quiet: "\<not> attempt_settled n a \<Longrightarrow> quiet_retry a"
  by (auto simp: attempt_settled_def quiet_retry_def split: option.splits)

lemma throwIfAborted_Inr: "throwIfAborted rq s = (Inr x, s') \<Longrightarrow> s' = s \<and> \<not> signal_aborted rq s"
  by (auto simp: throwIfAborted_def run_defs split: if_splits)

lemma infer_from_attempts:
  assumes "infer_from env rq ir n s = (Inr as, s')" and "n < INFERENCE_MAX_ATTEMPTS"
  shows "as \<noteq> [] \<and> length as \<le> INFERENCE_MAX_ATTEMPTS - n \<and> list_all quiet_retry (butlast as)
    \<and> attempt_settled (n + length as) (last as)
    \<and> (\<exists>t. content_log t = content_log s \<and> streamAttempt env rq ir t = (Inr (last as), s'))"
  using assms
proof (induction "INFERENCE_MAX_ATTEMPTS - n" arbitrary: n s as rule: less_induct)
  case less
  from less.prems(1) obtain a t where a: "streamAttempt env rq ir s = (Inr a, t)"
    and rest: "(if attempt_settled (Suc n) a \<or> INFERENCE_MAX_ATTEMPTS \<le> Suc n then ret [a]
     else seq (awaiting (en_retryWait env (retryDelayMs (Suc n)))) (\<lambda>_.
          seq (infer_from env rq ir (Suc n)) (\<lambda>as. ret (a # as)))) t = (Inr as, s')"
    by (subst (asm) infer_from.simps) (auto simp: seq_Inr_iff dest!: throwIfAborted_Inr)
  show ?case
  proof (cases "attempt_settled (Suc n) a \<or> INFERENCE_MAX_ATTEMPTS \<le> Suc n")
    case True
    then have "attempt_settled (Suc n) a" by (auto simp: attempt_settled_def split: option.splits)
    with True rest a less.prems(2) show ?thesis by (auto simp: ret_def)
  next
    case False
    from rest False obtain u bs where u: "content_log u = content_log t"
      and bs: "infer_from env rq ir (Suc n) u = (Inr bs, s')" and as: "as = a # bs"
      by (auto simp: seq_Inr_iff ret_def dest: awaiting_content_log)
    from False have q: "quiet_retry a" by (auto dest: unsettled_quiet)
    have "content_log t = content_log s"
      using streamAttempt_silent [OF a] q by (simp add: quiet_retry_def)
    moreover have "Suc n < INFERENCE_MAX_ATTEMPTS" using False by simp
    ultimately show ?thesis
      using less.hyps [OF _ bs] less.prems(2) u as q by fastforce
  qed
qed

end
