(* ===== verification/ToolExec.thy ===== *)
theory ToolExec
  imports RunMonad "HOL-Library.Multiset"
begin

text \<open>
  \<open>#executeTools\<close> of \<^verbatim>\<open>packages/core/src/runner.ts\<close>: one tool call as a machine of phases, the
  sequential and the parallel execution of a turn's calls.

  In parallel mode a schedule of the environment picks which call advances next; when it ends, the
  remaining calls finish in order.  Every interleaving of the phases is a schedule.  If a call
  throws, \<open>Promise.all\<close> rejects; what the calls still running do after that is not modelled.
  A tool's progress reports are emitted between its execution and its completion event, and a
  report that fails to be emitted makes the call fail.
\<close>

section \<open>Executing tools\<close>

definition toInferenceTool :: "'w agent_tool \<Rightarrow> inference_tool" where
  "toInferenceTool t = \<lparr>it_name = at_name t, it_description = at_description t,
     it_parameters = at_parameters t, it_strict = at_strict t\<rparr>"

definition toToolMessage :: "'w run_env \<Rightarrow> tool_call \<Rightarrow> agent_tool_result
    \<Rightarrow> ('w, tool_result_message) run" where
  "toToolMessage env call r = seq (reading (en_now env)) (\<lambda>t.
     ret \<lparr>tr_toolCallId = tc_id call, tr_toolName = tc_name call,
          tr_content = (case rs_content r of TCText s \<Rightarrow> [TextBlock s] | TCBlocks bs \<Rightarrow> bs),
          tr_isError = (case rs_isError r of None \<Rightarrow> False | Some b \<Rightarrow> b),
          tr_timestamp = t\<rparr>)"

definition error_result :: "string \<Rightarrow> agent_tool_result" where
  "error_result m = \<lparr>rs_content = TCText m, rs_isError = Some True, rs_metadata = None\<rparr>"

text \<open>\<open>new Map(tools.map(...))\<close>: a later tool of the same name replaces an earlier one.\<close>

definition tool_named :: "'w run_request \<Rightarrow> string \<Rightarrow> 'w agent_tool option" where
  "tool_named rq name = map_of (rev (map (\<lambda>t. (at_name t, t)) (rq_tools rq))) name"

text \<open>
  The inner function \<open>execute\<close> as a machine that can be suspended after every emission, so that
  parallel calls can interleave.  The \<open>int\<close> is the time the call started.
\<close>

datatype 'w tool_phase =
    PhStart
  | PhLookup int
  | PhHook int "'w agent_tool"
  | PhRun int "'w agent_tool"
  | PhProgress int "(string \<times> json option) list" "(thrown, agent_tool_result) result"
  | PhCompleted int agent_tool_result
  | PhAfter agent_tool_result
  | PhCatch int thrown
  | PhDone tool_result_message
  | PhThrew thrown

definition emit_failed :: "'w run_env \<Rightarrow> 'w run_request \<Rightarrow> tool_call \<Rightarrow> int \<Rightarrow> agent_run_error
    \<Rightarrow> ('w, tool_result_message) run" where
  "emit_failed env rq call started e =
     seq (reading (en_clock env)) (\<lambda>t.
     seq (gets st_turns) (\<lambda>turn.
     seq (emit env rq (ToolFailed turn call e (t - started))) (\<lambda>_.
     toToolMessage env call (error_result (er_message e)))))"

definition blocked_message :: "tool_call \<Rightarrow> hook_decision \<Rightarrow> string" where
  "blocked_message call d =
     str_or (case hd_message d of None \<Rightarrow> [] | Some m \<Rightarrow> js_trim m)
       (''A configured hook blocked the '' @ tc_name call @ '' call.'')"

text \<open>Leaves a phase with the exception of the code it ran: \<open>PhThrew\<close> outside the \<open>try\<close>.\<close>

definition or_threw :: "('w, 'w tool_phase) run \<Rightarrow> (thrown \<Rightarrow> 'w tool_phase)
    \<Rightarrow> ('w, 'w tool_phase) run" where
  "or_threw m handler = seq (attempt m) (\<lambda>r. case r of Inl e \<Rightarrow> ret (handler e) | Inr p \<Rightarrow> ret p)"

fun tool_step :: "'w run_env \<Rightarrow> 'w run_request \<Rightarrow> tool_call \<Rightarrow> 'w tool_phase
    \<Rightarrow> ('w, 'w tool_phase) run" where
  "tool_step env rq call PhStart =
     or_threw (seq (reading (en_clock env)) (\<lambda>t0.
       seq (gets st_turns) (\<lambda>turn.
       seq (emit env rq (ToolStarted turn call)) (\<lambda>_. ret (PhLookup t0))))) PhThrew"
| "tool_step env rq call (PhLookup t0) =
     (case tool_named rq (tc_name call) of
        None \<Rightarrow> or_threw (seq (emit_failed env rq call t0
                  (coreError RE_invalid_tool_call (''Unknown tool: '' @ tc_name call) False))
                  (\<lambda>m. ret (PhDone m))) PhThrew
      | Some t \<Rightarrow> or_threw (seq (throwIfAborted rq) (\<lambda>_. ret (PhHook t0 t))) (PhCatch t0))"
| "tool_step env rq call (PhHook t0 t) =
     or_threw (case en_beforeTool env of
        None \<Rightarrow> ret (PhRun t0 t)
      | Some hook \<Rightarrow>
          seq (awaiting (hook call)) (\<lambda>r.
          seq (lift_result r) (\<lambda>d.
          if hd_allow d then ret (PhRun t0 t)
          else seq (emit_failed env rq call t0
                 (coreError RE_tool_blocked_by_hook (blocked_message call d) False))
                 (\<lambda>m. ret (PhDone m))))) (PhCatch t0)"
| "tool_step env rq call (PhRun t0 t) =
     seq (gets st_turns) (\<lambda>turn.
     seq (awaiting (at_execute t (tc_arguments call)
       \<lparr>tx_runId = rq_runId rq, tx_budgetScope = rq_budgetScope rq, tx_turn = turn,
        tx_callId = tc_id call, tx_subagent = rq_subagentRun rq\<rparr>)) (\<lambda>(ps, r).
     ret (PhProgress t0 ps r)))"
| "tool_step env rq call (PhProgress t0 [] r) =
     (case r of Inl e \<Rightarrow> ret (PhCatch t0 e) | Inr x \<Rightarrow> ret (PhCompleted t0 x))"
| "tool_step env rq call (PhProgress t0 ((m, d) # ps) r) =
     or_threw (seq (gets st_turns) (\<lambda>turn.
       seq (emit env rq (ToolProgress turn (tc_id call) m d)) (\<lambda>_. ret (PhProgress t0 ps r))))
       (PhCatch t0)"
| "tool_step env rq call (PhCompleted t0 x) =
     or_threw (seq (reading (en_clock env)) (\<lambda>t.
       seq (gets st_turns) (\<lambda>turn.
       seq (emit env rq (ToolCompleted turn call x (t - t0))) (\<lambda>_. ret (PhAfter x))))) (PhCatch t0)"
| "tool_step env rq call (PhAfter x) =
     seq (case en_afterTool env of None \<Rightarrow> ret () | Some hook \<Rightarrow> awaiting (hook call x)) (\<lambda>_.
     seq (toToolMessage env call x) (\<lambda>m. ret (PhDone m)))"
| "tool_step env rq call (PhCatch t0 e) =
     seq (gets (signal_aborted rq)) (\<lambda>a.
     if a then ret (PhThrew e)
     else or_threw (seq (emit_failed env rq call t0 (normalizeError e a))
       (\<lambda>m. ret (PhDone m))) PhThrew)"
| "tool_step env rq call (PhDone m) = ret (PhDone m)"
| "tool_step env rq call (PhThrew e) = ret (PhThrew e)"

fun phase_over :: "'w tool_phase \<Rightarrow> bool" where
  "phase_over (PhDone _) = True"
| "phase_over (PhThrew _) = True"
| "phase_over _ = False"

text \<open>Phases only move forward: the rank of a phase and the progress left bound the steps to go.\<close>

fun phase_rank :: "'w tool_phase \<Rightarrow> nat \<times> nat" where
  "phase_rank PhStart = (7, 0)"
| "phase_rank (PhLookup _) = (6, 0)"
| "phase_rank (PhHook _ _) = (5, 0)"
| "phase_rank (PhRun _ _) = (4, 0)"
| "phase_rank (PhProgress _ ps _) = (3, length ps)"
| "phase_rank (PhCompleted _ _) = (2, 0)"
| "phase_rank (PhAfter _) = (1, 0)"
| "phase_rank (PhCatch _ _) = (1, 0)"
| "phase_rank (PhDone _) = (0, 0)"
| "phase_rank (PhThrew _) = (0, 0)"

section \<open>Phases move forward\<close>

lemma no_throw_or_threw: "no_throw (or_threw m h)"
  unfolding or_threw_def
  by (intro no_throw_seq no_throw_attempt) (auto simp: no_throw_ret split: sum.splits)

lemma no_throw_toToolMessage: "no_throw (toToolMessage env call r)"
  unfolding toToolMessage_def by (intro no_throw_rules)

text \<open>A step never throws: what the code throws becomes a phase.\<close>

lemma no_throw_tool_step: "no_throw (tool_step env rq call ph)"
  by (cases "(env, rq, call, ph)" rule: tool_step.cases)
    (auto intro!: no_throw_rules no_throw_or_threw no_throw_toToolMessage
      split: option.splits sum.splits prod.splits)

lemma or_threw_Inr_iff:
  "or_threw m h s = (Inr p, s') \<longleftrightarrow> (\<exists>e. m s = (Inl e, s') \<and> p = h e) \<or> m s = (Inr p, s')"
  by (auto simp: or_threw_def attempt_def seq_def ret_def split: prod.splits sum.splits)

abbreviation phase_less :: "((nat \<times> nat) \<times> (nat \<times> nat)) set" where
  "phase_less \<equiv> less_than <*lex*> less_than"

lemma tool_step_rank:
  "tool_step env rq call ph s = (Inr p, s') \<Longrightarrow> \<not> phase_over ph \<Longrightarrow>
     (phase_rank p, phase_rank ph) \<in> phase_less"
  by (cases "(env, rq, call, ph)" rule: tool_step.cases)
    (auto simp: or_threw_Inr_iff seq_Inr_iff ret_def gets_def split: option.splits sum.splits if_splits)

section \<open>Running calls to their end\<close>

function finish_call :: "'w run_env \<Rightarrow> 'w run_request \<Rightarrow> tool_call \<Rightarrow> 'w tool_phase
    \<Rightarrow> 'w run_state \<Rightarrow> 'w tool_phase \<times> 'w run_state" where
  "finish_call env rq call ph s =
     (if phase_over ph then (ph, s)
      else case tool_step env rq call ph s of
             (Inl e, s') \<Rightarrow> (PhThrew e, s')
           | (Inr p, s') \<Rightarrow> finish_call env rq call p s')"
  by pat_completeness auto
termination
proof (relation "inv_image phase_less (\<lambda>(env, rq, call, ph, s). phase_rank ph)", goal_cases)
  case 1
  show ?case by (intro wf_inv_image wf_lex_prod wf_less_than)
next
  case (2 env rq call ph s x y p)
  then have "tool_step env rq call ph s = (Inr p, y)" by simp
  then have "(phase_rank p, phase_rank ph) \<in> phase_less" using 2 by (intro tool_step_rank)
  then show ?case by (simp only: in_inv_image prod.case)
qed

declare finish_call.simps [simp del]

definition settle_phase :: "'w tool_phase \<times> 'w run_state
    \<Rightarrow> (thrown, tool_result_message) result \<times> 'w run_state" where
  "settle_phase x = (case x of (PhDone m, s) \<Rightarrow> (Inr m, s) | (PhThrew e, s) \<Rightarrow> (Inl e, s)
     | (_, s) \<Rightarrow> (Inl (ThrownOther ''unreachable''), s))"

definition execute_call :: "'w run_env \<Rightarrow> 'w run_request \<Rightarrow> tool_call \<Rightarrow> 'w tool_phase
    \<Rightarrow> ('w, tool_result_message) run" where
  "execute_call env rq call ph = (\<lambda>s. settle_phase (finish_call env rq call ph s))"

fun finish_all :: "'w run_env \<Rightarrow> 'w run_request \<Rightarrow> (tool_call \<times> 'w tool_phase) list
    \<Rightarrow> ('w, tool_result_message list) run" where
  "finish_all env rq [] = ret []"
| "finish_all env rq ((call, ph) # cps) =
     seq (execute_call env rq call ph) (\<lambda>m. seq (finish_all env rq cps) (\<lambda>ms. ret (m # ms)))"

text \<open>One scheduled step of the call at index \<open>i\<close>; a call that is over, or no call, is skipped.\<close>

fun run_schedule :: "'w run_env \<Rightarrow> 'w run_request \<Rightarrow> nat list \<Rightarrow> (tool_call \<times> 'w tool_phase) list
    \<Rightarrow> ('w, tool_result_message list) run" where
  "run_schedule env rq [] cps = finish_all env rq cps"
| "run_schedule env rq (i # is) cps =
     (if i < length cps \<and> \<not> phase_over (snd (cps ! i))
      then seq (tool_step env rq (fst (cps ! i)) (snd (cps ! i))) (\<lambda>p.
             case p of PhThrew e \<Rightarrow> throw e
             | _ \<Rightarrow> run_schedule env rq is (cps[i := (fst (cps ! i), p)]))
      else run_schedule env rq is cps)"

definition all_parallel :: "'w run_request \<Rightarrow> tool_call list \<Rightarrow> bool" where
  "all_parallel rq calls \<longleftrightarrow>
     list_all (\<lambda>c. case tool_named rq (tc_name c) of None \<Rightarrow> True
        | Some t \<Rightarrow> at_executionMode t \<noteq> Some Sequential) calls"

definition executeTools :: "'w run_env \<Rightarrow> 'w run_request \<Rightarrow> tool_call list
    \<Rightarrow> ('w, tool_result_message list) run" where
  "executeTools env rq calls =
     (let mode = (case rq_toolExecution rq of None \<Rightarrow> Sequential | Some m \<Rightarrow> m);
          cps = map (\<lambda>c. (c, PhStart)) calls in
      if mode = Parallel \<and> all_parallel rq calls
      then seq (gets (\<lambda>s. en_toolSchedule env (st_world s))) (\<lambda>is. run_schedule env rq is cps)
      else finish_all env rq cps)"

section \<open>Tools respect every relation of the elementary effects\<close>

context io_relation
begin

lemma stays_or_threw: "stays m \<Longrightarrow> stays (or_threw m h)"
  unfolding or_threw_def by (intro stays_seq stays_attempt stays_sum stays_ret)

lemma stays_toToolMessage: "stays (toToolMessage env call r)"
  unfolding toToolMessage_def by (intro stays_rules)

lemma stays_emit_failed: "stays (emit_failed env rq call t0 e)"
  unfolding emit_failed_def by (intro stays_seq stays_reading stays_gets stays_emit stays_toToolMessage) simp

lemma stays_tool_step: "stays (tool_step env rq call ph)"
  by (cases "(env, rq, call, ph)" rule: tool_step.cases)
    (auto intro!: stays_or_threw stays_seq stays_reading stays_gets stays_emit stays_ret
      stays_awaiting stays_lift stays_throwIfAborted stays_emit_failed stays_toToolMessage
      split: option.splits sum.splits prod.splits)

lemma R_finish_call: "finish_call env rq call ph s = (p, s') \<Longrightarrow> R s s'"
proof (induction env \<equiv> env rq \<equiv> rq call ph s rule: finish_call.induct)
  case (1 call ph s)
  obtain r t where t: "tool_step env rq call ph s = (r, t)" by (cases "tool_step env rq call ph s")
  have st: "R s t" using stays_tool_step t by (rule staysD)
  show ?case
  proof (cases "phase_over ph")
    case True
    with 1 show ?thesis by (simp add: finish_call.simps R_refl)
  next
    case False
    with 1 t st show ?thesis
      by (cases r) (auto simp: finish_call.simps [of env rq call ph s] intro: R_trans)
  qed
qed

lemma stays_execute_call: "stays (execute_call env rq call ph)"
  unfolding stays_def execute_call_def
proof
  fix s
  obtain p t where "finish_call env rq call ph s = (p, t)" by (cases "finish_call env rq call ph s")
  then show "R s (snd (settle_phase (finish_call env rq call ph s)))"
    by (cases p) (auto simp: settle_phase_def dest: R_finish_call)
qed

lemma stays_finish_all: "stays (finish_all env rq cps)"
  by (induction cps) (auto intro!: stays_ret stays_seq stays_execute_call)

lemma stays_run_schedule: "stays (run_schedule env rq is cps)"
proof (induction "is" arbitrary: cps)
  case Nil
  show ?case by (simp add: stays_finish_all)
next
  case (Cons i "is")
  show ?case
    by (auto intro!: stays_seq stays_tool_step stays_throw Cons split: tool_phase.splits)
qed

lemma stays_executeTools: "stays (executeTools env rq calls)"
  unfolding executeTools_def Let_def
  by (intro stays_if stays_seq stays_gets stays_run_schedule stays_finish_all)

end

section \<open>Every call is answered, in order\<close>

definition answers :: "tool_call \<Rightarrow> tool_result_message \<Rightarrow> bool" where
  "answers call m \<longleftrightarrow> tr_toolCallId m = tc_id call \<and> tr_toolName m = tc_name call"

fun phase_answers :: "tool_call \<Rightarrow> 'w tool_phase \<Rightarrow> bool" where
  "phase_answers call (PhDone m) = answers call m"
| "phase_answers call _ = True"

lemma toToolMessage_answers:
  "toToolMessage env call r s = (Inr m, s') \<Longrightarrow>
     answers call m \<and> tr_isError m = (rs_isError r = Some True)"
  by (auto simp: toToolMessage_def seq_Inr_iff ret_def answers_def split: option.splits)

lemma emit_failed_answers:
  "emit_failed env rq call t0 e s = (Inr m, s') \<Longrightarrow> answers call m \<and> tr_isError m"
  by (auto simp: emit_failed_def seq_Inr_iff error_result_def dest!: toToolMessage_answers)

lemma tool_step_answers:
  "tool_step env rq call ph s = (Inr p, s') \<Longrightarrow> phase_answers call ph \<Longrightarrow> phase_answers call p"
  by (cases "(env, rq, call, ph)" rule: tool_step.cases)
    (auto simp: or_threw_Inr_iff seq_Inr_iff ret_def gets_def throwIfAborted_def
      split: option.splits sum.splits if_splits
      dest!: emit_failed_answers toToolMessage_answers)

lemma finish_call_over:
  "phase_over (fst (finish_call env rq call ph s))"
proof (induction env rq call ph s rule: finish_call.induct)
  case (1 env rq call ph s)
  then show ?case
    by (subst finish_call.simps) (auto split: prod.splits sum.splits)
qed

lemma finish_call_answers:
  "phase_answers call ph \<Longrightarrow> phase_answers call (fst (finish_call env rq call ph s))"
proof (induction env rq call ph s rule: finish_call.induct)
  case (1 env rq call ph s)
  obtain p t where t: "tool_step env rq call ph s = (Inr p, t)"
    using no_throw_tool_step no_throwD by metis
  show ?case
  proof (cases "phase_over ph")
    case True
    with 1 show ?thesis by (simp add: finish_call.simps)
  next
    case False
    with 1 t tool_step_answers [OF t] show ?thesis
      by (simp add: finish_call.simps [of env rq call ph s])
  qed
qed

lemma execute_call_answers:
  assumes "execute_call env rq call ph s = (Inr m, s')" and "phase_answers call ph"
  shows "answers call m"
proof -
  obtain p t where f: "finish_call env rq call ph s = (p, t)"
    by (cases "finish_call env rq call ph s")
  then have "p = PhDone m"
    using assms(1) finish_call_over [of env rq call ph s]
    by (cases p) (auto simp: execute_call_def settle_phase_def)
  then show ?thesis using finish_call_answers [OF assms(2), of env rq s] f by simp
qed

lemma finish_all_answers:
  "finish_all env rq cps s = (Inr ms, s') \<Longrightarrow> list_all (\<lambda>(c, ph). phase_answers c ph) cps \<Longrightarrow>
     list_all2 answers (map fst cps) ms"
  by (induction cps arbitrary: s ms)
    (auto simp: seq_Inr_iff ret_def dest: execute_call_answers)

lemma run_schedule_answers:
  "run_schedule env rq is cps s = (Inr ms, s') \<Longrightarrow> list_all (\<lambda>(c, ph). phase_answers c ph) cps \<Longrightarrow>
     list_all2 answers (map fst cps) ms"
proof (induction "is" arbitrary: cps s)
  case Nil
  then show ?case by (auto dest: finish_all_answers)
next
  case (Cons i "is")
  show ?case
  proof (cases "i < length cps \<and> \<not> phase_over (snd (cps ! i))")
    case False
    with Cons show ?thesis by (auto split: if_splits)
  next
    case True
    let ?c = "fst (cps ! i)"
    from Cons.prems(1) True obtain p t where
        t: "tool_step env rq ?c (snd (cps ! i)) s = (Inr p, t)"
        and rest: "(case p of PhThrew e \<Rightarrow> throw e
             | _ \<Rightarrow> run_schedule env rq is (cps[i := (?c, p)])) t = (Inr ms, s')"
      by (auto simp: seq_Inr_iff)
    have "phase_answers ?c (snd (cps ! i))"
      using Cons.prems(2) True by (auto simp: list_all_length case_prod_unfold)
    then have p: "phase_answers ?c p" using tool_step_answers [OF t] by simp
    have "list_all (\<lambda>(c, ph). phase_answers c ph) (cps[i := (?c, p)])"
      using Cons.prems(2) p True by (auto simp: list_all_length nth_list_update case_prod_unfold)
    moreover have "run_schedule env rq is (cps[i := (?c, p)]) t = (Inr ms, s')"
      using rest by (cases p) (auto simp: throw_def)
    ultimately have "list_all2 answers (map fst (cps[i := (?c, p)])) ms" by (rule Cons.IH [rotated])
    moreover have "(map fst cps)[i := ?c] = map fst cps"
      using True by (metis list_update_id nth_map)
    ultimately show ?thesis by (simp add: map_update)
  qed
qed

lemma executeTools_answers:
  assumes "executeTools env rq calls s = (Inr ms, s')"
  shows "list_all2 answers calls ms"
proof -
  let ?cps = "map (\<lambda>c. (c, PhStart :: 'a tool_phase)) calls"
  have ok: "list_all (\<lambda>(c, ph). phase_answers c ph) ?cps" by (simp add: list_all_iff)
  have fst: "map fst ?cps = calls" by (simp add: comp_def)
  from assms consider "finish_all env rq ?cps s = (Inr ms, s')"
    | "is" where "run_schedule env rq is ?cps s = (Inr ms, s')"
    by (auto simp: executeTools_def Let_def seq_Inr_iff gets_def split: if_splits)
  then show ?thesis
    by cases (use finish_all_answers run_schedule_answers ok fst in metis)+
qed

section \<open>Every call is announced once and concluded once\<close>

text \<open>The calls the log says were started, and those it says were completed or failed.\<close>

definition started_calls :: "'w run_state \<Rightarrow> tool_call multiset" where
  "started_calls s = mset (List.map_filter
     (\<lambda>e. case ev_body e of ToolStarted _ c \<Rightarrow> Some c | _ \<Rightarrow> None) (st_events s))"

definition finished_calls :: "'w run_state \<Rightarrow> tool_call multiset" where
  "finished_calls s = mset (List.map_filter
     (\<lambda>e. case ev_body e of ToolCompleted _ c _ _ \<Rightarrow> Some c | ToolFailed _ c _ _ \<Rightarrow> Some c | _ \<Rightarrow> None)
     (st_events s))"

definition call_log :: "'w run_state \<Rightarrow> tool_call multiset \<times> tool_call multiset" where
  "call_log s = (started_calls s, finished_calls s)"

fun body_log :: "run_event_body \<Rightarrow> tool_call multiset \<times> tool_call multiset" where
  "body_log (ToolStarted _ c) = ({#c#}, {#})"
| "body_log (ToolCompleted _ c _ _) = ({#}, {#c#})"
| "body_log (ToolFailed _ c _ _) = ({#}, {#c#})"
| "body_log _ = ({#}, {#})"

abbreviation add_log :: "tool_call multiset \<times> tool_call multiset \<Rightarrow>
    tool_call multiset \<times> tool_call multiset \<Rightarrow> tool_call multiset \<times> tool_call multiset" where
  "add_log a b \<equiv> (fst a + fst b, snd a + snd b)"

lemma call_log_events: "st_events s' = st_events s \<Longrightarrow> call_log s' = call_log s"
  by (simp add: call_log_def started_calls_def finished_calls_def)

lemma emit_call_log:
  assumes "emit env rq b s = (r, s')"
  shows "call_log s' = (case r of Inl _ \<Rightarrow> call_log s | Inr _ \<Rightarrow> add_log (call_log s) (body_log b))"
  using emit_effect(6) [OF assms]
  by (cases r; cases b)
    (simp_all add: call_log_events call_log_def started_calls_def finished_calls_def map_filter_app
      List.map_filter_simps)

lemma awaiting_call_log: "awaiting f s = (r, s') \<Longrightarrow> call_log s' = call_log s"
  by (auto simp: awaiting_def intro!: call_log_events split: prod.splits)

lemma reading_call_log: "reading f s = (r, s') \<Longrightarrow> call_log s' = call_log s"
  by (auto simp: reading_def intro!: call_log_events split: prod.splits)

lemma toToolMessage_call_log: "toToolMessage env call x s = (r, s') \<Longrightarrow> call_log s' = call_log s"
  by (cases r)
    (auto simp: toToolMessage_def seq_Inr_iff seq_Inl_iff ret_def dest: reading_call_log)

lemma emit_failed_call_log:
  assumes "emit_failed env rq call t0 e s = (r, s')"
  shows "call_log s' = (case r of Inl _ \<Rightarrow> call_log s | Inr _ \<Rightarrow> add_log (call_log s) ({#}, {#call#}))"
proof -
  obtain t s1 where t: "reading (en_clock env) s = (Inr t, s1)"
    using no_throw_reading no_throwD by metis
  obtain r2 s2 where e: "emit env rq (ToolFailed (st_turns s1) call e (t - t0)) s1 = (r2, s2)"
    by fastforce
  obtain m s3 where m: "toToolMessage env call (error_result (er_message e)) s2 = (Inr m, s3)"
    using no_throw_toToolMessage no_throwD by metis
  from assms t e m show ?thesis
    using emit_call_log [OF e] reading_call_log [OF t] toToolMessage_call_log [OF m]
    by (cases r2) (auto simp: emit_failed_def seq_def gets_def)
qed

lemma throwIfAborted_state: "throwIfAborted rq s = (r, s') \<Longrightarrow> s' = s"
  by (auto simp: throwIfAborted_def run_defs split: if_splits)

fun phase_started :: "'w tool_phase \<Rightarrow> bool" where
  "phase_started PhStart = False"
| "phase_started _ = True"

fun phase_finished :: "'w tool_phase \<Rightarrow> bool" where
  "phase_finished (PhAfter _) = True"
| "phase_finished (PhDone _) = True"
| "phase_finished _ = False"

text \<open>What a call in a given phase has contributed to the log.\<close>

definition phase_log :: "tool_call \<Rightarrow> 'w tool_phase \<Rightarrow> tool_call multiset \<times> tool_call multiset" where
  "phase_log call ph = (if phase_started ph then {#call#} else {#},
     if phase_finished ph then {#call#} else {#})"

fun phase_threw :: "'w tool_phase \<Rightarrow> bool" where
  "phase_threw (PhThrew _) = True"
| "phase_threw _ = False"

text \<open>
  One step keeps the difference between the log and what the call's phase says, unless it throws.
\<close>

lemma tool_step_call_log:
  assumes "tool_step env rq call ph s = (Inr p, s')" and "\<not> phase_threw p"
  shows "add_log (call_log s') (phase_log call ph) = add_log (call_log s) (phase_log call p)"
  using assms
  by (cases "(env, rq, call, ph)" rule: tool_step.cases)
    (auto simp: or_threw_Inr_iff seq_Inr_iff seq_Inl_iff ret_def gets_def lift_result_def phase_log_def
      split: option.splits sum.splits if_splits
      dest!: emit_failed_call_log toToolMessage_call_log emit_call_log awaiting_call_log
        reading_call_log throwIfAborted_state)

lemma telescope:
  fixes a b c p q r :: "'a multiset"
  assumes "b + p = a + q" and "c + q = b + r"
  shows "c + p = a + r"
proof -
  have "(c + p) + q = (c + q) + p" by (simp add: ac_simps)
  also have "\<dots> = (b + p) + r" by (simp add: assms(2) ac_simps)
  also have "\<dots> = (a + r) + q" by (simp add: assms(1) ac_simps)
  finally show ?thesis by simp
qed

lemma add_log_telescope:
  assumes "add_log b p = add_log a q" and "add_log c q = add_log b r"
  shows "add_log c p = add_log a r"
  using assms by (auto intro: telescope)

lemma finish_call_log:
  "finish_call env rq call ph s = (p, s') \<Longrightarrow> \<not> phase_threw p \<Longrightarrow>
     add_log (call_log s') (phase_log call ph) = add_log (call_log s) (phase_log call p)"
proof (induction env rq call ph s rule: finish_call.induct)
  case (1 env rq call ph s)
  obtain q t where t: "tool_step env rq call ph s = (Inr q, t)"
    using no_throw_tool_step no_throwD by metis
  show ?case
  proof (cases "phase_over ph")
    case True
    with 1 show ?thesis by (simp add: finish_call.simps)
  next
    case False
    with 1(2) t have rest: "finish_call env rq call q t = (p, s')"
      by (simp add: finish_call.simps [of env rq call ph s])
    then have "\<not> phase_threw q"
      using 1(3) by (cases q) (auto simp: finish_call.simps)
    from tool_step_call_log [OF t this] 1(1) [OF False t [symmetric] refl rest 1(3)]
    show ?thesis by (rule add_log_telescope)
  qed
qed

lemma execute_call_log:
  assumes "execute_call env rq call ph s = (Inr m, s')"
  shows "add_log (call_log s') (phase_log call ph) = add_log (call_log s) ({#call#}, {#call#})"
proof -
  obtain p t where f: "finish_call env rq call ph s = (p, t)"
    by (cases "finish_call env rq call ph s")
  then have "p = PhDone m" and "t = s'"
    using assms finish_call_over [of env rq call ph s]
    by (cases p; auto simp: execute_call_def settle_phase_def)+
  then show ?thesis using finish_call_log [OF f] by (simp add: phase_log_def)
qed

fun phases_log :: "(tool_call \<times> 'w tool_phase) list \<Rightarrow> tool_call multiset \<times> tool_call multiset" where
  "phases_log [] = ({#}, {#})"
| "phases_log ((c, ph) # cps) = add_log (phase_log c ph) (phases_log cps)"

lemma phases_log_update:
  "i < length cps \<Longrightarrow> fst (cps ! i) = c \<Longrightarrow>
     add_log (phases_log (cps[i := (c, q)])) (phase_log c (snd (cps ! i))) =
     add_log (phases_log cps) (phase_log c q)"
  by (induction cps arbitrary: i) (auto simp: ac_simps split: nat.splits)

lemma finish_all_log:
  "finish_all env rq cps s = (Inr ms, s') \<Longrightarrow>
     add_log (call_log s') (phases_log cps) = add_log (call_log s) (mset (map fst cps), mset (map fst cps))"
proof (induction cps arbitrary: s ms)
  case Nil
  then show ?case by (simp add: ret_def)
next
  case (Cons x cps)
  obtain c ph where x: "x = (c, ph)" by (cases x)
  from Cons.prems obtain m t ms' where m: "execute_call env rq c ph s = (Inr m, t)"
    and ms': "finish_all env rq cps t = (Inr ms', s')"
    by (auto simp: x seq_Inr_iff ret_def)
  from execute_call_log [OF m] Cons.IH [OF ms'] show ?case
    by (auto simp: x) (metis (no_types, lifting) add.assoc add.commute add_mset_add_single)+
qed

lemma telescope_step:
  fixes s s' t L L' M p q :: "'a multiset"
  assumes "t + p = s + q" and "s' + L' = t + M" and "L' + p = L + q"
  shows "s' + L = s + M"
proof -
  have "(s' + L) + q = s' + (L' + p)" by (simp only: assms(3) add.assoc)
  also have "\<dots> = (s' + L') + p" by (simp only: add.assoc)
  also have "\<dots> = (t + M) + p" by (simp only: assms(2))
  also have "\<dots> = (t + p) + M" by (simp only: ac_simps)
  also have "\<dots> = (s + q) + M" by (simp only: assms(1))
  also have "\<dots> = (s + M) + q" by (simp only: ac_simps)
  finally show ?thesis by simp
qed

lemma run_schedule_log:
  "run_schedule env rq is cps s = (Inr ms, s') \<Longrightarrow>
     add_log (call_log s') (phases_log cps) = add_log (call_log s) (mset (map fst cps), mset (map fst cps))"
proof (induction "is" arbitrary: cps s)
  case Nil
  then show ?case by (metis finish_all_log run_schedule.simps(1))
next
  case (Cons i "is")
  show ?case
  proof (cases "i < length cps \<and> \<not> phase_over (snd (cps ! i))")
    case False
    with Cons show ?thesis by (simp split: if_splits)
  next
    case True
    let ?c = "fst (cps ! i)" and ?ph = "snd (cps ! i)"
    from Cons.prems(1) True obtain p t where
        t: "tool_step env rq ?c ?ph s = (Inr p, t)"
        and rest: "(case p of PhThrew e \<Rightarrow> throw e
             | _ \<Rightarrow> run_schedule env rq is (cps[i := (?c, p)])) t = (Inr ms, s')"
      by (auto simp: seq_Inr_iff)
    then have nt: "\<not> phase_threw p"
      and run: "run_schedule env rq is (cps[i := (?c, p)]) t = (Inr ms, s')"
      by (cases p; auto simp: throw_def)+
    have same: "map fst (cps[i := (?c, p)]) = map fst cps"
      using True by (metis fst_conv list_update_id map_update nth_map)
    note step = tool_step_call_log [OF t nt]
      and IH = Cons.IH [OF run, unfolded same]
      and upd = phases_log_update [of i cps ?c p, OF conjunct1 [OF True] refl]
    show ?thesis
      using telescope_step [of "fst (call_log t)" _ "fst (call_log s)" _ "fst (call_log s')"]
        telescope_step [of "snd (call_log t)" _ "snd (call_log s)" _ "snd (call_log s')"]
        step IH upd by (metis (no_types, lifting) fst_conv snd_conv)
  qed
qed

lemma phases_log_start: "phases_log (map (\<lambda>c. (c, PhStart)) calls) = ({#}, {#})"
  by (induction calls) (auto simp: phase_log_def)

text \<open>Whatever the schedule, a turn's calls are each started once and concluded once.\<close>

lemma executeTools_log:
  assumes "executeTools env rq calls s = (Inr ms, s')"
  shows "call_log s' = add_log (call_log s) (mset calls, mset calls)"
proof -
  let ?cps = "map (\<lambda>c. (c, PhStart :: 'a tool_phase)) calls"
  have fst: "map fst ?cps = calls" by (simp add: comp_def)
  from assms consider "finish_all env rq ?cps s = (Inr ms, s')"
    | "is" where "run_schedule env rq is ?cps s = (Inr ms, s')"
    by (auto simp: executeTools_def Let_def seq_Inr_iff gets_def split: if_splits)
  then have "add_log (call_log s') (phases_log ?cps) = add_log (call_log s) (mset (map fst ?cps), mset (map fst ?cps))"
    by cases (use finish_all_log run_schedule_log in metis)+
  then show ?thesis unfolding fst phases_log_start by (simp add: prod_eq_iff)
qed

end
