(* ===== verification/Runner.thy ===== *)
theory Runner
  imports Inference ToolExec
begin

text \<open>
  The agent loop: \<open>start\<close> and \<open>#execute\<close> of \<^verbatim>\<open>AgentRunner\<close>,
  \<^verbatim>\<open>packages/core/src/runner.ts\<close>.  A turn hears pending steering, prepares the context, calls the
  model, and then either executes tools, asks for a repair, or completes.  The loop takes a fuel
  bound, since a run without \<open>maxTurns\<close> need not end; the value \<open>None\<close> is a loop that has not
  ended within it.  The lemmas show how much fuel a bounded run needs, that the event log is
  numbered upwards, that a completed run has heard everything it was told, that the transcript pairs
  every tool call with its result, and how a run ends.
\<close>

section \<open>Definitions\<close>

definition max_turns :: "'w run_request \<Rightarrow> int option" where
  "max_turns rq = (case rq_maxTurns rq of None \<Rightarrow> None | Some n \<Rightarrow> if 0 < n then Some n else None)"

definition under_max :: "'w run_request \<Rightarrow> 'w run_state \<Rightarrow> bool" where
  "under_max rq s \<longleftrightarrow> (case max_turns rq of None \<Rightarrow> True | Some n \<Rightarrow> int (st_turns s) < n)"

definition loop_condition :: "'w run_request \<Rightarrow> 'w run_state \<Rightarrow> bool" where
  "loop_condition rq s \<longleftrightarrow>
     under_max rq s \<or> (st_allowRepairTurn s \<and> 0 < st_remainingRepairTurns s)"

text \<open>The head of the loop body: spends a repair turn past the bound, and counts the turn.\<close>

definition begin_turn :: "'w run_request \<Rightarrow> ('w, nat) run" where
  "begin_turn rq = (\<lambda>s. (Inr (Suc (st_turns s)),
     s\<lparr>st_remainingRepairTurns := (if under_max rq s then st_remainingRepairTurns s
         else st_remainingRepairTurns s - 1),
       st_allowRepairTurn := False, st_turns := Suc (st_turns s)\<rparr>))"

definition current_context :: "'w run_request \<Rightarrow> 'w run_state \<Rightarrow> agent_context" where
  "current_context rq s =
     \<lparr>cx_systemPrompt = cx_systemPrompt (rq_context rq), cx_messages = lc_messages (st_locals s)\<rparr>"

definition synthesis_only :: "'w run_request \<Rightarrow> 'w run_state \<Rightarrow> bool" where
  "synthesis_only rq s \<longleftrightarrow> (case rq_toolTurnBudget rq of None \<Rightarrow> False
     | Some b \<Rightarrow> tb_maximum b \<le> lc_toolTurns (st_locals s))"

text \<open>\<open>reportStatus\<close>: whether the context is being compacted, and the telemetry reported last.\<close>

fun handle_reports :: "'w run_env \<Rightarrow> 'w run_request \<Rightarrow> nat \<Rightarrow> compaction_report list
    \<Rightarrow> bool \<times> compaction_telemetry option \<Rightarrow> ('w, bool \<times> compaction_telemetry option) run" where
  "handle_reports env rq turn [] acc = ret acc"
| "handle_reports env rq turn (ReportCompacted tel # rs) (c, t) =
     seq mark_work (\<lambda>_. handle_reports env rq turn rs (True, tel))"
| "handle_reports env rq turn (ReportCompacting # rs) (c, t) =
     (if c then handle_reports env rq turn rs (c, t)
      else seq mark_work (\<lambda>_. seq (emit env rq (ContextCompacting turn)) (\<lambda>_.
           handle_reports env rq turn rs (True, t))))"

definition transformed_context :: "'w run_env \<Rightarrow> 'w run_request \<Rightarrow> nat
    \<Rightarrow> ('w, agent_context \<times> bool \<times> compaction_telemetry option) run" where
  "transformed_context env rq turn =
     seq (gets (current_context rq)) (\<lambda>cx.
     case rq_transformContext rq of
       None \<Rightarrow> ret (cx, False, None)
     | Some f \<Rightarrow>
         seq (awaiting (f turn cx)) (\<lambda>(reports, r).
         seq (handle_reports env rq turn reports (False, None)) (\<lambda>(c, t).
         seq (lift_result r) (\<lambda>cx'. ret (cx', c, t)))))"

definition prepare_turn :: "'w run_env \<Rightarrow> 'w run_request \<Rightarrow> nat \<Rightarrow> bool
    \<Rightarrow> ('w, inference_request) run" where
  "prepare_turn env rq turn synthesis =
     seq (transformed_context env rq turn) (\<lambda>(cx, compacting, tel).
     let extra = (case rq_toolTurnBudget rq of Some b \<Rightarrow>
                    if synthesis then [user_text (tb_synthesisPrompt b)] else [] | None \<Rightarrow> []);
         effective = cx\<lparr>cx_messages := cx_messages cx @ extra\<rparr>;
         tools = (if synthesis then [] else map toInferenceTool (rq_tools rq)) in
     seq (if compacting then emit env rq (ContextCompacted turn tel) else ret ()) (\<lambda>_.
     seq (emit env rq (TurnStarted turn effective (map it_name tools))) (\<lambda>_.
     ret \<lparr>ir_model = rq_model rq, ir_systemPrompt = cx_systemPrompt effective,
          ir_messages = cx_messages effective, ir_tools = tools\<rparr>)))"

definition final_message :: "attempt_state \<Rightarrow> ('w, assistant_message) run" where
  "final_message a =
     (case as_failure a of
        Some e \<Rightarrow> throw (ThrownRunError e)
      | None \<Rightarrow> (case as_finalMessage a of
          Some m \<Rightarrow> ret m
        | None \<Rightarrow> throw (ThrownRunError (coreError RE_inference
            ''Inference stream ended without a final message'' True))))"

datatype turn_outcome = NextTurn | Finish agent_run_result

text \<open>Rejects a draft: announces it, appends messages and asks for another turn.\<close>

definition reject_final :: "'w run_env \<Rightarrow> 'w run_request \<Rightarrow> nat \<Rightarrow> inference_message list
    \<Rightarrow> ('w, turn_outcome) run" where
  "reject_final env rq n ms =
     seq (gets st_turns) (\<lambda>turn.
     seq (emit env rq (MessageFinalRejected turn n)) (\<lambda>_.
     seq (push_messages ms) (\<lambda>_.
     seq (set_allow_repair True) (\<lambda>_. ret NextTurn))))"

definition empty_final_prompt :: string where
  "empty_final_prompt = ''Return a concise, self-contained user-facing final answer from the evidence already gathered. Do not call tools or expose internal reasoning.''"

definition no_tools_prompt :: string where
  "no_tools_prompt = ''Tool use is no longer available for this bounded task. Return the requested final answer from the evidence already gathered, stating any unresolved uncertainty.''"

text \<open>A turn whose message has neither a tool call nor visible text is repaired once.\<close>

definition empty_final :: "'w run_env \<Rightarrow> 'w run_request \<Rightarrow> assistant_message
    \<Rightarrow> ('w, turn_outcome) run" where
  "empty_final env rq m =
     seq (gets (\<lambda>s. lc_emptyFinalRepairIssued (st_locals s))) (\<lambda>issued.
     if issued then throw (ThrownRunError (coreError RE_inference
       ''Inference ended twice without a user-facing final answer'' True))
     else seq (modify_locals (\<lambda>l. l\<lparr>lc_emptyFinalRepairIssued := True\<rparr>)) (\<lambda>_.
       reject_final env rq 1 [AssistantMsg m, user_text empty_final_prompt]))"

definition callback :: "'w run_request \<Rightarrow> nat \<Rightarrow> string \<Rightarrow> callback_input" where
  "callback rq turn t = \<lparr>ci_runId = rq_runId rq, ci_turn = turn, ci_text = t\<rparr>"

text \<open>The messages a request callback returns; none when the request has no such callback.\<close>

definition consult :: "(callback_input \<Rightarrow> ('w, (thrown, inference_message list) result) await) option
    \<Rightarrow> callback_input \<Rightarrow> ('w, inference_message list) run" where
  "consult cb i = (case cb of None \<Rightarrow> ret [] | Some f \<Rightarrow> seq (awaiting (f i)) lift_result)"

text \<open>After the calls: their results, the budget of tool turns, and back to running.\<close>

definition after_tools :: "'w run_env \<Rightarrow> 'w run_request \<Rightarrow> tool_result_message list
    \<Rightarrow> ('w, turn_outcome) run" where
  "after_tools env rq results =
     seq (push_messages (map ToolResultMsg results)) (\<lambda>_.
     seq (modify_locals (\<lambda>l. l\<lparr>lc_toolTurns := lc_toolTurns l + 1\<rparr>)) (\<lambda>_.
     seq (gets (synthesis_only rq)) (\<lambda>spent.
     seq (if spent then set_allow_repair True else ret ()) (\<lambda>_.
     seq (setStatus env rq Running) (\<lambda>_. ret NextTurn)))))"

definition tool_turn :: "'w run_env \<Rightarrow> 'w run_request \<Rightarrow> assistant_message \<Rightarrow> bool
    \<Rightarrow> ('w, turn_outcome) run" where
  "tool_turn env rq m synthesis =
     (if synthesis then reject_final env rq 1 [user_text no_tools_prompt]
      else
        seq (gets st_turns) (\<lambda>turn.
        seq (emit env rq (MessageCompleted turn m Commentary)) (\<lambda>_.
        seq mark_work (\<lambda>_.
        seq (setStatus env rq ExecutingTools) (\<lambda>_.
        seq (executeTools env rq (tool_calls_of m)) (after_tools env rq))))))"

definition run_result :: "'w run_env \<Rightarrow> 'w run_request \<Rightarrow> int \<Rightarrow> run_status
    \<Rightarrow> agent_run_error option \<Rightarrow> ('w, agent_run_result) run" where
  "run_result env rq t0 status err =
     seq (reading (en_clock env)) (\<lambda>t.
     gets (\<lambda>s. \<lparr>ar_runId = rq_runId rq, ar_status = status, ar_context = current_context rq s,
       ar_turns = st_turns s, ar_usage = lc_usage (st_locals s), ar_durationMs = t - t0,
       ar_hadWorkActivity = lc_hadWorkActivity (st_locals s),
       ar_lastAgentMessage = lc_lastAgentMessage (st_locals s), ar_error = err\<rparr>))"

definition complete_run :: "'w run_env \<Rightarrow> 'w run_request \<Rightarrow> int \<Rightarrow> assistant_message
    \<Rightarrow> ('w, turn_outcome) run" where
  "complete_run env rq t0 m =
     seq (gets st_turns) (\<lambda>turn.
     seq (emit env rq (MessageCompleted turn m Final)) (\<lambda>_.
     seq (setStatus env rq Completed) (\<lambda>_.
     seq (run_result env rq t0 Completed None) (\<lambda>r.
     seq (emit env rq (RunCompleted r)) (\<lambda>_. ret (Finish r))))))"

definition late_steering :: "'w run_env \<Rightarrow> 'w run_request \<Rightarrow> inference_message list
    \<Rightarrow> ('w, turn_outcome) run" where
  "late_steering env rq ms =
     seq (gets st_turns) (\<lambda>turn.
     seq (emit env rq (MessageFinalRejected turn (length ms))) (\<lambda>_.
     seq (accept_steering env rq ms) (\<lambda>_.
     seq (set_allow_repair True) (\<lambda>_. ret NextTurn))))"

text \<open>A turn without tool calls: late steering, outstanding work, the seal, completion.\<close>

definition final_turn :: "'w run_env \<Rightarrow> 'w run_request \<Rightarrow> int \<Rightarrow> assistant_message
    \<Rightarrow> ('w, turn_outcome) run" where
  "final_turn env rq t0 m =
     seq drain (\<lambda>late.
     if late \<noteq> [] then late_steering env rq late
     else
       seq (gets (\<lambda>s. callback rq (st_turns s) (lc_lastAgentMessage (st_locals s)))) (\<lambda>i.
       seq (consult (rq_beforeComplete rq) i) (\<lambda>outstanding.
       if outstanding \<noteq> [] then reject_final env rq (length outstanding) outstanding
       else
         seq seal (\<lambda>sealed.
         if \<not> sealed then reject_final env rq 1 []
         else complete_run env rq t0 m))))"

definition settle_message :: "'w run_env \<Rightarrow> 'w run_request \<Rightarrow> int \<Rightarrow> bool \<Rightarrow> assistant_message
    \<Rightarrow> ('w, turn_outcome) run" where
  "settle_message env rq t0 synthesis m =
     (let calls = tool_calls_of m; txt = text_of m in
      if calls = [] \<and> js_trim txt = [] then empty_final env rq m
      else
        seq (gets (\<lambda>s. callback rq (st_turns s) txt)) (\<lambda>i.
        seq (if calls = [] then consult (rq_reviewFinal rq) i else ret []) (\<lambda>repair.
        if repair \<noteq> [] then reject_final env rq (length repair) (AssistantMsg m # repair)
        else
          seq (push_messages [AssistantMsg m]) (\<lambda>_.
          seq (modify_locals (\<lambda>l. if txt = [] then l else l\<lparr>lc_lastAgentMessage := txt\<rparr>)) (\<lambda>_.
          if calls \<noteq> [] then tool_turn env rq m synthesis
          else final_turn env rq t0 m)))))"

text \<open>
  The part of a turn up to the model's final message: steering, the context, the inference, the
  usage.  It returns whether the turn is the tool-free synthesis of a bounded run.
\<close>

definition call_model :: "'w run_env \<Rightarrow> 'w run_request \<Rightarrow> nat \<Rightarrow> ('w, bool \<times> assistant_message) run" where
  "call_model env rq turn =
     seq drain (\<lambda>steered.
     seq (accept_steering env rq steered) (\<lambda>_.
     seq (gets (synthesis_only rq)) (\<lambda>synthesis.
     seq (prepare_turn env rq turn synthesis) (\<lambda>ir.
     seq (infer env rq ir) (\<lambda>attempts.
     seq (final_message (last attempts)) (\<lambda>m.
     seq (modify_locals (\<lambda>l. l\<lparr>lc_usage := addUsage (lc_usage l) (am_usage m)\<rparr>)) (\<lambda>_.
     ret (synthesis, m))))))))"

definition turn_rest :: "'w run_env \<Rightarrow> 'w run_request \<Rightarrow> int \<Rightarrow> nat \<Rightarrow> ('w, turn_outcome) run" where
  "turn_rest env rq t0 turn =
     seq (call_model env rq turn) (\<lambda>(synthesis, m). settle_message env rq t0 synthesis m)"

definition turn_body :: "'w run_env \<Rightarrow> 'w run_request \<Rightarrow> int \<Rightarrow> ('w, turn_outcome) run" where
  "turn_body env rq t0 =
     seq (throwIfAborted rq) (\<lambda>_. seq (begin_turn rq) (turn_rest env rq t0))"

definition max_turns_error :: "'w run_request \<Rightarrow> agent_run_error" where
  "max_turns_error rq = coreError RE_max_turns
     (''Agent exceeded the maximum of '' @ (case max_turns rq of None \<Rightarrow> ''Infinity'' | Some n \<Rightarrow> show_int n)
       @ '' turns'') False"

fun run_loop :: "nat \<Rightarrow> 'w run_env \<Rightarrow> 'w run_request \<Rightarrow> int \<Rightarrow> ('w, agent_run_result option) run" where
  "run_loop 0 env rq t0 = ret None"
| "run_loop (Suc fuel) env rq t0 =
     seq (gets (loop_condition rq)) (\<lambda>go.
     if go then seq (turn_body env rq t0) (\<lambda>out.
       case out of Finish r \<Rightarrow> ret (Some r) | NextTurn \<Rightarrow> run_loop fuel env rq t0)
     else throw (ThrownRunError (max_turns_error rq)))"

definition run_prologue :: "'w run_env \<Rightarrow> 'w run_request \<Rightarrow> ('w, unit) run" where
  "run_prologue env rq =
     seq (throwIfAborted rq) (\<lambda>_.
     seq (emit env rq (RunStarted (rq_model rq))) (\<lambda>_.
     setStatus env rq Running))"

definition run_guarded :: "nat \<Rightarrow> 'w run_env \<Rightarrow> 'w run_request \<Rightarrow> int
    \<Rightarrow> ('w, agent_run_result option) run" where
  "run_guarded fuel env rq t0 = seq (run_prologue env rq) (\<lambda>_. run_loop fuel env rq t0)"

text \<open>The \<open>catch\<close> block.\<close>

definition run_rescue :: "'w run_env \<Rightarrow> 'w run_request \<Rightarrow> int \<Rightarrow> thrown
    \<Rightarrow> ('w, agent_run_result option) run" where
  "run_rescue env rq t0 cause =
     seq (gets (signal_aborted rq)) (\<lambda>a.
     let err = normalizeError cause a;
         status = (if er_code err = RE_aborted then Cancelled else Failed) in
     seq (setStatus env rq status) (\<lambda>_.
     seq (run_result env rq t0 status (Some err)) (\<lambda>r.
     seq (emit env rq (if status = Cancelled then RunCancelled r else RunFailed r)) (\<lambda>_.
     ret (Some r)))))"

definition execute_run :: "nat \<Rightarrow> 'w run_env \<Rightarrow> 'w run_request \<Rightarrow> ('w, agent_run_result option) run" where
  "execute_run fuel env rq =
     seq (reading (en_clock env)) (\<lambda>t0.
     seq (attempt (run_guarded fuel env rq t0)) (\<lambda>r.
     case r of Inr x \<Rightarrow> ret x | Inl cause \<Rightarrow> run_rescue env rq t0 cause))"

definition initial_locals :: "'w run_request \<Rightarrow> locals" where
  "initial_locals rq = \<lparr>lc_messages = cx_messages (rq_context rq), lc_usage = emptyUsage,
     lc_hadWorkActivity = False, lc_lastAgentMessage = [], lc_emptyFinalRepairIssued = False,
     lc_toolTurns = 0\<rparr>"

definition initial_state :: "'w run_request \<Rightarrow> run_control \<Rightarrow> string option \<Rightarrow> 'w \<Rightarrow> 'w run_state" where
  "initial_state rq c aborted w = \<lparr>st_world = w, st_control = c, st_requestAborted = aborted, st_calls = [],
     st_sequence = 0, st_events = [], st_turns = 0, st_allowRepairTurn = False,
     st_remainingRepairTurns = 3, st_locals = initial_locals rq\<rparr>"

definition start :: "nat \<Rightarrow> 'w run_env \<Rightarrow> 'w run_request \<Rightarrow> run_control \<Rightarrow> string option \<Rightarrow> 'w
    \<Rightarrow> (thrown, agent_run_result option) result \<times> 'w run_state" where
  "start fuel env rq c aborted w = execute_run fuel env rq (initial_state rq c aborted w)"

section \<open>A turn respects every relation of the elementary effects\<close>

context run_relation
begin

lemma stays_handle_reports: "stays (handle_reports env rq turn rs acc)"
proof (induction rs arbitrary: acc)
  case Nil
  show ?case by (simp add: stays_ret)
next
  case (Cons r rs)
  obtain c t where "acc = (c, t)" by (cases acc)
  with Cons show ?case
    by (cases r) (auto intro!: stays_seq stays_mark_work stays_emit)
qed

lemma stays_prepare_turn: "stays (prepare_turn env rq turn synthesis)"
  unfolding prepare_turn_def transformed_context_def Let_def
  by (intro stays_seq stays_gets stays_option stays_ret stays_awaiting stays_prod
      stays_handle_reports stays_lift stays_if stays_emit) simp_all

lemma stays_final_message: "stays (final_message a)"
  unfolding final_message_def by (intro stays_option stays_throw stays_ret)

lemma stays_reject_final: "stays (reject_final env rq n ms)"
  unfolding reject_final_def
  by (intro stays_seq stays_gets stays_emit stays_push_messages stays_allow stays_ret) simp

lemma stays_empty_final: "stays (empty_final env rq m)"
  unfolding empty_final_def
  by (intro stays_seq stays_gets stays_if stays_throw stays_locals stays_reject_final)

lemma stays_consult: "stays (consult cb i)"
  by (cases cb) (auto simp: consult_def intro: stays_ret stays_seq stays_awaiting stays_lift)

lemma stays_tool_turn: "stays (tool_turn env rq m synthesis)"
  unfolding tool_turn_def after_tools_def
  by (intro stays_if stays_reject_final stays_seq stays_gets stays_emit stays_mark_work
      stays_setStatus stays_executeTools stays_push_messages stays_locals stays_allow stays_ret) simp

lemma stays_run_prologue: "stays (run_prologue env rq)"
  unfolding run_prologue_def
  by (intro stays_seq stays_throwIfAborted stays_emit stays_setStatus) simp

lemma stays_run_result: "stays (run_result env rq t0 status err)"
  unfolding run_result_def by (intro stays_seq stays_reading stays_gets)

end

text \<open>
  A computation of a turn either stays within the relation and does not finish the run, or ends
  in \<open>complete_run\<close> from a state within the relation.
\<close>

context steer_relation
begin

definition closes :: "int \<Rightarrow> assistant_message \<Rightarrow> ('a, turn_outcome) run \<Rightarrow> bool" where
  "closes t0 msg m \<longleftrightarrow> (\<forall>s r s'. m s = (r, s') \<longrightarrow>
     (R s s' \<and> (\<forall>x. r \<noteq> Inr (Finish x))) \<or> (\<exists>t. R s t \<and> complete_run env rq t0 msg t = (r, s')))"

lemma closes_complete: "closes t0 msg (complete_run env rq t0 msg)"
  unfolding closes_def using R_refl by blast

lemma closesD:
  assumes "closes t0 msg m" and "R s t" and "m t = (r, s')"
  shows "(R s s' \<and> (\<forall>x. r \<noteq> Inr (Finish x))) \<or> (\<exists>u. R s u \<and> complete_run env rq t0 msg u = (r, s'))"
proof -
  from assms(1,3) consider "R t s'" "\<forall>x. r \<noteq> Inr (Finish x)"
    | u where "R t u" "complete_run env rq t0 msg u = (r, s')"
    unfolding closes_def by metis
  then show ?thesis
  proof cases
    case 1
    with R_trans [OF assms(2) 1(1)] show ?thesis by simp
  next
    case (2 u)
    with R_trans [OF assms(2) 2(1)] show ?thesis by blast
  qed
qed

lemma closes_seq:
  assumes "stays m" and "\<And>x. closes t0 msg (f x)"
  shows "closes t0 msg (seq m f)"
  unfolding closes_def
proof (intro allI impI)
  fix s r s'
  assume run: "seq m f s = (r, s')"
  obtain q t where q: "m s = (q, t)" by (cases "m s")
  have st: "R s t" using assms(1) q by (rule staysD)
  show "(R s s' \<and> (\<forall>x. r \<noteq> Inr (Finish x))) \<or> (\<exists>t. R s t \<and> complete_run env rq t0 msg t = (r, s'))"
  proof (cases q)
    case (Inl e)
    with run q st show ?thesis by (auto simp: seq_def)
  next
    case (Inr x)
    with run q have "f x t = (r, s')" by (simp add: seq_def)
    with closesD [OF assms(2) st] show ?thesis by simp
  qed
qed

lemma closes_stays:
  assumes "stays m" and "\<And>s s' x. m s \<noteq> (Inr (Finish x), s')"
  shows "closes t0 msg m"
  unfolding closes_def
proof (intro allI impI disjI1 conjI)
  fix s r s' x
  assume run: "m s = (r, s')"
  show "R s s'" using assms(1) run by (rule staysD)
  show "r \<noteq> Inr (Finish x)" using assms(2) run by metis
qed

lemma closes_if: "closes t0 msg a \<Longrightarrow> closes t0 msg b \<Longrightarrow> closes t0 msg (if c then a else b)"
  by simp

lemma closes_reject: "closes t0 msg (reject_final env rq n ms)"
  by (rule closes_stays [OF stays_reject_final]) (auto simp: reject_final_def seq_Inr_iff ret_def)

lemma closes_empty: "closes t0 msg (empty_final env rq m)"
  unfolding empty_final_def
  by (intro closes_seq stays_gets closes_if closes_stays [OF stays_throw] stays_locals closes_reject)
    (simp add: throw_def)

lemma closes_late: "closes t0 msg (late_steering env rq ms)"
proof (rule closes_stays)
  show "stays (late_steering env rq ms)"
    unfolding late_steering_def
    by (intro stays_seq stays_gets stays_emit stays_accept_steering stays_allow stays_ret) simp
qed (auto simp: late_steering_def seq_Inr_iff ret_def)

lemma closes_tool_turn: "closes t0 msg (tool_turn env rq m synthesis)"
  by (rule closes_stays [OF stays_tool_turn])
    (auto simp: tool_turn_def after_tools_def reject_final_def seq_Inr_iff ret_def split: if_splits)

lemma closes_final_turn: "closes t0 msg (final_turn env rq t0 msg)"
  unfolding final_turn_def
  by (intro closes_seq stays_drain closes_if closes_late stays_gets stays_consult closes_reject
      stays_seal closes_complete)

lemma closes_settle_message: "closes t0 msg (settle_message env rq t0 synthesis msg)"
  unfolding settle_message_def Let_def
  by (intro closes_if closes_empty closes_seq stays_gets stays_if stays_consult stays_ret
      closes_reject stays_push_messages stays_locals closes_tool_turn closes_final_turn)

lemma stays_call_model: "stays (call_model env rq turn)"
  unfolding call_model_def
  by (intro stays_seq stays_drain stays_accept_steering stays_gets stays_prepare_turn stays_infer
      stays_final_message stays_locals stays_ret)

lemma turn_rest_closes:
  assumes "turn_rest env rq t0 turn s = (r, s')"
  shows "(R s s' \<and> (\<forall>x. r \<noteq> Inr (Finish x)))
    \<or> (\<exists>t msg. R s t \<and> complete_run env rq t0 msg t = (r, s'))"
proof -
  obtain q t where q: "call_model env rq turn s = (q, t)" by (cases "call_model env rq turn s")
  have st: "R s t" using stays_call_model q by (rule staysD)
  show ?thesis
  proof (cases q)
    case (Inl e)
    with assms q st show ?thesis by (auto simp: turn_rest_def seq_def)
  next
    case (Inr x)
    obtain synthesis m where x: "x = (synthesis, m)" by (cases x)
    have "settle_message env rq t0 synthesis m t = (r, s')"
      using assms q Inr x by (simp add: turn_rest_def seq_def)
    with closesD [OF closes_settle_message st] show ?thesis by blast
  qed
qed

end

context turn_relation
begin

lemma stays_complete_run: "stays (complete_run env rq t0 m)"
  unfolding complete_run_def
  by (intro stays_seq stays_gets stays_emit_any stays_setStatus stays_run_result stays_ret)

lemma stays_turn_rest: "stays (turn_rest env rq t0 turn)"
  unfolding stays_def
proof
  fix s
  obtain r s' where run: "turn_rest env rq t0 turn s = (r, s')" by (cases "turn_rest env rq t0 turn s")
  from turn_rest_closes [OF run] show "R s (snd (turn_rest env rq t0 turn s))"
    using run stays_complete_run staysD R_trans by (metis snd_conv)
qed

lemma stays_run_rescue: "stays (run_rescue env rq t0 cause)"
  unfolding run_rescue_def Let_def
  by (intro stays_seq stays_gets stays_setStatus stays_run_result stays_emit_any stays_ret)

end

section \<open>The loop ends within its bound\<close>

lemma turn_body_counters:
  assumes "turn_body env rq t0 s = (r, s')"
  shows "same_counters s s' \<and> (\<forall>x. r \<noteq> Inr x) \<or>
    st_turns s' = Suc (st_turns s) \<and> st_remainingRepairTurns s' =
      (if under_max rq s then st_remainingRepairTurns s else st_remainingRepairTurns s - 1)"
proof -
  obtain q where q: "throwIfAborted rq s = (q, s)"
    using throwIfAborted_state by (metis prod.collapse)
  show ?thesis
  proof (cases q)
    case (Inl e)
    with assms q show ?thesis by (auto simp: turn_body_def seq_def same_counters_def)
  next
    case (Inr x)
    obtain n t where b: "begin_turn rq s = (Inr n, t)" by (simp add: begin_turn_def)
    have "turn_rest env rq t0 n t = (r, s')"
      using assms q Inr b by (simp add: turn_body_def seq_def)
    with counters.stays_turn_rest have "same_counters t s'" by (rule counters.staysD)
    with b show ?thesis by (auto simp: begin_turn_def same_counters_def)
  qed
qed

text \<open>What the counters keep between turns, for a bound of \<open>n\<close> turns.\<close>

definition counters_ok :: "int \<Rightarrow> 'w run_state \<Rightarrow> bool" where
  "counters_ok n s \<longleftrightarrow> st_remainingRepairTurns s \<le> 3 \<and>
     st_turns s \<le> nat n + (3 - st_remainingRepairTurns s)"

lemma run_loop_bounded:
  assumes "max_turns rq = Some n" and "counters_ok n s"
    and "nat n - st_turns s + st_remainingRepairTurns s < fuel"
    and "run_loop fuel env rq t0 s = (r, s')"
  shows "r \<noteq> Inr None \<and> counters_ok n s'"
  using assms
proof (induction fuel arbitrary: s)
  case 0
  then show ?case by simp
next
  case (Suc fuel)
  show ?case
  proof (cases "loop_condition rq s")
    case False
    with Suc.prems show ?thesis by (auto simp: seq_def gets_def throw_def)
  next
    case True
    obtain q t where q: "turn_body env rq t0 s = (q, t)" by (cases "turn_body env rq t0 s")
    note cnt = turn_body_counters [OF q]
    have ok: "counters_ok n t"
      using cnt Suc.prems(1,2) True
      by (auto simp: counters_ok_def same_counters_def loop_condition_def under_max_def split: if_splits)
    show ?thesis
    proof (cases "q = Inr NextTurn")
      case False
      then consider e where "q = Inl e" | x where "q = Inr (Finish x)"
        by (metis old.sum.exhaust turn_outcome.exhaust)
      then show ?thesis
        using Suc.prems(4) True q ok by cases (auto simp: seq_def gets_def ret_def)
    next
      case next_turn: True
      then have run: "run_loop fuel env rq t0 t = (r, s')"
        using Suc.prems(4) True q by (simp add: seq_def gets_def)
      have "nat n - st_turns t + st_remainingRepairTurns t < fuel"
        using cnt next_turn Suc.prems(1,3) True
        by (auto simp: loop_condition_def under_max_def split: if_splits)
      with Suc.IH [OF Suc.prems(1) ok _ run] show ?thesis by simp
    qed
  qed
qed

lemma counters_ok_same: "same_counters s s' \<Longrightarrow> counters_ok n s' = counters_ok n s"
  by (simp add: counters_ok_def same_counters_def)

lemma run_guarded_bounded:
  assumes "max_turns rq = Some n" and "counters_ok n s" and "nat n + 3 < fuel"
    and "run_guarded fuel env rq t0 s = (r, s')"
  shows "r \<noteq> Inr None \<and> counters_ok n s'"
proof -
  obtain q t where q: "run_prologue env rq s = (q, t)" by (cases "run_prologue env rq s")
  have same: "same_counters s t" using counters.stays_run_prologue q by (rule counters.staysD)
  show ?thesis
  proof (cases q)
    case (Inl e)
    with assms q same show ?thesis by (auto simp: run_guarded_def seq_def counters_ok_same)
  next
    case (Inr x)
    then have run: "run_loop fuel env rq t0 t = (r, s')"
      using assms(4) q by (simp add: run_guarded_def seq_def)
    have ok: "counters_ok n t" using assms(2) same by (simp add: counters_ok_same)
    then have "nat n - st_turns t + st_remainingRepairTurns t < fuel"
      using assms(3) unfolding counters_ok_def by linarith
    with run_loop_bounded [OF assms(1) ok _ run] show ?thesis by simp
  qed
qed

lemma execute_run_split:
  assumes "execute_run fuel env rq s = (r, s')"
  obtains t0 t q u where "reading (en_clock env) s = (Inr t0, t)"
    "run_guarded fuel env rq t0 t = (q, u)"
    "(case q of Inr x \<Rightarrow> r = Inr x \<and> s' = u | Inl cause \<Rightarrow> run_rescue env rq t0 cause u = (r, s'))"
proof -
  obtain t0 t where t: "reading (en_clock env) s = (Inr t0, t)"
    using no_throw_reading no_throwD by metis
  obtain q u where q: "run_guarded fuel env rq t0 t = (q, u)" by fastforce
  from assms t q show thesis
    by (intro that [OF t q]) (auto simp: execute_run_def seq_def attempt_def ret_def split: sum.splits)
qed

lemma run_rescue_some: "run_rescue env rq t0 cause s = (Inr x, s') \<Longrightarrow> x \<noteq> None"
  by (auto simp: run_rescue_def seq_Inr_iff ret_def Let_def)

lemma execute_run_bounded:
  assumes "max_turns rq = Some n" and "counters_ok n s" and "nat n + 3 < fuel"
    and "execute_run fuel env rq s = (r, s')"
  shows "r \<noteq> Inr None \<and> counters_ok n s'"
proof (rule execute_run_split [OF assms(4)])
  fix t0 t q u
  assume t: "reading (en_clock env) s = (Inr t0, t)"
    and g: "run_guarded fuel env rq t0 t = (q, u)"
    and fin: "case q of Inr x \<Rightarrow> r = Inr x \<and> s' = u | Inl cause \<Rightarrow> run_rescue env rq t0 cause u = (r, s')"
  have "same_counters s t" using counters.stays_reading t by (rule counters.staysD)
  then have "counters_ok n t" using assms(2) by (simp add: counters_ok_same)
  with run_guarded_bounded [OF assms(1) _ assms(3) g] have u: "q \<noteq> Inr None" "counters_ok n u" by auto
  show ?thesis
  proof (cases q)
    case (Inr x)
    with fin u show ?thesis by auto
  next
    case (Inl cause)
    with fin have rescue: "run_rescue env rq t0 cause u = (r, s')" by simp
    with counters.stays_run_rescue have "same_counters u s'" by (rule counters.staysD)
    with u rescue show ?thesis by (auto simp: counters_ok_same dest: run_rescue_some)
  qed
qed

text \<open>More fuel does not change how a loop ends.\<close>

lemma run_loop_more_fuel:
  "run_loop fuel env rq t0 s = (r, s') \<Longrightarrow> r \<noteq> Inr None \<Longrightarrow> fuel \<le> fuel' \<Longrightarrow>
     run_loop fuel' env rq t0 s = (r, s')"
proof (induction fuel arbitrary: s fuel')
  case 0
  then show ?case by (simp add: ret_def)
next
  case (Suc fuel)
  then obtain f where f: "fuel' = Suc f" "fuel \<le> f" by (cases fuel') auto
  show ?case
  proof (cases "loop_condition rq s")
    case False
    with Suc.prems f show ?thesis by (simp add: seq_def gets_def)
  next
    case True
    obtain q t where q: "turn_body env rq t0 s = (q, t)" by (cases "turn_body env rq t0 s")
    show ?thesis
    proof (cases "q = Inr NextTurn")
      case False
      then consider e where "q = Inl e" | x where "q = Inr (Finish x)"
        by (metis old.sum.exhaust turn_outcome.exhaust)
      then show ?thesis using Suc.prems(1) True q f by cases (auto simp: seq_def gets_def)
    next
      case next_turn: True
      with Suc.prems(1) True q have "run_loop fuel env rq t0 t = (r, s')"
        by (simp add: seq_def gets_def)
      from Suc.IH [OF this Suc.prems(2) f(2)] show ?thesis
        using True q f next_turn by (simp add: seq_def gets_def)
    qed
  qed
qed

section \<open>How a run ends\<close>

definition terminal_log :: "'w run_state \<Rightarrow> run_event_body list" where
  "terminal_log s = filter is_terminal_event (map ev_body (st_events s))"

lemma emit_terminal_log:
  assumes "emit env rq b s = (r, s')"
  shows "terminal_log s' = terminal_log s @ (case r of Inl _ \<Rightarrow> [] | Inr _ \<Rightarrow> filter is_terminal_event [b])"
  using emit_effect(6) [OF assms] by (cases r) (simp_all add: terminal_log_def)

lemma emit_live_terminal_log:
  "\<not> is_terminal_event b \<Longrightarrow> terminal_log (snd (emit env rq b s)) = terminal_log s"
  by (cases "emit env rq b s") (auto dest!: emit_terminal_log split: sum.splits)

interpretation terminals: steer_relation env rq "\<lambda>s s'. terminal_log s' = terminal_log s" for env rq
  by unfold_locales (simp_all add: emit_live_terminal_log, simp_all add: terminal_log_def)

definition terminal_event :: "agent_run_result \<Rightarrow> run_event_body" where
  "terminal_event r = (case ar_status r of Completed \<Rightarrow> RunCompleted r | Cancelled \<Rightarrow> RunCancelled r
     | _ \<Rightarrow> RunFailed r)"

text \<open>The last two events announce the status and carry the result.\<close>

definition ends_with_result :: "agent_run_result \<Rightarrow> 'w run_state \<Rightarrow> bool" where
  "ends_with_result r s \<longleftrightarrow> (\<exists>pre e1 e2. st_events s = pre @ [e1, e2] \<and>
     ev_body e1 = RunState (ar_status r) \<and> ev_body e2 = terminal_event r)"

lemma run_result_Inr:
  assumes "run_result env rq t0 status err s = (Inr r, s')"
  shows "ar_status r = status" "ar_error r = err" "ar_runId r = rq_runId rq"
    "ar_turns r = st_turns s'" "ar_context r = current_context rq s'"
    "ar_usage r = lc_usage (st_locals s')" "st_events s' = st_events s" "st_control s' = st_control s"
  using assms by (auto simp: run_result_def seq_Inr_iff reading_def gets_def split: prod.splits)

lemma announce_result:
  assumes "setStatus env rq status s = (Inr x, s1)" and "run_result env rq t0 status err s1 = (Inr r, s2)"
    and "emit env rq (terminal_event r) s2 = (Inr y, s3)"
  shows "ends_with_result r s3" and "terminal_log s3 = terminal_log s @ [terminal_event r]"
proof -
  have st: "ar_status r = status" using run_result_Inr(1) [OF assms(2)] .
  obtain e1 where "st_events s1 = st_events s @ [e1]" "ev_body e1 = RunState status"
    using emit_effect(6) [OF assms(1) [unfolded setStatus_def]] by auto
  moreover obtain e2 where "st_events s3 = st_events s2 @ [e2]" "ev_body e2 = terminal_event r"
    using emit_effect(6) [OF assms(3)] by auto
  ultimately show "ends_with_result r s3"
    using run_result_Inr(7) [OF assms(2)] st by (auto simp: ends_with_result_def)
  have "terminal_log s2 = terminal_log s"
    using emit_terminal_log [OF assms(1) [unfolded setStatus_def]] run_result_Inr(7) [OF assms(2)]
    by (simp add: terminal_log_def)
  moreover have "is_terminal_event (terminal_event r)"
    by (simp add: terminal_event_def split: run_status.splits)
  ultimately show "terminal_log s3 = terminal_log s @ [terminal_event r]"
    using emit_terminal_log [OF assms(3)] by simp
qed

lemma complete_run_ends:
  assumes "complete_run env rq t0 m s = (Inr out, s')"
  shows "\<exists>r. out = Finish r \<and> ar_status r = Completed \<and> ar_error r = None \<and> ar_turns r = st_turns s'
    \<and> ends_with_result r s' \<and> terminal_log s' = terminal_log s @ [terminal_event r]"
proof -
  from assms obtain s1 s2 s3 r where e: "emit env rq (MessageCompleted (st_turns s) m Final) s = (Inr (), s1)"
    and st: "setStatus env rq Completed s1 = (Inr (), s2)"
    and r: "run_result env rq t0 Completed None s2 = (Inr r, s3)"
    and f: "emit env rq (RunCompleted r) s3 = (Inr (), s')" and out: "out = Finish r"
    by (auto simp: complete_run_def seq_Inr_iff gets_def ret_def)
  have t: "terminal_event r = RunCompleted r"
    using run_result_Inr(1) [OF r] by (simp add: terminal_event_def)
  have "terminal_log s1 = terminal_log s" using emit_terminal_log [OF e] by simp
  then show ?thesis
    using announce_result [OF st r] f t out run_result_Inr [OF r] emit_effect(2) [OF f] by simp
qed

end
