(* ===== verification/RunProperties.thy ===== *)
theory RunProperties
  imports Runner
begin

text \<open>
  What a whole run of \<^verbatim>\<open>AgentRunner\<close> guarantees: it ends within its bound, with one terminal event
  that agrees with the result; its log is numbered upwards; a completed run has heard everything it
  was told and refuses more; every tool call of a turn is answered in the transcript.  The theorems
  are stated over \<open>start\<close> and the operations of the turn, each with a run that meets its
  hypotheses.
\<close>

section \<open>The end of the loop\<close>

lemma complete_run_Inl:
  assumes "complete_run env rq t0 m s = (Inl e, s')"
  shows "terminal_log s' = terminal_log s"
proof -
  obtain x s1 where e: "emit env rq (MessageCompleted (st_turns s) m Final) s = (x, s1)" by fastforce
  obtain y s2 where st: "emit env rq (RunState Completed) s1 = (y, s2)" by fastforce
  obtain z s3 where r: "run_result env rq t0 Completed None s2 = (z, s3)" by fastforce
  have 1: "terminal_log s1 = terminal_log s" using emit_terminal_log [OF e] by (cases x) simp_all
  have 2: "terminal_log s2 = terminal_log s1" using emit_terminal_log [OF st] by (cases y) simp_all
  have 3: "terminal_log s3 = terminal_log s2"
    using terminals.stays_run_result r by (rule terminals.staysD)
  have 4: "emit env rq b s3 = (Inl e, s') \<Longrightarrow> terminal_log s' = terminal_log s3" for b
    by (auto dest: emit_terminal_log)
  show ?thesis
    using assms e st r 1 2 3 4
    by (auto simp: complete_run_def setStatus_def seq_Inl_iff gets_def ret_def split: sum.splits)
qed

lemma turn_body_ends:
  assumes "turn_body env rq t0 s = (r, s')"
  shows "case r of
      Inr (Finish x) \<Rightarrow> ar_status x = Completed \<and> ar_error x = None \<and> ar_turns x = st_turns s'
        \<and> ends_with_result x s' \<and> terminal_log s' = terminal_log s @ [terminal_event x]
    | _ \<Rightarrow> terminal_log s' = terminal_log s"
proof (cases "signal_aborted rq s")
  case True
  with assms show ?thesis by (auto simp: turn_body_def throwIfAborted_def run_defs)
next
  case False
  obtain n t where b: "begin_turn rq s = (Inr n, t)" by (simp add: begin_turn_def)
  then have t: "terminal_log t = terminal_log s" by (auto simp: begin_turn_def terminal_log_def)
  from False assms b have "turn_rest env rq t0 n t = (r, s')"
    by (simp add: turn_body_def throwIfAborted_def run_defs)
  from terminals.turn_rest_closes [OF this] consider
      "terminal_log s' = terminal_log t" "\<forall>x. r \<noteq> Inr (Finish x)"
    | u msg where "terminal_log u = terminal_log t" "complete_run env rq t0 msg u = (r, s')"
    by blast
  then show ?thesis
  proof cases
    case 1
    then show ?thesis using t by (auto split: sum.splits turn_outcome.splits)
  next
    case (2 u msg)
    show ?thesis
    proof (cases r)
      case (Inl e)
      with 2 t show ?thesis by (simp add: complete_run_Inl)
    next
      case (Inr out)
      with 2 have "complete_run env rq t0 msg u = (Inr out, s')" by simp
      from complete_run_ends [OF this] show ?thesis using Inr 2 t by auto
    qed
  qed
qed

text \<open>The \<open>try\<close> block adds a terminal event only when it returns a result, which it completes.\<close>

definition completes :: "run_event_body list \<Rightarrow> (thrown, agent_run_result option) result
    \<Rightarrow> 'w run_state \<Rightarrow> bool" where
  "completes before r s' \<longleftrightarrow> (case r of
      Inr (Some x) \<Rightarrow> ar_status x = Completed \<and> ar_error x = None \<and> ar_turns x = st_turns s'
        \<and> ends_with_result x s' \<and> terminal_log s' = before @ [terminal_event x]
    | _ \<Rightarrow> terminal_log s' = before)"

lemma run_loop_ends:
  "run_loop fuel env rq t0 s = (r, s') \<Longrightarrow> completes (terminal_log s) r s'"
proof (induction fuel arbitrary: s)
  case 0
  then show ?case by (auto simp: ret_def completes_def)
next
  case (Suc fuel)
  show ?case
  proof (cases "loop_condition rq s")
    case False
    with Suc.prems show ?thesis by (auto simp: seq_def gets_def throw_def completes_def)
  next
    case True
    obtain q t where q: "turn_body env rq t0 s = (q, t)" by (cases "turn_body env rq t0 s")
    note ends = turn_body_ends [OF q]
    show ?thesis
    proof (cases "q = Inr NextTurn")
      case False
      then consider e where "q = Inl e" | x where "q = Inr (Finish x)"
        by (metis old.sum.exhaust turn_outcome.exhaust)
      then show ?thesis using Suc.prems(1) True q ends
        by cases (auto simp: seq_def gets_def ret_def completes_def)
    next
      case next_turn: True
      with Suc.prems(1) True q have "run_loop fuel env rq t0 t = (r, s')"
        by (simp add: seq_def gets_def)
      with Suc.IH [OF this] next_turn ends show ?thesis by simp
    qed
  qed
qed

lemma run_guarded_ends:
  assumes "run_guarded fuel env rq t0 s = (r, s')"
  shows "completes (terminal_log s) r s'"
proof -
  obtain q t where q: "run_prologue env rq s = (q, t)" by (cases "run_prologue env rq s")
  have t: "terminal_log t = terminal_log s" using terminals.stays_run_prologue q by (rule terminals.staysD)
  show ?thesis
  proof (cases q)
    case (Inl e)
    with assms q t show ?thesis by (auto simp: run_guarded_def seq_def completes_def)
  next
    case (Inr x)
    with assms q have "run_loop fuel env rq t0 t = (r, s')" by (simp add: run_guarded_def seq_def)
    from run_loop_ends [OF this] t show ?thesis by simp
  qed
qed

text \<open>The status and the error of the \<open>catch\<close> block, from the cause and the signal.\<close>

definition rescue_error :: "'w run_request \<Rightarrow> thrown \<Rightarrow> 'w run_state \<Rightarrow> agent_run_error" where
  "rescue_error rq cause s = normalizeError cause (signal_aborted rq s)"

lemma run_rescue_ends:
  assumes "run_rescue env rq t0 cause s = (Inr out, s')"
  shows "\<exists>x. out = Some x \<and> ar_error x = Some (rescue_error rq cause s)
    \<and> ar_status x = (if er_code (rescue_error rq cause s) = RE_aborted then Cancelled else Failed)
    \<and> ar_turns x = st_turns s' \<and> ends_with_result x s' \<and> terminal_log s' = terminal_log s @ [terminal_event x]"
proof -
  define status where
    "status = (if er_code (rescue_error rq cause s) = RE_aborted then Cancelled else Failed)"
  from assms obtain s1 s2 x where st: "setStatus env rq status s = (Inr (), s1)"
    and x: "run_result env rq t0 status (Some (rescue_error rq cause s)) s1 = (Inr x, s2)"
    and e: "emit env rq (if status = Cancelled then RunCancelled x else RunFailed x) s2 = (Inr (), s')"
    and out: "out = Some x"
    unfolding status_def rescue_error_def
    by (auto simp: run_rescue_def Let_def seq_Inr_iff gets_def ret_def)
  have "status = Cancelled \<or> status = Failed" by (simp add: status_def)
  then have "terminal_event x = (if status = Cancelled then RunCancelled x else RunFailed x)"
    using run_result_Inr(1) [OF x] by (auto simp: terminal_event_def)
  with announce_result [OF st x] e run_result_Inr [OF x] emit_effect(2) [OF e] out show ?thesis
    by (auto simp: status_def)
qed

lemma execute_run_ends:
  assumes "execute_run fuel env rq s = (Inr (Some x), s')"
  shows "ends_with_result x s' \<and> terminal_log s' = terminal_log s @ [terminal_event x]
    \<and> ar_turns x = st_turns s' \<and> ar_status x \<in> {Completed, Cancelled, Failed}
    \<and> (ar_status x = Completed \<longleftrightarrow> ar_error x = None)"
proof (rule execute_run_split [OF assms])
  fix t0 t q u
  assume t: "reading (en_clock env) s = (Inr t0, t)"
    and g: "run_guarded fuel env rq t0 t = (q, u)"
    and fin: "case q of Inr y \<Rightarrow> Inr (Some x) = Inr y \<and> s' = u
      | Inl cause \<Rightarrow> run_rescue env rq t0 cause u = (Inr (Some x), s')"
  have "terminal_log t = terminal_log s" using terminals.stays_reading t by (rule terminals.staysD)
  with run_guarded_ends [OF g] fin show ?thesis
    by (cases q) (auto simp: completes_def dest!: run_rescue_ends split: if_splits)
qed

section \<open>Steering reaches the model\<close>

text \<open>The handle accepts nothing more and has nothing queued.\<close>

definition shut :: "'w run_state \<Rightarrow> bool" where
  "shut s \<longleftrightarrow> \<not> accepting_steering (st_control s) \<and> steering (st_control s) = []"

lemma shut_frame [simp]:
  "shut (s\<lparr>st_world := w\<rparr>) = shut s" "shut (s\<lparr>st_sequence := n\<rparr>) = shut s"
  "shut (s\<lparr>st_locals := l\<rparr>) = shut s" "shut (s\<lparr>st_allowRepairTurn := b\<rparr>) = shut s"
  "shut (s\<lparr>st_events := es\<rparr>) = shut s"
  by (simp_all add: shut_def)

lemma apply_ctl_shut: "shut s \<Longrightarrow> shut (apply_ctl c s)"
  by (cases c) (auto simp: shut_def steer_opt_Some_iff cancel_def split: option.splits)

lemma fold_ctl_shut: "shut s \<Longrightarrow> shut (fold apply_ctl cs s)"
  by (induction cs arbitrary: s) (auto simp: apply_ctl_shut)

lemma emit_shut: "shut s \<Longrightarrow> shut (snd (emit env rq b s))"
  by (cases rule: emit_cases [of env rq b s]) (auto simp: fold_ctl_shut)

interpretation closed: run_relation env rq "\<lambda>s s'. shut s \<longrightarrow> shut s'" for env rq
  by unfold_locales (auto simp: apply_ctl_shut emit_shut)

lemma complete_run_shut:
  assumes "shut s" and "complete_run env rq t0 m s = (r, s')"
  shows "shut s'"
proof -
  have "closed.stays (emit env rq b)" for b by (simp add: closed.stays_def emit_shut)
  then have "closed.stays (complete_run env rq t0 m)"
    unfolding complete_run_def
    by (intro closed.stays_seq closed.stays_gets closed.stays_setStatus closed.stays_run_result closed.stays_ret)
  with assms show ?thesis using closed.staysD by blast
qed

lemma complete_run_ledger:
  assumes "conserves_steering pre s" and "complete_run env rq t0 m s = (r, s')"
  shows "conserves_steering pre s'"
proof -
  have "steered.stays pre [] (emit env rq b)" if "\<not> is_steer_event b" for b :: run_event_body
    by (simp add: steered.stays_def emit_ledger that)
  then have "steered.stays pre [] (complete_run env rq t0 m)"
    unfolding complete_run_def
    by (intro steered.stays_seq steered.stays_gets steered.stays_setStatus steered.stays_run_result
        steered.stays_ret) simp_all
  with assms show ?thesis using steered.staysD by blast
qed

text \<open>
  Steering a turn has drained is announced before the turn ends, unless the turn throws; a turn that
  finishes the run leaves the handle shut.
\<close>

definition hears :: "inference_message list \<Rightarrow> ('w, turn_outcome) run \<Rightarrow> bool" where
  "hears pre m \<longleftrightarrow> (\<forall>s out s'. conserves_steering pre s \<longrightarrow> m s = (Inr out, s') \<longrightarrow>
     conserves_steering pre s' \<and> (out \<noteq> NextTurn \<longrightarrow> shut s'))"

lemma hearsD:
  "hears pre m \<Longrightarrow> conserves_steering pre s \<Longrightarrow> m s = (Inr out, s') \<Longrightarrow>
     conserves_steering pre s' \<and> (out \<noteq> NextTurn \<longrightarrow> shut s')"
  unfolding hears_def by blast

lemma hears_seq:
  assumes "steered.stays pre [] m" and "\<And>x. hears pre (f x)"
  shows "hears pre (seq m f)"
  unfolding hears_def
proof (intro allI impI)
  fix s out s'
  assume cons: "conserves_steering pre s" and run: "seq m f s = (Inr out, s')"
  from run obtain x t where t: "m s = (Inr x, t)" and f: "f x t = (Inr out, s')"
    unfolding seq_Inr_iff by blast
  have "conserves_steering pre t" using steered.staysD [OF assms(1) t] cons by blast
  then show "conserves_steering pre s' \<and> (out \<noteq> NextTurn \<longrightarrow> shut s')"
    using hearsD [OF assms(2) _ f] by blast
qed

lemma hears_if: "hears pre a \<Longrightarrow> hears pre b \<Longrightarrow> hears pre (if c then a else b)"
  by simp

lemma hears_stays:
  assumes "steered.stays pre [] m" and "\<And>s s' x. m s \<noteq> (Inr (Finish x), s')"
  shows "hears pre m"
  unfolding hears_def
proof (intro allI impI conjI)
  fix s out s'
  assume cons: "conserves_steering pre s" and run: "m s = (Inr out, s')"
  show "conserves_steering pre s'" using steered.staysD [OF assms(1) run] cons by blast
  assume "out \<noteq> NextTurn"
  then show "shut s'" using assms(2) run by (cases out) auto
qed

lemma hears_reject: "hears pre (reject_final env rq n ms)"
  by (rule hears_stays [OF steered.stays_reject_final]) (auto simp: reject_final_def seq_Inr_iff ret_def)

lemma hears_empty: "hears pre (empty_final env rq m)"
  by (rule hears_stays [OF steered.stays_empty_final])
    (auto simp: empty_final_def reject_final_def seq_Inr_iff ret_def throw_def split: if_splits)

lemma hears_tool_turn: "hears pre (tool_turn env rq m synthesis)"
  by (rule hears_stays [OF steered.stays_tool_turn])
    (auto simp: tool_turn_def after_tools_def reject_final_def seq_Inr_iff ret_def split: if_splits)

lemma late_steering_ledger:
  assumes "steering_ledger pre ms s" and "late_steering env rq ms s = (Inr out, s')"
  shows "conserves_steering pre s' \<and> out = NextTurn"
proof -
  from assms(2) obtain t u where
      t: "emit env rq (MessageFinalRejected (st_turns s) (length ms)) s = (Inr (), t)"
      and u: "accept_steering env rq ms t = (Inr (), u)"
      and fin: "s' = u\<lparr>st_allowRepairTurn := True\<rparr>" "out = NextTurn"
    by (auto simp: late_steering_def seq_Inr_iff gets_def ret_def set_allow_repair_def)
  have "steering_ledger pre ms t" using emit_ledger [OF assms(1), of _ env rq] t by (metis is_steer_event.simps snd_conv)
  from accept_steering_ledger [OF this u] fin show ?thesis by simp
qed

lemma seal_True:
  assumes "seal s = (Inr True, s')" shows "shut s'"
  using assms rc.sealed_refuses(2) [of "st_control s"]
  by (auto simp: seal_def shut_def seal_steering_if_empty_def split: if_splits)

lemma hears_sealing: "hears pre (seq seal (\<lambda>sealed. if \<not> sealed then reject_final env rq 1 []
     else complete_run env rq t0 m))"
  unfolding hears_def
proof (intro allI impI)
  fix s out s'
  assume cons: "conserves_steering pre s"
    and run: "seq seal (\<lambda>sealed. if \<not> sealed then reject_final env rq 1 []
     else complete_run env rq t0 m) s = (Inr out, s')"
  from run obtain b t where b: "seal s = (Inr b, t)"
    and rest: "(if \<not> b then reject_final env rq 1 [] else complete_run env rq t0 m) t = (Inr out, s')"
    unfolding seq_Inr_iff by blast
  have t: "conserves_steering pre t" using seal_ledger [OF cons] b by simp
  show "conserves_steering pre s' \<and> (out \<noteq> NextTurn \<longrightarrow> shut s')"
  proof (cases b)
    case True
    with b rest have "shut t" "complete_run env rq t0 m t = (Inr out, s')" by (auto dest: seal_True)
    with t show ?thesis using complete_run_shut complete_run_ledger by blast
  next
    case False
    with rest have "reject_final env rq 1 [] t = (Inr out, s')" by simp
    with hearsD [OF hears_reject t] show ?thesis by blast
  qed
qed

lemma hears_final_turn: "hears pre (final_turn env rq t0 m)"
  unfolding hears_def
proof (intro allI impI)
  fix s out s'
  assume cons: "conserves_steering pre s" and run: "final_turn env rq t0 m s = (Inr out, s')"
  obtain late t where d: "drain s = (Inr late, t)" by (simp add: drain_def drain_steering_def)
  have led: "steering_ledger pre late t" using drain_ledger [OF cons d] .
  show "conserves_steering pre s' \<and> (out \<noteq> NextTurn \<longrightarrow> shut s')"
  proof (cases "late = []")
    case False
    with run d have "late_steering env rq late t = (Inr out, s')" by (simp add: final_turn_def seq_def)
    from late_steering_ledger [OF led this] show ?thesis by simp
  next
    case True
    have "hears pre (seq (gets (\<lambda>s. callback rq (st_turns s) (lc_lastAgentMessage (st_locals s)))) (\<lambda>i.
       seq (consult (rq_beforeComplete rq) i) (\<lambda>outstanding.
       if outstanding \<noteq> [] then reject_final env rq (length outstanding) outstanding
       else seq seal (\<lambda>sealed. if \<not> sealed then reject_final env rq 1 []
         else complete_run env rq t0 m))))"
      by (intro hears_seq hears_if steered.stays_gets steered.stays_consult hears_reject hears_sealing)
    from hearsD [OF this, of t out s'] show ?thesis
      using run d led True by (simp add: final_turn_def seq_def)
  qed
qed

lemma hears_settle_message: "hears pre (settle_message env rq t0 synthesis m)"
  unfolding settle_message_def Let_def
  by (intro hears_if hears_empty hears_seq steered.stays_gets steered.stays_if steered.stays_consult
      steered.stays_ret hears_reject steered.stays_push_messages steered.stays_locals hears_tool_turn
      hears_final_turn)

lemma call_model_ledger:
  assumes "conserves_steering pre s" and "call_model env rq turn s = (Inr x, s')"
  shows "conserves_steering pre s'"
proof -
  obtain ms t where d: "drain s = (Inr ms, t)" by (simp add: drain_def drain_steering_def)
  let ?rest = "seq (gets (synthesis_only rq)) (\<lambda>synthesis.
     seq (prepare_turn env rq turn synthesis) (\<lambda>ir.
     seq (infer env rq ir) (\<lambda>attempts.
     seq (final_message (last attempts)) (\<lambda>m.
     seq (modify_locals (\<lambda>l. l\<lparr>lc_usage := addUsage (lc_usage l) (am_usage m)\<rparr>)) (\<lambda>_.
     ret (synthesis, m))))))"
  from assms(2) d obtain u where u: "accept_steering env rq ms t = (Inr (), u)" "?rest u = (Inr x, s')"
    unfolding call_model_def seq_Inr_iff [of drain] seq_Inr_iff [of "accept_steering _ _ _"] by auto
  have st: "steered.stays pre [] ?rest"
    by (intro steered.stays_seq steered.stays_gets steered.stays_prepare_turn steered.stays_infer
        steered.stays_final_message steered.stays_locals steered.stays_ret)
  have "conserves_steering pre u" using accept_steering_ledger [OF drain_ledger [OF assms(1) d] u(1)] .
  then show ?thesis using steered.staysD [OF st u(2)] by blast
qed

lemma turn_body_hears:
  assumes "conserves_steering pre s" and "turn_body env rq t0 s = (Inr out, s')"
  shows "conserves_steering pre s' \<and> (out \<noteq> NextTurn \<longrightarrow> shut s')"
proof -
  obtain n t where b: "begin_turn rq s = (Inr n, t)" by (simp add: begin_turn_def)
  have t: "conserves_steering pre t"
    using assms(1) b by (auto simp: begin_turn_def steering_ledger_def accepted_steering_def heard_steering_def)
  from assms(2) b obtain u synthesis m where c: "call_model env rq n t = (Inr (synthesis, m), u)"
    and r: "settle_message env rq t0 synthesis m u = (Inr out, s')"
    by (auto simp: turn_body_def turn_rest_def seq_Inr_iff dest!: throwIfAborted_Inr)
  from call_model_ledger [OF t c] show ?thesis by (rule hearsD [OF hears_settle_message _ r])
qed

lemma run_loop_hears:
  "conserves_steering pre s \<Longrightarrow> run_loop fuel env rq t0 s = (Inr (Some x), s') \<Longrightarrow>
     conserves_steering pre s' \<and> shut s'"
proof (induction fuel arbitrary: s)
  case 0
  then show ?case by (simp add: ret_def)
next
  case (Suc fuel)
  then have "loop_condition rq s" by (auto simp: seq_def gets_def throw_def split: if_splits)
  with Suc.prems(2) obtain out t where t: "turn_body env rq t0 s = (Inr out, t)"
    and rest: "(case out of Finish r \<Rightarrow> ret (Some r) | NextTurn \<Rightarrow> run_loop fuel env rq t0) t = (Inr (Some x), s')"
    by (auto simp: seq_Inr_iff gets_def)
  note h = turn_body_hears [OF Suc.prems(1) t]
  show ?case
  proof (cases out)
    case NextTurn
    with rest h Suc.IH show ?thesis by simp
  next
    case (Finish r)
    with rest h show ?thesis by (simp add: ret_def)
  qed
qed

lemma initial_ledger: "conserves_steering (steering c) (initial_state rq c aborted w)"
  by (simp add: initial_state_def steering_ledger_def accepted_steering_def heard_steering_def
      List.map_filter_simps)

lemma start_completed_split:
  assumes "start fuel env rq c aborted w = (Inr (Some x), s')" and "ar_status x = Completed"
  obtains t0 t where "run_loop fuel env rq t0 t = (Inr (Some x), s')"
    "conserves_steering (steering c) t"
proof (rule execute_run_split [OF assms(1) [unfolded start_def]])
  fix t0 t q u
  let ?s = "initial_state rq c aborted w"
  assume t: "reading (en_clock env) ?s = (Inr t0, t)"
    and g: "run_guarded fuel env rq t0 t = (q, u)"
    and fin: "case q of Inr y \<Rightarrow> Inr (Some x) = Inr y \<and> s' = u
      | Inl cause \<Rightarrow> run_rescue env rq t0 cause u = (Inr (Some x), s')"
  have ct: "conserves_steering (steering c) t"
    using steered.staysD [OF steered.stays_reading t, of "steering c" "[]"] by (simp add: initial_ledger)
  from fin assms(2) have q: "q = Inr (Some x)" "s' = u"
    by (cases q; auto dest!: run_rescue_ends split: if_splits)+
  with g obtain v where v: "run_prologue env rq t = (Inr (), v)" "run_loop fuel env rq t0 v = (Inr (Some x), s')"
    by (auto simp: run_guarded_def seq_Inr_iff)
  have "conserves_steering (steering c) v"
    using steered.staysD [OF steered.stays_run_prologue v(1), of "steering c" "[]"] ct by simp
  with v(2) show thesis by (rule that)
qed

section \<open>The log of a whole run\<close>

lemma begin_turn_log: "begin_turn rq s = (r, t) \<Longrightarrow> log_extends rid s t"
  by (auto simp: begin_turn_def log_extends_def)

lemma stays_log_turn_body: "log.stays rq (turn_body env rq t0)"
proof -
  have "log.stays rq (begin_turn rq)"
    unfolding log.stays_def by (metis begin_turn_log prod.collapse)
  then show ?thesis
    unfolding turn_body_def by (intro log.stays_seq log.stays_throwIfAborted log.stays_turn_rest)
qed

lemma stays_log_run_loop: "log.stays rq (run_loop fuel env rq t0)"
proof (induction fuel)
  case 0
  show ?case by (simp add: log.stays_ret)
next
  case (Suc fuel)
  show ?case
    using Suc by (auto intro!: log.stays_seq log.stays_gets stays_log_turn_body log.stays_throw
        log.stays_ret split: turn_outcome.splits)
qed

lemma stays_log_execute_run: "log.stays rq (execute_run fuel env rq)"
  unfolding execute_run_def run_guarded_def
  by (intro log.stays_seq log.stays_reading log.stays_attempt log.stays_run_prologue
      stays_log_run_loop log.stays_sum log.stays_ret log.stays_run_rescue)

section \<open>The transcript of a tool turn\<close>

lemma after_tools_effect:
  assumes "after_tools env rq results u = (Inr out, s')"
  shows "lc_messages (st_locals s') = lc_messages (st_locals u) @ map ToolResultMsg results"
    and "call_log s' = call_log u" and "out = NextTurn"
proof -
  from assms have out: "out = NextTurn" by (auto simp: after_tools_def seq_Inr_iff ret_def)
  let ?w = "u\<lparr>st_locals := (st_locals u)\<lparr>
      lc_messages := lc_messages (st_locals u) @ map ToolResultMsg results,
      lc_toolTurns := lc_toolTurns (st_locals u) + 1\<rparr>\<rparr>"
  define v where "v = (if synthesis_only rq ?w then ?w\<lparr>st_allowRepairTurn := True\<rparr> else ?w)"
  have e: "emit env rq (RunState Running) v = (Inr (), s')"
    using assms
    by (auto simp: v_def after_tools_def setStatus_def seq_def gets_def ret_def push_messages_def
        modify_locals_def set_allow_repair_def split: if_splits prod.splits sum.splits)
  have "st_locals v = st_locals ?w" "st_events v = st_events u" by (simp_all add: v_def)
  note v = this
  have "call_log s' = call_log v" using emit_call_log [OF e] by (simp add: call_log_def)
  also have "\<dots> = call_log u" using v(2) by (rule call_log_events)
  finally show "call_log s' = call_log u" .
  show "lc_messages (st_locals s') = lc_messages (st_locals u) @ map ToolResultMsg results"
    using emit_effect(3) [OF e] v(1) by simp
  show "out = NextTurn" by (rule out)
qed

text \<open>A turn with tool calls appends their results to the transcript, one per call, in order.\<close>

lemma tool_turn_transcript:
  assumes "tool_turn env rq m False s = (Inr out, s')"
  shows "out = NextTurn \<and> call_log s' = add_log (call_log s) (mset (tool_calls_of m), mset (tool_calls_of m))
    \<and> (\<exists>results. lc_messages (st_locals s') = lc_messages (st_locals s) @ map ToolResultMsg results
         \<and> list_all2 answers (tool_calls_of m) results)"
proof -
  from assms obtain s1 s2 u results where
      e: "emit env rq (MessageCompleted (st_turns s) m Commentary) s = (Inr (), s1)"
    and st: "emit env rq (RunState ExecutingTools) (snd (mark_work s1)) = (Inr (), s2)"
    and x: "executeTools env rq (tool_calls_of m) s2 = (Inr results, u)"
    and tail: "after_tools env rq results u = (Inr out, s')"
    by (auto simp: tool_turn_def setStatus_def seq_Inr_iff gets_def mark_work_def modify_locals_def)
  have log: "call_log s2 = call_log s"
    using emit_call_log [OF e] emit_call_log [OF st]
    by (simp add: mark_work_def modify_locals_def call_log_def started_calls_def finished_calls_def)
  have "lc_messages (st_locals s2) = lc_messages (st_locals s)"
    using emit_effect(3) [OF e] emit_effect(3) [OF st] by (simp add: mark_work_def modify_locals_def)
  moreover have "st_locals u = st_locals s2"
    using same_locals.stays_executeTools x by (rule same_locals.staysD)
  ultimately have "lc_messages (st_locals s') = lc_messages (st_locals s) @ map ToolResultMsg results"
    using after_tools_effect(1) [OF tail] by simp
  with executeTools_answers [OF x] executeTools_log [OF x] after_tools_effect(2,3) [OF tail] log
  show ?thesis by auto
qed

section \<open>Fuel\<close>

lemma run_guarded_more_fuel:
  assumes "run_guarded fuel env rq t0 s = (r, s')" and "r \<noteq> Inr None" and "fuel \<le> fuel'"
  shows "run_guarded fuel' env rq t0 s = (r, s')"
proof -
  obtain q t where q: "run_prologue env rq s = (q, t)" by (cases "run_prologue env rq s")
  with assms show ?thesis
    by (cases q) (auto simp: run_guarded_def seq_def intro: run_loop_more_fuel)
qed

lemma execute_run_more_fuel:
  assumes "execute_run fuel env rq s = (r, s')" and "r \<noteq> Inr None" and "fuel \<le> fuel'"
  shows "execute_run fuel' env rq s = (r, s')"
proof (rule execute_run_split [OF assms(1)])
  fix t0 t q u
  assume t: "reading (en_clock env) s = (Inr t0, t)"
    and g: "run_guarded fuel env rq t0 t = (q, u)"
    and fin: "case q of Inr y \<Rightarrow> r = Inr y \<and> s' = u | Inl cause \<Rightarrow> run_rescue env rq t0 cause u = (r, s')"
  have "q \<noteq> Inr None" using fin assms(2) by auto
  from run_guarded_more_fuel [OF g this assms(3)] t fin show ?thesis
    by (auto simp: execute_run_def seq_def attempt_def ret_def split: sum.splits)
qed

section \<open>A run to exercise the theorems\<close>

text \<open>
  A small instance of the environment.  The world counts the calls of the model: while the first
  answers, the host steers the run; the second fails with a retryable error; every later one
  answers.  There is one tool, and the schedule interleaves two parallel calls of it.  A tick of the
  clock is one millisecond.
\<close>

record demo_world =
  dw_calls :: nat
  dw_time :: int

definition demo_message :: "assistant_block list \<Rightarrow> assistant_message" where
  "demo_message bs = \<lparr>am_content = bs, am_provider = None, am_model = None, am_responseId = None,
     am_usage = None, am_stopReason = None, am_timestamp = None\<rparr>"

definition demo_call :: "string \<Rightarrow> string \<Rightarrow> tool_call" where
  "demo_call i n = \<lparr>tc_id = i, tc_name = n, tc_arguments = JNull\<rparr>"

definition demo_call_a :: tool_call where "demo_call_a = demo_call ''a'' ''r''"
definition demo_call_b :: tool_call where "demo_call_b = demo_call ''b'' ''r''"

definition demo_tools_message :: assistant_message where
  "demo_tools_message = demo_message [AToolCall demo_call_a, AToolCall demo_call_b]"

definition demo_answer :: assistant_message where
  "demo_answer = demo_message [AText ''done'']"

definition demo_steer :: inference_message where
  "demo_steer = user_text ''also this''"

definition demo_result :: agent_tool_result where
  "demo_result = \<lparr>rs_content = TCText ''text'', rs_isError = None, rs_metadata = None\<rparr>"

definition demo_error :: inference_error where
  "demo_error = \<lparr>ie_code = IE_rate_limit, ie_message = ''slow down'', ie_retryable = True\<rparr>"

definition demo_stream :: "inference_request
    \<Rightarrow> (demo_world, (ctl_event list \<times> inference_event) list \<times> thrown option) await" where
  "demo_stream ir w = (((if dw_calls w = 0
        then [([CtlSteer demo_steer], EvDone StopStop demo_answer)]
      else if dw_calls w = 1
        then [([], EvError demo_error)]
      else [([], EvTextDelta 0 []), ([], EvDone StopStop demo_answer)]), None),
     [], w\<lparr>dw_calls := Suc (dw_calls w)\<rparr>)"

definition demo_tick :: "demo_world \<Rightarrow> int \<times> demo_world" where
  "demo_tick w = (dw_time w, w\<lparr>dw_time := dw_time w + 1\<rparr>)"

definition demo_env :: "demo_world run_env" where
  "demo_env = \<lparr>en_stream = demo_stream, en_sink = (\<lambda>_ w. (None, [], w)),
     en_observer = (\<lambda>_ w. (None, [], w)), en_clock = demo_tick, en_now = demo_tick,
     en_beforeTool = None, en_afterTool = None, en_retryWait = (\<lambda>_ w. ((), [], w)),
     en_toolSchedule = (\<lambda>_. [0, 1, 1, 0])\<rparr>"

definition demo_read :: "demo_world agent_tool" where
  "demo_read = \<lparr>at_name = ''r'', at_description = [], at_parameters = JNull, at_strict = None,
     at_executionMode = None, at_execute = (\<lambda>_ _ w. (([([], None)], Inr demo_result), [], w))\<rparr>"

definition demo_request :: "demo_world run_request" where
  "demo_request = \<lparr>rq_runId = ''r'', rq_budgetScope = None, rq_model = \<lparr>mr_provider = ''p'', mr_id = ''m''\<rparr>,
     rq_context = \<lparr>cx_systemPrompt = None, cx_messages = []\<rparr>, rq_tools = [demo_read],
     rq_subagentRun = False, rq_maxTurns = Some 2, rq_toolTurnBudget = None,
     rq_toolExecution = Some Parallel, rq_transformContext = None, rq_reviewFinal = None,
     rq_beforeComplete = None, rq_hasSignal = False\<rparr>"

definition demo_run :: "(thrown, agent_run_result option) result \<times> demo_world run_state" where
  "demo_run = start 6 demo_env demo_request new_control None \<lparr>dw_calls = 0, dw_time = 0\<rparr>"

text \<open>
  Evaluation by the simplifier: a computation is rewritten at its head only, once it is applied to
  a state, so that continuations are left alone until their turn.
\<close>

lemma seq_weak_cong: "m = m' \<Longrightarrow> seq m f = seq m' f"
  by simp

lemma seq_app: "seq m f s = (case m s of (Inl e, s') \<Rightarrow> (Inl e, s') | (Inr x, s') \<Rightarrow> f x s')"
  by (simp add: seq_def)

lemma run_apps:
  "ret x s = (Inr x, s)" "throw e s = (Inl e, s)" "gets f s = (Inr (f s), s)"
  "lift_result r s = (r, s)" "attempt m s = (case m s of (r, s') \<Rightarrow> (Inr r, s'))"
  "modify_locals g s = (Inr (), s\<lparr>st_locals := g (st_locals s)\<rparr>)"
  "set_allow_repair b s = (Inr (), s\<lparr>st_allowRepairTurn := b\<rparr>)"
  "host_calls cs s = (Inr (), fold apply_ctl cs s)"
  "awaiting h s = (case h (st_world s) of (x, cs, w) \<Rightarrow> (Inr x, fold apply_ctl cs (s\<lparr>st_world := w\<rparr>)))"
  "reading k s = (case k (st_world s) of (x, w) \<Rightarrow> (Inr x, s\<lparr>st_world := w\<rparr>))"
  "check_thrown None = ret ()" "check_thrown (Some e) = throw e"
  by (simp_all add: run_defs check_thrown_def awaiting_def reading_def)

lemma emit_app:
  "emit env rq body s = (case en_clock env (st_world s) of (t, w) \<Rightarrow>
     let full = \<lparr>ev_runId = rq_runId rq, ev_sequence = Suc (st_sequence s), ev_timestamp = t, ev_body = body\<rparr> in
     case en_sink env full w of (r1, cs1, w1) \<Rightarrow>
     let s1 = fold apply_ctl cs1 (s\<lparr>st_sequence := Suc (st_sequence s), st_world := w1\<rparr>) in
     case r1 of Some e \<Rightarrow> (Inl e, s1) | None \<Rightarrow>
     case en_observer env full (st_world s1) of (r2, cs2, w2) \<Rightarrow>
     let s2 = fold apply_ctl cs2 (s1\<lparr>st_world := w2\<rparr>) in
     case r2 of Some e \<Rightarrow> (Inl e, s2) | None \<Rightarrow> (Inr (), s2\<lparr>st_events := st_events s2 @ [full]\<rparr>))"
  by (simp add: emit_def seq_def next_sequence_def reading_def awaiting_def check_thrown_def queue_push_def
      run_defs Let_def split: prod.splits option.splits)

lemma run_loop_numeral:
  "run_loop (numeral k) env rq t0 =
     seq (gets (loop_condition rq)) (\<lambda>go.
     if go then seq (turn_body env rq t0) (\<lambda>out.
       case out of Finish r \<Rightarrow> ret (Some r) | NextTurn \<Rightarrow> run_loop (pred_numeral k) env rq t0)
     else throw (ThrownRunError (max_turns_error rq)))"
  by (simp add: numeral_eq_Suc)

lemmas run_eval = seq_app run_apps emit_app run_loop_numeral setStatus_def start_def execute_run_def
  run_guarded_def run_prologue_def run_rescue_def turn_body_def turn_rest_def call_model_def
  settle_message_def final_turn_def late_steering_def complete_run_def run_result_def tool_turn_def
  after_tools_def consult_def callback_def empty_final_def reject_final_def final_message_def
  prepare_turn_def transformed_context_def synthesis_only_def current_context_def begin_turn_def
  loop_condition_def under_max_def max_turns_def max_turns_error_def executeTools_def all_parallel_def
  tool_named_def execute_call_def settle_phase_def finish_call.simps or_threw_def emit_failed_def
  toToolMessage_def error_result_def infer_def infer_from.simps streamAttempt_def attempt_settled_def
  fresh_attempt_def INFERENCE_MAX_ATTEMPTS_def coreError_def normalizeError_def throwIfAborted_def
  signal_aborted_def drain_def seal_def accept_steering_def push_messages_def mark_work_def
  initial_state_def initial_locals_def control_defs steer_opt_def
  List.map_filter_simps addUsage_def
  Let_def js_trim_def is_js_space_def js_join.simps

lemma demo_env_simps:
  "en_stream demo_env = demo_stream" "en_sink demo_env = (\<lambda>_ w. (None, [], w))"
  "en_observer demo_env = (\<lambda>_ w. (None, [], w))" "en_clock demo_env = demo_tick"
  "en_now demo_env = demo_tick" "en_beforeTool demo_env = None" "en_afterTool demo_env = None"
  "en_retryWait demo_env = (\<lambda>_ w. ((), [], w))" "en_toolSchedule demo_env = (\<lambda>_. [0, 1, 1, 0])"
  by (simp_all add: demo_env_def)

lemma demo_request_simps:
  "rq_runId demo_request = ''r''" "rq_budgetScope demo_request = None"
  "rq_model demo_request = \<lparr>mr_provider = ''p'', mr_id = ''m''\<rparr>"
  "rq_context demo_request = \<lparr>cx_systemPrompt = None, cx_messages = []\<rparr>"
  "rq_tools demo_request = [demo_read]" "rq_subagentRun demo_request = False"
  "rq_maxTurns demo_request = Some 2" "rq_toolTurnBudget demo_request = None"
  "rq_toolExecution demo_request = Some Parallel" "rq_transformContext demo_request = None"
  "rq_reviewFinal demo_request = None" "rq_beforeComplete demo_request = None"
  "rq_hasSignal demo_request = False"
  by (simp_all add: demo_request_def)

lemma demo_data_simps:
  "tc_id demo_call_a = ''a''" "tc_id demo_call_b = ''b''"
  "tc_name demo_call_a = ''r''" "tc_name demo_call_b = ''r''"
  "tc_arguments demo_call_a = JNull" "tc_arguments demo_call_b = JNull"
  "tool_calls_of demo_tools_message = [demo_call_a, demo_call_b]" "text_of demo_tools_message = []"
  "tool_calls_of demo_answer = []" "text_of demo_answer = ''done''"
  "am_usage demo_answer = None" "am_usage demo_tools_message = None"
  "rs_content demo_result = TCText ''text''" "rs_isError demo_result = None"
  "ie_code demo_error = IE_rate_limit" "ie_message demo_error = ''slow down''" "ie_retryable demo_error"
  by (simp_all add: demo_call_a_def demo_call_b_def demo_call_def demo_tools_message_def demo_message_def
      demo_answer_def demo_result_def demo_error_def tool_calls_of_def text_of_def List.map_filter_simps)

lemma demo_read_simps:
  "at_name demo_read = ''r''" "at_executionMode demo_read = None"
  "at_execute demo_read = (\<lambda>_ _ w. (([([], None)], Inr demo_result), [], w))"
  by (simp_all add: demo_read_def)

lemmas demo_defs = demo_env_simps demo_request_simps demo_data_simps demo_read_simps demo_tick_def
  demo_stream_def

lemma demo_run_completes:
  "case demo_run of (Inr (Some x), s) \<Rightarrow> ar_status x = Completed \<and> ar_turns x = 2
     \<and> heard_steering s = [demo_steer] | _ \<Rightarrow> False"
  by (simp add: demo_run_def run_eval demo_defs heard_steering_def cong: seq_weak_cong)

lemma demo_run_value:
  obtains x s where "demo_run = (Inr (Some x), s)" and "ar_status x = Completed" and "ar_turns x = 2"
    and "heard_steering s = [demo_steer]"
  using demo_run_completes by (auto split: prod.splits sum.splits option.splits)

lemma demo_max_turns: "max_turns demo_request = Some 2"
  by (simp add: max_turns_def demo_request_simps)

section \<open>Properties\<close>

text \<open>
  C1: a run with a turn bound \<open>n\<close> ends: \<open>n + 4\<close> rounds of the loop always suffice, at most three
  repair turns are added to the bound whatever the model, the tools, the hooks and the host do, and
  more fuel changes nothing.
\<close>

theorem start_terminates:
  assumes "max_turns rq = Some n" and "nat n + 3 < fuel"
  shows "fst (start fuel env rq c aborted w) \<noteq> Inr None
    \<and> st_turns (snd (start fuel env rq c aborted w)) \<le> nat n + 3
    \<and> (\<forall>fuel'. fuel \<le> fuel' \<longrightarrow> start fuel' env rq c aborted w = start fuel env rq c aborted w)"
proof -
  let ?s = "initial_state rq c aborted w"
  obtain r s' where run: "execute_run fuel env rq ?s = (r, s')" by fastforce
  have "counters_ok n ?s" by (simp add: counters_ok_def initial_state_def)
  from execute_run_bounded [OF assms(1) this assms(2) run]
  have "r \<noteq> Inr None" "st_turns s' \<le> nat n + 3" by (auto simp: counters_ok_def)
  then show ?thesis
    using run execute_run_more_fuel [OF run] by (simp add: start_def)
qed

theorem start_terminates_witness:
  "fst demo_run \<noteq> Inr None \<and> st_turns (snd demo_run) \<le> 5"
proof -
  have "nat 2 + 3 < (6::nat)" "nat 2 + 3 = (5::nat)" by simp_all
  with start_terminates [OF demo_max_turns, of 6 demo_env new_control None "\<lparr>dw_calls = 0, dw_time = 0\<rparr>"]
  show ?thesis unfolding demo_run_def by metis
qed



text \<open>
  C3: a completed run has heard everything it was told: the messages queued before it and those
  accepted while it ran are exactly the ones it announced, in order, and the handle now refuses
  every further message.
\<close>

theorem start_hears_all_steering:
  assumes "start fuel env rq c aborted w = (Inr (Some x), s')" and "ar_status x = Completed"
  shows "heard_steering s' = steering c @ accepted_steering s'
    \<and> (\<forall>m. steer_opt m (st_control s') = None)"
proof -
  obtain t0 t where "run_loop fuel env rq t0 t = (Inr (Some x), s')" "conserves_steering (steering c) t"
    using start_completed_split [OF assms] .
  from run_loop_hears [OF this(2,1)] have led: "conserves_steering (steering c) s'" and shut: "shut s'" by auto
  have "steer_opt m (st_control s') = None" for m
    using shut by (cases "steer_opt m (st_control s')") (auto simp: steer_opt_Some_iff shut_def)
  with led shut show ?thesis by (simp add: steering_ledger_def shut_def)
qed

theorem start_hears_all_steering_witness:
  "\<exists>x s. demo_run = (Inr (Some x), s) \<and> accepted_steering s = [demo_steer]"
proof (rule demo_run_value)
  fix x s
  assume d: "demo_run = (Inr (Some x), s)" "ar_status x = Completed"
    "heard_steering s = [demo_steer]"
  from start_hears_all_steering [OF d(1) [unfolded demo_run_def] d(2)] d(1,3) show ?thesis
    by (auto simp: new_control_def)
qed



text \<open>
  C5: a turn whose message calls tools appends to the transcript one result per call, in the
  order of the calls and under their ids and names, and logs each call as started once and as
  completed or failed once, in sequential mode and under every schedule of parallel mode.
\<close>

theorem tool_turn_answers_calls:
  assumes "tool_turn env rq m False s = (Inr out, s')"
  shows "out = NextTurn
    \<and> (\<exists>results. lc_messages (st_locals s') = lc_messages (st_locals s) @ map ToolResultMsg results
         \<and> list_all2 answers (tool_calls_of m) results)
    \<and> started_calls s' = started_calls s + mset (tool_calls_of m)
    \<and> finished_calls s' = finished_calls s + mset (tool_calls_of m)"
  using tool_turn_transcript [OF assms] by (simp add: call_log_def)

definition demo_start :: "demo_world run_state" where
  "demo_start = initial_state demo_request new_control None \<lparr>dw_calls = 0, dw_time = 0\<rparr>"

lemma demo_tool_turn:
  "case tool_turn demo_env demo_request demo_tools_message False demo_start of
     (Inr out, s) \<Rightarrow> length (lc_messages (st_locals s)) = 2 | _ \<Rightarrow> False"
  by (simp add: demo_start_def run_eval demo_defs cong: seq_weak_cong)

theorem tool_turn_answers_calls_witness:
  "\<exists>out s. tool_turn demo_env demo_request demo_tools_message False demo_start = (Inr out, s)
     \<and> finished_calls s = {#demo_call_a, demo_call_b#}"
proof -
  obtain out s where run: "tool_turn demo_env demo_request demo_tools_message False demo_start = (Inr out, s)"
    using demo_tool_turn by (auto split: prod.splits sum.splits)
  have "finished_calls demo_start = {#}"
    by (simp add: finished_calls_def demo_start_def initial_state_def List.map_filter_simps)
  then show ?thesis using tool_turn_answers_calls [OF run] run by (auto simp: demo_data_simps)
qed

text \<open>
  C6: the model is called at most \<open>INFERENCE_MAX_ATTEMPTS\<close> times in a turn; every attempt before the
  last failed with a retryable error and showed the client nothing, so all content events of the
  turn come from the last attempt, and that attempt is not one the code would retry.
\<close>

theorem infer_retries_silently:
  assumes "infer env rq ir s = (Inr as, s')"
  shows "as \<noteq> [] \<and> length as \<le> INFERENCE_MAX_ATTEMPTS \<and> list_all quiet_retry (butlast as)
    \<and> attempt_settled (length as) (last as)
    \<and> (\<exists>t. content_log t = content_log s \<and> streamAttempt env rq ir t = (Inr (last as), s'))"
  using infer_from_attempts [OF assms [unfolded infer_def]] by (simp add: INFERENCE_MAX_ATTEMPTS_def)

definition demo_inference :: inference_request where
  "demo_inference = \<lparr>ir_model = \<lparr>mr_provider = ''p'', mr_id = ''m''\<rparr>, ir_systemPrompt = None,
     ir_messages = [], ir_tools = []\<rparr>"

lemma demo_infer:
  "case infer demo_env demo_request demo_inference (demo_start\<lparr>st_world := \<lparr>dw_calls = 1, dw_time = 0\<rparr>\<rparr>) of
     (Inr as, s) \<Rightarrow> length as = 2 \<and> content_log s = [MessageTextDelta 0 0 []] | _ \<Rightarrow> False"
  by (simp add: demo_start_def run_eval demo_defs content_log_def cong: seq_weak_cong)

theorem infer_retries_silently_witness:
  "\<exists>as s. infer demo_env demo_request demo_inference (demo_start\<lparr>st_world := \<lparr>dw_calls = 1, dw_time = 0\<rparr>\<rparr>)
       = (Inr as, s) \<and> length as = 2 \<and> list_all quiet_retry (butlast as)"
proof -
  obtain as s where run: "infer demo_env demo_request demo_inference
      (demo_start\<lparr>st_world := \<lparr>dw_calls = 1, dw_time = 0\<rparr>\<rparr>) = (Inr as, s)" and len: "length as = 2"
    using demo_infer by (auto split: prod.splits sum.splits)
  with infer_retries_silently [OF run] show ?thesis by blast
qed

text \<open>
  A run that is cancelled before it starts never reaches the model: its whole log is the
  cancelled status and the terminal event, and its result has no turn.
\<close>

theorem start_cancelled:
  assumes "control_aborted c" and "start fuel env rq c aborted w = (Inr (Some x), s')"
  shows "ar_status x = Cancelled \<and> ar_turns x = 0
    \<and> ar_error x = Some (coreError RE_aborted ''Agent run was cancelled'' False)
    \<and> map ev_body (st_events s') = [RunState Cancelled, RunCancelled x]"
proof -
  let ?s = "initial_state rq c aborted w"
  obtain t0 v where t: "reading (en_clock env) ?s = (Inr t0, ?s\<lparr>st_world := v\<rparr>)"
    by (cases "en_clock env (st_world ?s)") (simp add: reading_def)
  define err where "err = coreError RE_aborted ''Agent run was cancelled'' False"
  have ab: "signal_aborted rq (?s\<lparr>st_world := v\<rparr>)"
    using assms(1) by (simp add: signal_aborted_def initial_state_def)
  then have "run_guarded fuel env rq t0 (?s\<lparr>st_world := v\<rparr>) = (Inl (ThrownRunError err), ?s\<lparr>st_world := v\<rparr>)"
    by (simp add: run_guarded_def run_prologue_def throwIfAborted_def run_defs err_def)
  with assms(2) t have rescue: "run_rescue env rq t0 (ThrownRunError err) (?s\<lparr>st_world := v\<rparr>) = (Inr (Some x), s')"
    by (simp add: start_def execute_run_def seq_def attempt_def)
  have code: "er_code err = RE_aborted" by (simp add: err_def coreError_def)
  have rerr: "rescue_error rq (ThrownRunError err) (?s\<lparr>st_world := v\<rparr>) = err"
    using ab by (simp add: rescue_error_def normalizeError_def err_def)
  have ends: "ar_error x = Some err" "ar_status x = Cancelled" "ar_turns x = st_turns s'" "ends_with_result x s'"
    using run_rescue_ends [OF rescue] by (auto simp: rerr code)
  have "same_counters (?s\<lparr>st_world := v\<rparr>) s'" using counters.stays_run_rescue rescue by (rule counters.staysD)
  then have turns: "st_turns s' = 0" by (simp add: same_counters_def initial_state_def)
  have "length (st_events s') = 2"
    using rescue by (auto simp: run_rescue_def Let_def setStatus_def seq_Inr_iff gets_def ret_def
        initial_state_def dest!: emit_effect(6) run_result_Inr(7))
  with ends turns show ?thesis
    by (auto simp: ends_with_result_def terminal_event_def err_def)
qed

theorem start_cancelled_witness:
  "\<exists>x s. start 1 demo_env demo_request (cancel ''stop'' new_control) None \<lparr>dw_calls = 0, dw_time = 0\<rparr>
       = (Inr (Some x), s) \<and> ar_turns x = 0"
proof -
  let ?c = "cancel ''stop'' new_control" and ?w = "\<lparr>dw_calls = 0, dw_time = 0\<rparr>"
  have "case start 1 demo_env demo_request ?c None ?w of (Inr (Some x), s) \<Rightarrow> True | _ \<Rightarrow> False"
    by (simp add: run_eval demo_defs cong: seq_weak_cong)
  then obtain x s where run: "start 1 demo_env demo_request ?c None ?w = (Inr (Some x), s)"
    by (auto split: prod.splits sum.splits option.splits)
  have "control_aborted ?c" by (simp add: control_defs)
  from start_cancelled [OF this run] run show ?thesis by blast
qed

end
