(* ===== verification/Calendar.thy ===== *)
theory Calendar
  imports Prelude
begin

text \<open>
  Calendar arithmetic: the parts of the JavaScript \<open>Date\<close> object the schedule code uses, and the
  zoned readings of \<^verbatim>\<open>packages/protocol/src/cron.ts\<close> (\<open>zonedParts\<close>, \<open>zonedEpoch\<close>, \<open>zoneOffset\<close>) and
  \<open>daysInMonth\<close> of \<^verbatim>\<open>apps/desktop/src/main/scheduler/time.ts\<close>.

  Instants are milliseconds since 1970 (\<^typ>\<open>int\<close>).  The time-zone database is not part of the
  program: \<open>off t\<close>, the offset of a zone from UTC at instant \<open>t\<close>, is an argument.  Years are
  proleptic Gregorian.  \<open>Date.UTC\<close> reads the years 0 to 99 as 1900 to 1999; the model does too.
\<close>

section \<open>Days and dates\<close>

text \<open>A date with its month counted from 0, as \<open>Date\<close> counts it.\<close>

record date =
  dt_year :: int
  dt_month :: int
  dt_day :: int

text \<open>
  Days since 1 March of year 0 for the first day of the March-based year \<open>y\<close>, and the day of that
  year on which its month \<open>mp\<close> (0 is March) begins.
\<close>

definition march_year_start :: "int \<Rightarrow> int" where
  "march_year_start y = 365 * y + y div 4 - y div 100 + y div 400"

definition march_month_start :: "int \<Rightarrow> int" where
  "march_month_start mp = (153 * mp + 2) div 5"

definition EPOCH_DAY :: int where "EPOCH_DAY = 719468"

text \<open>Days since 1970-01-01, with the month normalised into the year (\<open>MakeDay\<close> of ECMAScript).\<close>

definition make_day :: "int \<Rightarrow> int \<Rightarrow> int \<Rightarrow> int" where
  "make_day year month day =
     (let y = year + month div 12; m = month mod 12 in
      march_year_start (if m < 2 then y - 1 else y) + march_month_start ((m + 10) mod 12)
        + day - 1 - EPOCH_DAY)"

text \<open>The March-based year a day belongs to, by 400-, 100-, 4- and 1-year cycles.\<close>

definition march_year :: "int \<Rightarrow> int" where
  "march_year n =
     (let era = n div 146097; doe = n mod 146097;
          c = min 3 (doe div 36524); doc = doe - c * 36524;
          q = doc div 1461; doq = doc - q * 1461;
          yq = min 3 (doq div 365) in
      400 * era + 100 * c + 4 * q + yq)"

definition march_month :: "int \<Rightarrow> int" where
  "march_month doy = (5 * doy + 2) div 153"

definition date_of_day :: "int \<Rightarrow> date" where
  "date_of_day d =
     (let n = d + EPOCH_DAY; y = march_year n; doy = n - march_year_start y; mp = march_month doy in
      \<lparr>dt_year = (if mp < 10 then y else y + 1), dt_month = (mp + 2) mod 12,
       dt_day = doy - march_month_start mp + 1\<rparr>)"

text \<open>\<open>getUTCDay\<close>: 1970-01-01 was a Thursday, day 4 of a week that begins on Sunday.\<close>

definition week_day :: "int \<Rightarrow> int" where
  "week_day d = (d + 4) mod 7"

definition is_leap :: "int \<Rightarrow> bool" where
  "is_leap y \<longleftrightarrow> y mod 4 = 0 \<and> (y mod 100 \<noteq> 0 \<or> y mod 400 = 0)"

text \<open>The length of the month, from the calendar.\<close>

definition month_length :: "int \<Rightarrow> int \<Rightarrow> int" where
  "month_length y m = (if m = 1 then (if is_leap y then 29 else 28)
     else if m \<in> {3, 5, 8, 10} then 30 else 31)"

definition valid_date :: "date \<Rightarrow> bool" where
  "valid_date x \<longleftrightarrow> 0 \<le> dt_month x \<and> dt_month x < 12 \<and> 1 \<le> dt_day x
     \<and> dt_day x \<le> month_length (dt_year x) (dt_month x)"

section \<open>Dates and day numbers determine each other\<close>

lemma div_Suc_int:
  assumes "0 < k"
  shows "(y + 1 :: int) div k = y div k + (if (y + 1) mod k = 0 then 1 else 0)"
proof (cases "y mod k = k - 1")
  case True
  have "k * (y div k) + (k - 1) = y" using mult_div_mod_eq [of k y] True by metis
  then have "y + 1 = k * (y div k + 1) + 0" by (simp add: distrib_left)
  then have "(y + 1) div k = y div k + 1" "(y + 1) mod k = 0"
    using assms int_div_pos_eq [of "y + 1" k "y div k + 1" 0] int_mod_pos_eq [of "y + 1" k "y div k + 1" 0]
    by simp_all
  then show ?thesis by simp
next
  case False
  have lt: "0 \<le> y mod k" "y mod k + 1 < k" using assms False pos_mod_bound [of k y] by (simp, linarith)
  have "y + 1 = k * (y div k) + (y mod k + 1)" by simp
  then have "(y + 1) div k = y div k" "(y + 1) mod k = y mod k + 1"
    using lt int_div_pos_eq [of "y + 1" k "y div k" "y mod k + 1"]
      int_mod_pos_eq [of "y + 1" k "y div k" "y mod k + 1"] by simp_all
  then show ?thesis using lt by simp
qed

lemma leap_dvd: "is_leap y \<longleftrightarrow> 4 dvd y \<and> (\<not> 100 dvd y \<or> 400 dvd y)"
  by (simp add: is_leap_def dvd_eq_mod_eq_0)

lemma march_year_start_Suc:
  "march_year_start (y + 1) = march_year_start y + (if is_leap (y + 1) then 366 else 365)"
proof -
  have sum: "365 * (y + 1) + a' - b' + c' = 365 * y + a - b + c + (if P \<and> (\<not> Q \<or> R) then 366 else 365)"
    if "a' = a + (if P then 1 else 0)" "b' = b + (if Q then 1 else 0)" "c' = c + (if R then 1 else 0)"
      "R \<Longrightarrow> Q" "Q \<Longrightarrow> P" for a b c a' b' c' :: int and P Q R
    using that(1-3) that(4,5) by (cases P; cases Q; cases R) simp_all
  have step: "(y + 1) div k = y div k + (if k dvd y + 1 then 1 else 0)" if "0 < k" for k
    using div_Suc_int [OF that, of y] by (simp only: dvd_eq_mod_eq_0)
  have d100: "100 dvd y + 1" if "400 dvd y + 1"
  proof -
    from that obtain k where "y + 1 = 400 * k" ..
    then have "y + 1 = 100 * (4 * k)" by linarith
    then show ?thesis ..
  qed
  have d4: "4 dvd y + 1" if "100 dvd y + 1"
  proof -
    from that obtain k where "y + 1 = 100 * k" ..
    then have "y + 1 = 4 * (25 * k)" by linarith
    then show ?thesis ..
  qed
  have "(0::int) < 4" "(0::int) < 100" "(0::int) < 400" by simp_all
  note steps = step [OF this(1)] step [OF this(2)] step [OF this(3)]
  show ?thesis
    unfolding march_year_start_def leap_dvd by (rule sum [OF steps d100 d4])
qed

lemma march_year_start_less: "y < y' \<Longrightarrow> march_year_start (y + 1) \<le> march_year_start y'"
proof -
  have "march_year_start (y + 1) \<le> march_year_start (y + 1 + int k)" for k
  proof (induction k)
    case 0
    then show ?case by simp
  next
    case (Suc k)
    with march_year_start_Suc [of "y + 1 + int k"] show ?case by (simp add: algebra_simps split: if_splits)
  qed
  from this [of "nat (y' - y - 1)"] show "y < y' \<Longrightarrow> ?thesis" by simp
qed

text \<open>The cycles of a day number.\<close>

lemma march_year_cycles:
  obtains e c q yq r where "march_year n = 400 * e + 100 * c + 4 * q + yq"
    "n = 146097 * e + 36524 * c + 1461 * q + 365 * yq + r"
    "0 \<le> c" "c \<le> 3" "0 \<le> q" "q \<le> 24" "0 \<le> yq" "yq \<le> 3" "0 \<le> r"
    "r \<le> 364 \<or> (r = 365 \<and> yq = 3 \<and> (q \<noteq> 24 \<or> c = 3))"
proof -
  define e where "e = n div 146097"
  define doe where "doe = n mod 146097"
  define c where "c = min 3 (doe div 36524)"
  define doc where "doc = doe - c * 36524"
  define q where "q = doc div 1461"
  define doq where "doq = doc - q * 1461"
  define yq where "yq = min 3 (doq div 365)"
  have doe: "0 \<le> doe" "doe \<le> 146096" "n = 146097 * e + doe" unfolding doe_def e_def by simp_all
  have c: "0 \<le> c" "c \<le> 3" "0 \<le> doc" "doc \<le> 36523 \<or> (c = 3 \<and> doc \<le> 36524)"
  proof -
    define k where "k = doe div 36524"
    have "36524 * k \<le> doe" "doe < 36524 * k + 36524" "0 \<le> k"
      using doe(1) unfolding k_def by (auto simp: pos_imp_zdiv_nonneg_iff)
    then show "0 \<le> c" "c \<le> 3" "0 \<le> doc" "doc \<le> 36523 \<or> (c = 3 \<and> doc \<le> 36524)"
      using doe(2) unfolding doc_def c_def k_def [symmetric] min_def by (auto split: if_splits)
  qed
  have q: "0 \<le> q" "0 \<le> doq" "doq \<le> 1460" "doc = 1461 * q + doq"
    using c(3) unfolding doq_def q_def
    by (simp_all add: pos_imp_zdiv_nonneg_iff minus_div_mult_eq_mod)
  have q24: "q \<le> 24" using c(4) q by linarith
  have yq: "0 \<le> yq" "yq \<le> 3" "0 \<le> doq - 365 * yq" "doq - 365 * yq \<le> 364 \<or> (doq = 1460 \<and> yq = 3)"
  proof -
    define k where "k = doq div 365"
    have "365 * k \<le> doq" "doq < 365 * k + 365" "0 \<le> k"
      using q(2) unfolding k_def by (auto simp: pos_imp_zdiv_nonneg_iff)
    then show "0 \<le> yq" "yq \<le> 3" "0 \<le> doq - 365 * yq" "doq - 365 * yq \<le> 364 \<or> (doq = 1460 \<and> yq = 3)"
      using q(3) unfolding yq_def k_def [symmetric] min_def by (auto split: if_splits)
  qed
  have "march_year n = 400 * e + 100 * c + 4 * q + yq"
    unfolding march_year_def Let_def e_def yq_def doq_def q_def doc_def c_def doe_def by simp
  moreover have "n = 146097 * e + 36524 * c + 1461 * q + 365 * yq + (doq - 365 * yq)"
    using doe(3) q(4) doc_def by linarith
  moreover have "doq - 365 * yq \<le> 364 \<or> (doq - 365 * yq = 365 \<and> yq = 3 \<and> (q \<noteq> 24 \<or> c = 3))"
  proof (cases "doq - 365 * yq \<le> 364")
    case False
    with yq(4) have "doq = 1460" "yq = 3" by auto
    moreover have "c = 3" if "q = 24" using c(4) q(4) that \<open>doq = 1460\<close> by auto
    ultimately show ?thesis by auto
  qed simp
  ultimately show thesis using that c(1,2) q(1) q24 yq(1-3) by blast
qed

lemma march_year_start_cycles:
  assumes "0 \<le> c" "c \<le> 3" "0 \<le> q" "q \<le> 24" "0 \<le> yq" "yq \<le> 3"
  shows "march_year_start (400 * e + 100 * c + 4 * q + yq) = 146097 * e + 36524 * c + 1461 * q + 365 * yq"
proof -
  let ?y = "400 * e + 100 * c + 4 * q + yq"
  have "?y div 400 = e" "?y div 100 = 4 * e + c" "?y div 4 = 100 * e + 25 * c + q"
    using assms by (intro int_div_pos_eq [where r = "100 * c + 4 * q + yq"] int_div_pos_eq [where r = "4 * q + yq"]
        int_div_pos_eq [where r = yq]; simp)+
  then show ?thesis by (simp add: march_year_start_def)
qed

lemma march_year_bounds:
  "march_year_start (march_year n) \<le> n \<and> n < march_year_start (march_year n + 1)"
proof -
  obtain e c q yq r where y: "march_year n = 400 * e + 100 * c + 4 * q + yq"
    and n: "n = 146097 * e + 36524 * c + 1461 * q + 365 * yq + r"
    and b: "0 \<le> c" "c \<le> 3" "0 \<le> q" "q \<le> 24" "0 \<le> yq" "yq \<le> 3" "0 \<le> r"
    and r: "r \<le> 364 \<or> (r = 365 \<and> yq = 3 \<and> (q \<noteq> 24 \<or> c = 3))"
    by (rule march_year_cycles)
  have s: "march_year_start (march_year n) = 146097 * e + 36524 * c + 1461 * q + 365 * yq"
    using march_year_start_cycles [OF b(1-6)] y by simp
  have "is_leap (march_year n + 1)" if "r = 365"
  proof -
    from r that have "yq = 3" "q \<noteq> 24 \<or> c = 3" by auto
    then have eq: "march_year n + 1 = 100 * (4 * e + c) + 4 * (q + 1)"
      "q = 24 \<longrightarrow> march_year n + 1 = 400 * (e + 1)" using y by auto
    have "\<not> 100 dvd march_year n + 1" if "q \<noteq> 24"
    proof -
      have "\<not> 100 dvd 4 * (q + 1)" using that b(3,4) by (intro zdvd_not_zless) auto
      then show ?thesis unfolding eq(1) by (metis dvd_add_right_iff dvd_triv_left)
    qed
    moreover have "4 dvd march_year n + 1" unfolding eq(1) by simp
    moreover have "400 dvd march_year n + 1" if "q = 24" using eq(2) that by simp
    ultimately show ?thesis unfolding leap_dvd by blast
  qed
  then show ?thesis using s n b(7) r march_year_start_Suc [of "march_year n"] by auto
qed

lemma march_year_unique:
  assumes "march_year_start y \<le> n" and "n < march_year_start (y + 1)"
  shows "march_year n = y"
proof -
  have "\<not> march_year n < y" "\<not> y < march_year n"
    using march_year_start_less [of "march_year n" y] march_year_start_less [of y "march_year n"]
      march_year_bounds [of n] assms by auto
  then show ?thesis by simp
qed

lemma march_month_bounds:
  assumes "0 \<le> doy" and "doy \<le> 365"
  shows "0 \<le> march_month doy" and "march_month doy \<le> 11"
    and "march_month_start (march_month doy) \<le> doy"
    and "doy < march_month_start (march_month doy + 1)"
proof -
  define k where "k = march_month doy"
  have k: "153 * k \<le> 5 * doy + 2" "5 * doy + 2 < 153 * k + 153"
    unfolding k_def march_month_def by auto
  show "0 \<le> march_month doy" "march_month doy \<le> 11" using k assms by (fold k_def) auto
  have "5 * march_month_start k \<le> 153 * k + 2" "153 * (k + 1) + 2 < 5 * march_month_start (k + 1) + 5"
    unfolding march_month_start_def by auto
  then show "march_month_start (march_month doy) \<le> doy" "doy < march_month_start (march_month doy + 1)"
    using k by (fold k_def) auto
qed

text \<open>Every day number is the number of its date.\<close>

lemma make_day_date_of_day:
  "make_day (dt_year (date_of_day d)) (dt_month (date_of_day d)) (dt_day (date_of_day d)) = d"
proof -
  define n where "n = d + EPOCH_DAY"
  define y where "y = march_year n"
  define doy where "doy = n - march_year_start y"
  define mp where "mp = march_month doy"
  have doy: "0 \<le> doy" "doy \<le> 365"
    using march_year_bounds [of n] march_year_start_Suc [of y] unfolding doy_def y_def
    by (auto split: if_splits)
  have mp: "0 \<le> mp" "mp \<le> 11" using march_month_bounds(1,2) [OF doy] unfolding mp_def .
  have date: "date_of_day d = \<lparr>dt_year = (if mp < 10 then y else y + 1), dt_month = (mp + 2) mod 12,
       dt_day = doy - march_month_start mp + 1\<rparr>"
    unfolding date_of_day_def Let_def n_def [symmetric] y_def [symmetric] doy_def [symmetric] mp_def [symmetric] ..
  have m: "(mp + 2) mod 12 = (if mp < 10 then mp + 2 else mp - 10)" "((mp + 2) mod 12 + 10) mod 12 = mp"
    using mp by (auto simp: mod_pos_pos_trivial) presburger+
  show ?thesis
    unfolding date make_day_def Let_def date.simps using m mp
    by (auto simp: n_def doy_def)
qed

lemma leap_next: "march_year_start (y + 1) - march_year_start y = 337 + month_length (y + 1) 1"
  using march_year_start_Suc [of y] by (simp add: month_length_def split: if_splits)

lemma month_cases:
  assumes "0 \<le> m" and "m < (12 :: int)"
  shows "m \<in> {0, 1, 2, 3, 4, 5, 6, 7, 8, 9, 10, 11}"
  using assms unfolding insert_iff empty_iff by presburger

text \<open>The months of a March-based year tile it.\<close>

lemma march_month_length:
  assumes "0 \<le> m" and "m < 12" and "m \<noteq> 1"
  shows "march_month_start ((m + 10) mod 12 + 1) - march_month_start ((m + 10) mod 12) = month_length y m"
proof -
  have "m \<in> {0, 1, 2, 3, 4, 5, 6, 7, 8, 9, 10, 11}" using month_cases assms by blast
  with assms(3) show ?thesis by (auto simp: march_month_start_def month_length_def)
qed

lemma march_month_unique:
  assumes "0 \<le> mp" "mp \<le> 11" "march_month_start mp \<le> doy" "doy < march_month_start (mp + 1)"
  shows "march_month doy = mp"
proof -
  have "mp \<in> {0, 1, 2, 3, 4, 5, 6, 7, 8, 9, 10, 11}" using month_cases [of mp] assms(1,2) by simp
  then have "153 * mp \<le> 5 * doy + 2 \<and> 5 * doy + 2 < 153 * mp + 153"
    using assms(3,4) by (auto simp: march_month_start_def)
  then show ?thesis
    unfolding march_month_def by (intro int_div_pos_eq [where r = "5 * doy + 2 - 153 * mp"]) auto
qed

lemma month_length_range: "28 \<le> month_length y m" "month_length y m \<le> 31"
  by (auto simp: month_length_def)

text \<open>A valid date is a day of a March-based year and a month of it.\<close>

lemma valid_date_march:
  assumes "0 \<le> m" "m < 12" "1 \<le> d" "d \<le> month_length y m"
  defines "y' \<equiv> if m < 2 then y - 1 else y" and "mp \<equiv> (m + 10) mod 12"
  defines "doy \<equiv> march_month_start mp + d - 1"
  shows "0 \<le> mp" "mp \<le> 11" "march_month doy = mp" "0 \<le> doy"
    and "doy < march_year_start (y' + 1) - march_year_start y'"
proof -
  show mp: "0 \<le> mp" "mp \<le> 11" unfolding mp_def by simp_all
  have ml: "march_month_start (mp + 1) - march_month_start mp \<ge> month_length y m"
    "march_month_start 11 = 337"
  proof (cases "m = 1")
    case True
    then show "march_month_start (mp + 1) - march_month_start mp \<ge> month_length y m"
      using month_length_range(2) [of y m] by (simp add: mp_def march_month_start_def month_length_def)
  next
    case False
    then show "march_month_start (mp + 1) - march_month_start mp \<ge> month_length y m"
      using march_month_length [OF assms(1,2)] unfolding mp_def by simp
  qed (simp add: march_month_start_def)
  have start0: "0 \<le> march_month_start mp"
    using mp unfolding march_month_start_def by (simp add: pos_imp_zdiv_nonneg_iff)
  show "march_month doy = mp"
    using march_month_unique [OF mp] ml assms(3,4) unfolding doy_def by simp
  show "0 \<le> doy" using start0 assms(3) unfolding doy_def by simp
  have "doy < 337 + month_length (y' + 1) 1"
  proof (cases "m = 1")
    case True
    then show ?thesis using assms(4) ml(2) unfolding doy_def mp_def y'_def by simp
  next
    case False
    have "mp \<noteq> 11" using False assms(1,2) month_cases [OF assms(1,2)] unfolding mp_def by auto
    then have "5 * march_month_start (mp + 1) \<le> 153 * 11 + 2"
      using mp unfolding march_month_start_def by auto
    then show ?thesis using ml(1) assms(4) month_length_range(1) [of "y' + 1" 1] unfolding doy_def by simp
  qed
  then show "doy < march_year_start (y' + 1) - march_year_start y'" by (simp add: leap_next)
qed

lemma date_of_day_make_day:
  assumes "0 \<le> m" "m < 12" "1 \<le> d" "d \<le> month_length y m"
  shows "date_of_day (make_day y m d) = \<lparr>dt_year = y, dt_month = m, dt_day = d\<rparr>"
proof -
  define y' where "y' = (if m < 2 then y - 1 else y)"
  define mp where "mp = (m + 10) mod 12"
  define doy where "doy = march_month_start mp + d - 1"
  note v = valid_date_march [OF assms, folded mp_def, folded y'_def doy_def]
  have n: "make_day y m d + EPOCH_DAY = march_year_start y' + doy"
    using assms(1,2) by (simp add: make_day_def Let_def y'_def mp_def doy_def)
  have y: "march_year (march_year_start y' + doy) = y'"
    using v(4,5) by (intro march_year_unique) auto
  have "(mp + 2) mod 12 = m" "mp < 10 \<longleftrightarrow> \<not> m < 2"
    using month_cases [OF assms(1,2)] unfolding mp_def by auto
  then show ?thesis
    unfolding date_of_day_def Let_def n y using v(3) by (auto simp: doy_def y'_def)
qed

lemma valid_date_of_day: "valid_date (date_of_day d)"
proof -
  define n where "n = d + EPOCH_DAY"
  define y where "y = march_year n"
  define doy where "doy = n - march_year_start y"
  define mp where "mp = march_month doy"
  have doy: "0 \<le> doy" "doy < march_year_start (y + 1) - march_year_start y"
    using march_year_bounds [of n] unfolding doy_def y_def by auto
  then have doy': "doy \<le> 365" using march_year_start_Suc [of y] by (simp split: if_splits)
  note mb = march_month_bounds [OF doy(1) doy', folded mp_def]
  define m where "m = (mp + 2) mod 12"
  have m: "0 \<le> m" "m < 12" "(m + 10) mod 12 = mp" "m = 1 \<longleftrightarrow> mp = 11"
    using month_cases [OF mb(1)] mb(2) unfolding m_def by auto
  let ?y = "if mp < 10 then y else y + 1"
  have "doy - march_month_start mp + 1 \<le> month_length ?y m"
  proof (cases "mp = 11")
    case True
    then show ?thesis using doy(2) leap_next [of y] m(4) by (simp add: march_month_start_def)
  next
    case False
    with mb(4) march_month_length [OF m(1,2)] m(3,4) show ?thesis by simp
  qed
  moreover have "date_of_day d = \<lparr>dt_year = ?y, dt_month = m, dt_day = doy - march_month_start mp + 1\<rparr>"
    unfolding date_of_day_def Let_def n_def [symmetric] y_def [symmetric] doy_def [symmetric]
      mp_def [symmetric] m_def ..
  ultimately show ?thesis using m mb(3) by (simp add: valid_date_def)
qed

end
