(* ===== verification/Zones.thy ===== *)
theory Zones
  imports Calendar
begin

text \<open>
  Reading an instant in a time zone and finding the instant a zone's clock reads a wall time:
  \<open>zonedParts\<close>, \<open>zoneOffset\<close> and \<open>zonedEpoch\<close> of \<^verbatim>\<open>packages/protocol/src/cron.ts\<close>, and \<open>daysInMonth\<close>
  of \<^verbatim>\<open>apps/desktop/src/main/scheduler/time.ts\<close>.  \<open>off\<close> is the offset of the zone from UTC in
  milliseconds as a function of the instant.  The lemmas show that the two-step guess of \<open>zonedEpoch\<close>
  is right on both sides of a change of the offset, in either direction.
\<close>

section \<open>Definitions\<close>

record wall = date +
  wl_hour :: int
  wl_minute :: int

record zoned = wall +
  wl_weekday :: int

abbreviation MINUTE :: int where "MINUTE \<equiv> 60000"
abbreviation HOUR :: int where "HOUR \<equiv> 3600000"
abbreviation DAY :: int where "DAY \<equiv> 86400000"

text \<open>\<open>Date.UTC\<close> with its reading of the years 0 to 99.\<close>

definition date_UTC :: "int \<Rightarrow> int \<Rightarrow> int \<Rightarrow> int \<Rightarrow> int \<Rightarrow> int" where
  "date_UTC year month day hour minute =
     make_day (if 0 \<le> year \<and> year \<le> 99 then 1900 + year else year) month day * DAY
       + hour * HOUR + minute * MINUTE"

definition zonedParts :: "(int \<Rightarrow> int) \<Rightarrow> int \<Rightarrow> zoned" where
  "zonedParts off t =
     (let local = t + off t; d = local div DAY; ms = local mod DAY; date = date_of_day d in
      \<lparr>dt_year = dt_year date, dt_month = dt_month date, dt_day = dt_day date,
       wl_hour = ms div HOUR, wl_minute = ms mod HOUR div MINUTE, wl_weekday = week_day d\<rparr>)"

definition zoneOffset :: "(int \<Rightarrow> int) \<Rightarrow> int \<Rightarrow> int" where
  "zoneOffset off t =
     (let w = zonedParts off t in
      date_UTC (dt_year w) (dt_month w) (dt_day w) (wl_hour w) (wl_minute w) - t div MINUTE * MINUTE)"

definition zonedEpoch :: "(int \<Rightarrow> int) \<Rightarrow> int \<Rightarrow> int \<Rightarrow> int \<Rightarrow> int \<Rightarrow> int \<Rightarrow> int" where
  "zonedEpoch off year month day hour minute =
     (let naive = date_UTC year month day hour minute;
          guess = naive - zoneOffset off naive in
      naive - zoneOffset off guess)"

definition daysInMonth :: "int \<Rightarrow> int \<Rightarrow> int" where
  "daysInMonth year month = dt_day (date_of_day (date_UTC year (month + 1) 0 0 0 div DAY))"

section \<open>The parts of an instant\<close>

lemma date_of_day_modern:
  assumes "0 \<le> d" shows "1970 \<le> dt_year (date_of_day d)"
proof -
  define n where "n = d + EPOCH_DAY"
  have le: "march_year_start 1969 \<le> n" using assms by (simp add: n_def march_year_start_def EPOCH_DAY_def)
  have "\<not> march_year n < 1969"
    using march_year_start_less [of "march_year n" 1969] march_year_bounds [of n] le by auto
  moreover have "march_month (n - march_year_start 1969) \<ge> 10" if "march_year n = 1969"
    using assms unfolding march_month_def n_def by (simp add: march_year_start_def EPOCH_DAY_def)
  ultimately show ?thesis
    unfolding date_of_day_def Let_def n_def [symmetric] by (cases "march_year n = 1969") auto
qed

text \<open>The parts carry the local time up to the minute.\<close>

lemma date_UTC_zonedParts:
  fixes off t
  defines "w \<equiv> zonedParts off t"
  assumes "0 \<le> t + off t"
  shows "date_UTC (dt_year w) (dt_month w) (dt_day w) (wl_hour w) (wl_minute w) = (t + off t) div MINUTE * MINUTE"
proof -
  define l where "l = t + off t"
  have d: "0 \<le> l div DAY" using assms(2) by (simp add: l_def pos_imp_zdiv_nonneg_iff)
  have "\<not> (0 \<le> dt_year w \<and> dt_year w \<le> 99)"
    using date_of_day_modern [OF d] by (simp add: w_def zonedParts_def Let_def l_def)
  then have "date_UTC (dt_year w) (dt_month w) (dt_day w) (wl_hour w) (wl_minute w)
      = l div DAY * DAY + l mod DAY div HOUR * HOUR + l mod DAY mod HOUR div MINUTE * MINUTE"
    by (auto simp: date_UTC_def w_def zonedParts_def Let_def l_def make_day_date_of_day)
  also have "\<dots> = l div MINUTE * MINUTE"
  proof -
    have "l mod DAY mod HOUR = l mod HOUR" by (intro mod_mod_cancel) simp
    moreover have "l mod HOUR mod MINUTE = l mod MINUTE" by (intro mod_mod_cancel) simp
    moreover have sum: "a + b + c = e" if "a + r = l" "b + u = r" "c + v = u" "e + v = l" for a b c e r u v :: int
      using that by simp
    ultimately show ?thesis
      by (intro sum [of _ "l mod DAY" _ "l mod HOUR" _ "l mod MINUTE"]) (metis div_mult_mod_eq)+
  qed
  finally show ?thesis by (simp add: l_def)
qed

lemma zoneOffset_eq:
  assumes "0 \<le> t + off t" and "MINUTE dvd off t"
  shows "zoneOffset off t = off t"
proof -
  from assms(2) obtain k where k: "off t = MINUTE * k" ..
  have "(t + off t) div MINUTE = t div MINUTE + k" unfolding k by simp
  then show ?thesis
    using date_UTC_zonedParts [of t off, OF assms(1)] k by (simp add: zoneOffset_def Let_def algebra_simps)
qed

lemma zonedParts_minute:
  assumes "(t + off t) div MINUTE = (u + off' u) div MINUTE"
  shows "zonedParts off t = zonedParts off' u"
proof -
  have parts: "l div DAY = l div MINUTE div 1440" "l mod DAY div HOUR = l div MINUTE mod 1440 div 60"
    "l mod DAY mod HOUR div MINUTE = l div MINUTE mod 60" for l :: int
  proof -
    show "l div DAY = l div MINUTE div 1440" by (simp add: zdiv_zmult2_eq [symmetric])
    have m: "l mod DAY = MINUTE * (l div MINUTE mod 1440) + l mod MINUTE"
      using zmod_zmult2_eq [of 1440 l MINUTE] by simp
    have "l mod DAY div HOUR = l mod DAY div MINUTE div 60" by (simp add: zdiv_zmult2_eq [symmetric])
    also have "l mod DAY div MINUTE = l div MINUTE mod 1440" unfolding m by simp
    finally show "l mod DAY div HOUR = l div MINUTE mod 1440 div 60" .
    have "l mod DAY mod HOUR = l mod HOUR" by (intro mod_mod_cancel) simp
    also have "\<dots> = MINUTE * (l div MINUTE mod 60) + l mod MINUTE"
      using zmod_zmult2_eq [of 60 l MINUTE] by simp
    finally show "l mod DAY mod HOUR div MINUTE = l div MINUTE mod 60" by simp
  qed
  show ?thesis unfolding zonedParts_def Let_def parts assms ..
qed

section \<open>Finding the instant of a wall time\<close>

text \<open>
  A zone around one change of its offset: \<open>a\<close> before the instant \<open>T\<close>, \<open>b\<close> from it on.  A zone
  with a constant offset is the case \<open>a = b\<close>.
\<close>

definition shift_zone :: "int \<Rightarrow> int \<Rightarrow> int \<Rightarrow> int \<Rightarrow> int" where
  "shift_zone T a b t = (if t < T then a else b)"

definition plain_offset :: "int \<Rightarrow> bool" where
  "plain_offset a \<longleftrightarrow> MINUTE dvd a \<and> \<bar>a\<bar> \<le> DAY"

lemma shift_zone_plain:
  "plain_offset a \<Longrightarrow> plain_offset b \<Longrightarrow> plain_offset (shift_zone T a b t)"
  by (simp add: shift_zone_def)

lemma zoneOffset_plain:
  assumes "plain_offset (off t)" and "DAY \<le> t"
  shows "zoneOffset off t = off t"
proof (rule zoneOffset_eq)
  show "0 \<le> t + off t" "MINUTE dvd off t" using assms by (auto simp: plain_offset_def)
qed

lemma zonedEpoch_plain:
  assumes "\<And>t. plain_offset (off t)" and "2 * DAY \<le> date_UTC y m d h mi"
  shows "zonedEpoch off y m d h mi =
    date_UTC y m d h mi - off (date_UTC y m d h mi - off (date_UTC y m d h mi))"
proof -
  let ?n = "date_UTC y m d h mi"
  have "zoneOffset off ?n = off ?n" using assms by (intro zoneOffset_plain) auto
  moreover have "DAY \<le> ?n - off ?n" using assms(1) [of ?n] assms(2) by (auto simp: plain_offset_def)
  ultimately show ?thesis
    using zoneOffset_plain [of off "?n - off ?n", OF assms(1)] by (simp add: zonedEpoch_def Let_def)
qed

text \<open>
  The guess settles: for every instant \<open>t\<close>, the wall time read at \<open>t\<close> is read again at the instant
  found for it.  The two instants differ only in an hour that the zone's clock repeats.
\<close>

lemma shift_zone_settles:
  fixes T a b t
  defines "off \<equiv> shift_zone T a b" and "naive \<equiv> t + shift_zone T a b t"
  shows "naive - off (naive - off naive) + off (naive - off (naive - off naive)) = naive"
  by (auto simp: off_def naive_def shift_zone_def)

lemma zonedEpoch_shift:
  assumes "plain_offset a" "plain_offset b" "MINUTE dvd T" "4 * DAY \<le> t"
  defines "w \<equiv> zonedParts (shift_zone T a b) t"
  shows "zonedParts (shift_zone T a b)
     (zonedEpoch (shift_zone T a b) (dt_year w) (dt_month w) (dt_day w) (wl_hour w) (wl_minute w)) = w"
proof -
  let ?off = "shift_zone T a b" and ?m = "t div MINUTE * MINUTE"
  define naive where "naive = date_UTC (dt_year w) (dt_month w) (dt_day w) (wl_hour w) (wl_minute w)"
  have plain: "plain_offset (?off u)" for u by (rule shift_zone_plain [OF assms(1,2)])
  have side: "?off ?m = ?off t"
  proof -
    from assms(3) obtain k where k: "T = MINUTE * k" ..
    have "?m \<le> t" "t < ?m + MINUTE" by auto
    then have "t < T \<longleftrightarrow> ?m < T" unfolding k by auto
    then show ?thesis by (simp add: shift_zone_def)
  qed
  from plain [of t] obtain j where j: "?off t = MINUTE * j" by (auto simp: plain_offset_def)
  have naive: "naive = ?m + ?off ?m"
    using date_UTC_zonedParts [of t ?off] plain [of t] assms(4) j side
    by (auto simp: naive_def w_def plain_offset_def algebra_simps)
  have "t < ?m + MINUTE" by auto
  then have "2 * DAY \<le> naive"
    unfolding naive using plain [of ?m] assms(4) unfolding plain_offset_def by linarith
  then have ep: "zonedEpoch ?off (dt_year w) (dt_month w) (dt_day w) (wl_hour w) (wl_minute w)
      = naive - ?off (naive - ?off naive)"
    unfolding naive_def using plain by (intro zonedEpoch_plain) auto
  have "naive - ?off (naive - ?off naive) + ?off (naive - ?off (naive - ?off naive)) = ?m + ?off ?m"
    unfolding naive by (rule shift_zone_settles)
  then have "zonedParts ?off (naive - ?off (naive - ?off naive)) = zonedParts ?off t"
    using side j by (intro zonedParts_minute) simp
  then show ?thesis unfolding ep by (simp only: w_def)
qed

text \<open>With a constant offset the instant is unique.\<close>

lemma zonedEpoch_fixed:
  assumes "plain_offset c" and "2 * DAY \<le> date_UTC y m d h mi"
  shows "zonedEpoch (\<lambda>_. c) y m d h mi = date_UTC y m d h mi - c"
  using zonedEpoch_plain [of "\<lambda>_. c", OF assms] .

section \<open>The length of a month\<close>

lemma make_day_next_month:
  assumes "0 \<le> m" "m < 12"
  shows "make_day y (m + 1) 0 = make_day y m (month_length y m)"
proof -
  define y' where "y' = (if m < 2 then y - 1 else y)"
  have m: "m \<in> {0, 1, 2, 3, 4, 5, 6, 7, 8, 9, 10, 11}" using month_cases assms by blast
  show ?thesis
  proof (cases "m = 1")
    case True
    then show ?thesis
      using leap_next [of "y - 1"] by (simp add: make_day_def Let_def march_month_start_def)
  next
    case False
    then have step: "march_month_start ((m + 10) mod 12 + 1) = march_month_start ((m + 10) mod 12) + month_length y m"
      using march_month_length [OF assms] by (simp add: algebra_simps)
    have "(m + 1) mod 12 = (if m = 11 then 0 else m + 1)" "(m + 1) div 12 = (if m = 11 then 1 else 0)"
      "((m + 1) mod 12 + 10) mod 12 = (m + 10) mod 12 + 1"
      using m False by auto
    then show ?thesis
      using assms step False by (auto simp: make_day_def Let_def)
  qed
qed

lemma daysInMonth_eq:
  assumes "0 \<le> m" "m < 12" "100 \<le> y"
  shows "daysInMonth y m = month_length y m"
proof -
  have "date_UTC y (m + 1) 0 0 0 div DAY = make_day y (m + 1) 0" using assms(3) by (simp add: date_UTC_def)
  then show ?thesis
    using date_of_day_make_day [OF assms(1,2), of "month_length y m" y] month_length_range [of y m]
    by (simp add: daysInMonth_def make_day_next_month [OF assms(1,2)])
qed

section \<open>Properties\<close>

text \<open>
  C11: around a change of a zone's offset, whatever the two offsets, the instant \<open>zonedEpoch\<close> finds for
  the wall time a clock of the zone shows at some instant shows that same wall time.
\<close>

theorem zonedEpoch_same_wall:
  assumes "plain_offset a" and "plain_offset b" and "MINUTE dvd T" and "4 * DAY \<le> t"
  shows "let w = zonedParts (shift_zone T a b) t in
    zonedParts (shift_zone T a b)
      (zonedEpoch (shift_zone T a b) (dt_year w) (dt_month w) (dt_day w) (wl_hour w) (wl_minute w)) = w"
  using zonedEpoch_shift [OF assms] by (simp add: Let_def)

text \<open>The end of summer time in New York, 2026-11-01 06:00 UTC, half an hour before it.\<close>

theorem zonedEpoch_same_wall_witness:
  "let w = zonedParts (shift_zone 1793512800000 (-14400000) (-18000000)) 1793511000000 in
    zonedParts (shift_zone 1793512800000 (-14400000) (-18000000))
      (zonedEpoch (shift_zone 1793512800000 (-14400000) (-18000000))
         (dt_year w) (dt_month w) (dt_day w) (wl_hour w) (wl_minute w)) = w"
  by (rule zonedEpoch_same_wall) (simp_all add: plain_offset_def)

end
