(* ===== verification/Cron.thy ===== *)
theory Cron
  imports Zones
begin

text \<open>
  Cron expressions: \<^verbatim>\<open>packages/protocol/src/cron.ts\<close>.  The first part parses an expression into sorted
  lists of values; the second walks days, hours and minutes to the next firing.  The lemmas show
  that what is parsed is well formed, what the terms of a field mean, and that in a zone with a
  constant offset the next firing is the first instant after the given one whose wall time the
  expression matches.
\<close>

section \<open>Definitions\<close>

record cron_fields =
  cf_minutes :: "int list"
  cf_hours :: "int list"
  cf_daysOfMonth :: "int list"
  cf_months :: "int list"
  cf_daysOfWeek :: "int list"
  cf_dayUnion :: bool

text \<open>A \<open>CronError\<close>, or the \<open>TypeError\<close> of a property inherited by the table of aliases.\<close>

datatype cron_error = CronError string | CronTypeError

record field_spec =
  fs_min :: int
  fs_max :: int
  fs_names :: "string list"
  fs_label :: string

definition MONTH_NAMES :: "string list" where
  "MONTH_NAMES = [''jan'', ''feb'', ''mar'', ''apr'', ''may'', ''jun'', ''jul'', ''aug'', ''sep'',
     ''oct'', ''nov'', ''dec'']"

definition DAY_NAMES :: "string list" where
  "DAY_NAMES = [''sun'', ''mon'', ''tue'', ''wed'', ''thu'', ''fri'', ''sat'']"

definition ALIASES :: "(string \<times> string) list" where
  "ALIASES = [(''@yearly'', ''0 0 1 1 *''), (''@annually'', ''0 0 1 1 *''), (''@monthly'', ''0 0 1 * *''),
     (''@weekly'', ''0 0 * * 0''), (''@daily'', ''0 0 * * *''), (''@midnight'', ''0 0 * * *''),
     (''@hourly'', ''0 * * * *'')]"

text \<open>The lower-case names an object literal inherits; what they hold is not a string.\<close>

definition inherited_names :: "string list" where
  "inherited_names = [''constructor'', ''__proto__'']"

definition minute_spec :: field_spec where
  "minute_spec = \<lparr>fs_min = 0, fs_max = 59, fs_names = [], fs_label = ''minute''\<rparr>"

definition hour_spec :: field_spec where
  "hour_spec = \<lparr>fs_min = 0, fs_max = 23, fs_names = [], fs_label = ''hour''\<rparr>"

definition day_spec :: field_spec where
  "day_spec = \<lparr>fs_min = 1, fs_max = 31, fs_names = [], fs_label = ''day of month''\<rparr>"

definition month_spec :: field_spec where
  "month_spec = \<lparr>fs_min = 1, fs_max = 12, fs_names = MONTH_NAMES, fs_label = ''month''\<rparr>"

definition weekday_spec :: field_spec where
  "weekday_spec = \<lparr>fs_min = 0, fs_max = 6, fs_names = DAY_NAMES, fs_label = ''day of week''\<rparr>"

lemmas spec_defs = minute_spec_def hour_spec_def day_spec_def month_spec_def weekday_spec_def

definition isUnrestricted :: "string \<Rightarrow> bool" where
  "isUnrestricted field \<longleftrightarrow> field = ''*'' \<or> field = ''?''"

text \<open>\<open>names.indexOf(text)\<close>.\<close>

fun name_index :: "string \<Rightarrow> string list \<Rightarrow> int option" where
  "name_index t [] = None"
| "name_index t (n # ns) = (if n = t then Some 0 else map_option (\<lambda>i. i + 1) (name_index t ns))"

definition readValue :: "string \<Rightarrow> field_spec \<Rightarrow> (cron_error, int) result" where
  "readValue txt spec =
     (case name_index txt (fs_names spec) of
        Some i \<Rightarrow> Inr (i + fs_min spec)
      | None \<Rightarrow>
          if \<not> all_digits txt
          then Inl (CronError (''\"'' @ txt @ ''\" is not a valid '' @ fs_label spec))
          else let v = int (read_nat txt) in
            if fs_label spec = ''day of week'' \<and> v = 7 then Inr 0
            else if v < fs_min spec \<or> fs_max spec < v
            then Inl (CronError (fs_label spec @ '' must be between '' @ show_int (fs_min spec)
                   @ '' and '' @ show_int (fs_max spec)))
            else Inr v)"

text \<open>\<open>for (let value = from; value <= to; value += step)\<close>; the step is at least 1.\<close>

function count_up :: "int \<Rightarrow> int \<Rightarrow> int \<Rightarrow> int list" where
  "count_up from to step = (if from \<le> to \<and> 1 \<le> step then from # count_up (from + step) to step else [])"
  by pat_completeness auto
termination by (relation "measure (\<lambda>(from, to, step). nat (to - from + 1))") auto

declare count_up.simps [simp del]

text \<open>The step of a term, from the text after its slash.\<close>

definition readStep :: "string option \<Rightarrow> field_spec \<Rightarrow> (cron_error, int) result" where
  "readStep stepText spec =
     (case stepText of None \<Rightarrow> Inr 1
      | Some t \<Rightarrow>
          if \<not> all_digits t then Inl (CronError (''Step in the '' @ fs_label spec @ '' must be a whole number''))
          else if read_nat t < 1 then Inl (CronError (''Step in the '' @ fs_label spec @ '' must be at least 1''))
          else Inr (int (read_nat t)))"

definition second_part :: "string list \<Rightarrow> string option" where
  "second_part ps = (case ps of _ # p # _ \<Rightarrow> Some p | _ \<Rightarrow> None)"

text \<open>
  The values of one term.  \<open>readValue(right)\<close> of a range always has a right part, since the range
  contains a dash.
\<close>

definition parseTerm :: "string \<Rightarrow> field_spec \<Rightarrow> (cron_error, int list) result" where
  "parseTerm trm spec =
     (if trm = [] then Inl (CronError (''Empty '' @ fs_label spec @ '' in the expression''))
      else
        let parts = js_split (CHR ''/'') trm; range = hd parts; stepText = second_part parts in
        bind_result (readStep stepText spec) (\<lambda>step.
        if isUnrestricted range then Inr (count_up (fs_min spec) (fs_max spec) step)
        else if CHR ''-'' \<in> set range then
          let ends = js_split (CHR ''-'') range in
          bind_result (readValue (hd ends) spec) (\<lambda>from.
          bind_result (readValue (case second_part ends of Some r \<Rightarrow> r | None \<Rightarrow> []) spec) (\<lambda>to.
          if to < from then Inr (count_up from (fs_max spec) 1 @ count_up (fs_min spec) to 1)
          else Inr (count_up from to step)))
        else
          bind_result (readValue range spec) (\<lambda>from.
          Inr (count_up from (if stepText = None then from else fs_max spec) step))))"

fun parseTerms :: "string list \<Rightarrow> field_spec \<Rightarrow> (cron_error, int list) result" where
  "parseTerms [] spec = Inr []"
| "parseTerms (t # ts) spec =
     bind_result (parseTerm t spec) (\<lambda>vs. bind_result (parseTerms ts spec) (\<lambda>ws. Inr (vs @ ws)))"

definition parseField :: "string \<Rightarrow> field_spec \<Rightarrow> (cron_error, int list) result" where
  "parseField field spec =
     bind_result (parseTerms (js_split (CHR '','') field) spec) (\<lambda>vs.
     let list = sort (remdups vs) in
     if list = [] then Inl (CronError (''Nothing matches in the '' @ fs_label spec)) else Inr list)"

definition parseFields :: "string \<Rightarrow> string \<Rightarrow> string \<Rightarrow> string \<Rightarrow> string \<Rightarrow> (cron_error, cron_fields) result" where
  "parseFields minute hour dayOfMonth month dayOfWeek =
     bind_result (parseField minute minute_spec) (\<lambda>mi.
     bind_result (parseField hour hour_spec) (\<lambda>h.
     bind_result (parseField dayOfMonth day_spec) (\<lambda>d.
     bind_result (parseField month month_spec) (\<lambda>m.
     bind_result (parseField dayOfWeek weekday_spec) (\<lambda>w.
     Inr \<lparr>cf_minutes = mi, cf_hours = h, cf_daysOfMonth = d, cf_months = m, cf_daysOfWeek = w,
          cf_dayUnion = (\<not> isUnrestricted dayOfMonth \<and> \<not> isUnrestricted dayOfWeek)\<rparr>)))))"

definition parseCron :: "string \<Rightarrow> (cron_error, cron_fields) result" where
  "parseCron expression =
     (let trimmed = js_lower (js_trim expression) in
      if trimmed = [] then Inl (CronError ''Enter a cron expression'')
      else if trimmed \<in> set inherited_names then Inl CronTypeError
      else
        let normalised = (case map_of ALIASES trimmed of Some a \<Rightarrow> a | None \<Rightarrow> trimmed);
            parts = js_split_spaces normalised in
        case parts of
          [minute, hour, dayOfMonth, month, dayOfWeek] \<Rightarrow> parseFields minute hour dayOfMonth month dayOfWeek
        | _ \<Rightarrow> Inl (CronError (''A cron expression has five fields (minute hour day-of-month month day-of-week); this has ''
                 @ show_nat (length parts))))"

definition cronIsValid :: "string \<Rightarrow> bool" where
  "cronIsValid expression \<longleftrightarrow> (case parseCron expression of Inl _ \<Rightarrow> False | Inr _ \<Rightarrow> True)"

definition cronError :: "string \<Rightarrow> string option" where
  "cronError expression = (case parseCron expression of Inr _ \<Rightarrow> None
     | Inl (CronError m) \<Rightarrow> Some m | Inl CronTypeError \<Rightarrow> Some ''Invalid cron expression'')"

definition cronMatchesDay :: "cron_fields \<Rightarrow> int \<Rightarrow> int \<Rightarrow> int \<Rightarrow> bool" where
  "cronMatchesDay f month dayOfMonth dayOfWeek \<longleftrightarrow>
     month \<in> set (cf_months f) \<and>
     (let byDate = dayOfMonth \<in> set (cf_daysOfMonth f); byDay = dayOfWeek \<in> set (cf_daysOfWeek f) in
      if cf_dayUnion f then byDate \<or> byDay else byDate \<and> byDay)"

text \<open>The three nested loops, innermost first; each returns the first candidate after \<open>after\<close>.\<close>

fun scan_minutes :: "(int \<Rightarrow> int) \<Rightarrow> date \<Rightarrow> int \<Rightarrow> int \<Rightarrow> int list \<Rightarrow> int option" where
  "scan_minutes off day after hour [] = None"
| "scan_minutes off day after hour (minute # ms) =
     (let candidate = zonedEpoch off (dt_year day) (dt_month day) (dt_day day) hour minute in
      if after < candidate then Some candidate else scan_minutes off day after hour ms)"

fun scan_hours :: "(int \<Rightarrow> int) \<Rightarrow> date \<Rightarrow> int \<Rightarrow> int list \<Rightarrow> int list \<Rightarrow> int option" where
  "scan_hours off day after [] minutes = None"
| "scan_hours off day after (hour # hs) minutes =
     (case scan_minutes off day after hour minutes of Some t \<Rightarrow> Some t
      | None \<Rightarrow> scan_hours off day after hs minutes)"

fun scan_days :: "(int \<Rightarrow> int) \<Rightarrow> cron_fields \<Rightarrow> int \<Rightarrow> int \<Rightarrow> nat \<Rightarrow> int option" where
  "scan_days off f after day 0 = None"
| "scan_days off f after day (Suc n) =
     (let date = date_of_day day in
      case (if cronMatchesDay f (dt_month date + 1) (dt_day date) (week_day day)
            then scan_hours off date after (cf_hours f) (cf_minutes f) else None) of
        Some t \<Rightarrow> Some t | None \<Rightarrow> scan_days off f after (day + 1) n)"

definition CRON_HORIZON :: nat where "CRON_HORIZON = 366 * 5 + 1"

definition nextCronRun :: "(int \<Rightarrow> int) \<Rightarrow> string \<Rightarrow> int \<Rightarrow> (cron_error, int option) result" where
  "nextCronRun off expression after =
     bind_result (parseCron expression) (\<lambda>f.
     let start = zonedParts off after in
     Inr (scan_days off f after (date_UTC (dt_year start) (dt_month start) (dt_day start) 0 0 div DAY) CRON_HORIZON))"

section \<open>What a field parses to\<close>

lemma set_count_up:
  "1 \<le> step \<Longrightarrow> set (count_up from to step) = {x. from \<le> x \<and> x \<le> to \<and> step dvd x - from}"
proof (induction "from" to step rule: count_up.induct)
  case (1 "from" to step)
  show ?case
  proof (cases "from \<le> to")
    case False
    then show ?thesis by (subst count_up.simps) auto
  next
    case True
    have "x = from \<or> (from + step \<le> x \<and> step dvd x - (from + step)) \<longleftrightarrow> from \<le> x \<and> step dvd x - from" for x
    proof
      assume "x = from \<or> (from + step \<le> x \<and> step dvd x - (from + step))"
      then show "from \<le> x \<and> step dvd x - from"
        using 1(2) dvd_add_triv_right_iff [of step "x - from - step"] by (auto simp: diff_diff_eq [symmetric])
    next
      assume a: "from \<le> x \<and> step dvd x - from"
      then have "x - from = 0 \<or> step \<le> x - from" using 1(2) zdvd_imp_le [of step "x - from"] by linarith
      with a show "x = from \<or> (from + step \<le> x \<and> step dvd x - (from + step))"
        by (auto simp: diff_diff_eq [symmetric] intro: dvd_diff)
    qed
    with True 1 show ?thesis by (subst count_up.simps) auto
  qed
qed

definition in_spec :: "field_spec \<Rightarrow> int \<Rightarrow> bool" where
  "in_spec spec v \<longleftrightarrow> fs_min spec \<le> v \<and> v \<le> fs_max spec"

text \<open>The names of a field count up from its minimum and stay within it.\<close>

definition spec_ok :: "field_spec \<Rightarrow> bool" where
  "spec_ok spec \<longleftrightarrow> fs_min spec \<le> fs_max spec \<and>
     fs_min spec + int (length (fs_names spec)) \<le> fs_max spec + 1 \<and>
     (fs_label spec = ''day of week'' \<longrightarrow> in_spec spec 0)"

lemma specs_ok:
  "spec_ok minute_spec" "spec_ok hour_spec" "spec_ok day_spec" "spec_ok month_spec" "spec_ok weekday_spec"
  by (simp_all add: spec_ok_def spec_defs in_spec_def MONTH_NAMES_def DAY_NAMES_def)

lemma name_index_Some: "name_index t ns = Some i \<Longrightarrow> 0 \<le> i \<and> i < int (length ns) \<and> ns ! nat i = t"
proof (induction ns arbitrary: i)
  case (Cons n ns)
  then show ?case by (auto split: if_splits simp: nat_add_distrib)
qed simp

lemma readValue_in_spec: "spec_ok spec \<Longrightarrow> readValue t spec = Inr v \<Longrightarrow> in_spec spec v"
  by (auto simp: readValue_def spec_ok_def in_spec_def Let_def dest!: name_index_Some
      split: option.splits if_splits)

lemma readStep_pos: "readStep t spec = Inr s \<Longrightarrow> 1 \<le> s"
  by (auto simp: readStep_def split: option.splits if_splits)

lemma parseTerm_in_spec:
  assumes "spec_ok spec" and "parseTerm t spec = Inr vs" and "v \<in> set vs"
  shows "in_spec spec v"
  using assms readValue_in_spec [OF assms(1)]
  by (auto simp: parseTerm_def Let_def bind_result_eq_Inr set_count_up in_spec_def
      dest!: readStep_pos split: if_splits) fastforce+

lemma parseTerms_in_spec:
  "spec_ok spec \<Longrightarrow> parseTerms ts spec = Inr vs \<Longrightarrow> v \<in> set vs \<Longrightarrow> in_spec spec v"
  by (induction ts arbitrary: vs) (auto simp: bind_result_eq_Inr dest: parseTerm_in_spec)

text \<open>A list of values as the loops rely on it: increasing, without repetition, in range.\<close>

definition field_ok :: "field_spec \<Rightarrow> int list \<Rightarrow> bool" where
  "field_ok spec vs \<longleftrightarrow> vs \<noteq> [] \<and> sorted_wrt (<) vs \<and> list_all (in_spec spec) vs"

lemma parseField_ok:
  assumes "spec_ok spec" and "parseField t spec = Inr vs"
  shows "field_ok spec vs"
proof -
  from assms(2) obtain ws where ws: "parseTerms (js_split (CHR '','') t) spec = Inr ws"
    "vs = sort (remdups ws)" "vs \<noteq> []"
    by (auto simp: parseField_def bind_result_eq_Inr Let_def split: if_splits)
  have "sorted vs" "distinct vs" by (simp_all add: ws(2))
  then have "sorted_wrt (<) vs" by (simp add: strict_sorted_iff)
  with ws parseTerms_in_spec [OF assms(1) ws(1)] show ?thesis
    by (auto simp: field_ok_def list_all_iff)
qed

definition fields_ok :: "cron_fields \<Rightarrow> bool" where
  "fields_ok f \<longleftrightarrow> field_ok minute_spec (cf_minutes f) \<and> field_ok hour_spec (cf_hours f)
     \<and> field_ok day_spec (cf_daysOfMonth f) \<and> field_ok month_spec (cf_months f)
     \<and> field_ok weekday_spec (cf_daysOfWeek f)"

lemma parseFields_ok: "parseFields mi h d m w = Inr f \<Longrightarrow> fields_ok f"
  by (auto simp: parseFields_def bind_result_eq_Inr fields_ok_def specs_ok dest!: parseField_ok [rotated])

lemma parseCron_fields:
  assumes "parseCron e = Inr f"
  obtains mi h d m w where "parseFields mi h d m w = Inr f"
  using assms by (auto simp: parseCron_def Let_def split: if_splits list.splits)

lemma parseCron_ok: "parseCron e = Inr f \<Longrightarrow> fields_ok f"
  by (auto elim!: parseCron_fields dest: parseFields_ok)

section \<open>Reading back a printed list\<close>

text \<open>A list of values printed with commas.\<close>

definition print_field :: "nat list \<Rightarrow> string" where
  "print_field vs = js_join '','' (map show_nat vs)"

lemma digits_not_char:
  assumes "all_digits s" and "\<not> is_digit c"
  shows "c \<notin> set s"
  using assms by (auto simp: all_digits_def list_all_iff)

lemma punctuation_not_digit: "\<not> is_digit CHR ''/''" "\<not> is_digit CHR '',''" "\<not> is_digit CHR ''-''"
  "\<not> is_digit CHR ''*''" "\<not> is_digit CHR ''?''"
  by (simp_all add: is_digit_def)

lemma name_not_digits:
  "list_all (\<lambda>n. \<not> all_digits n) ns \<Longrightarrow> all_digits s \<Longrightarrow> name_index s ns = None"
  by (induction ns) auto

definition named_plainly :: "field_spec \<Rightarrow> bool" where
  "named_plainly spec \<longleftrightarrow> list_all (\<lambda>n. \<not> all_digits n) (fs_names spec)"

lemma specs_named_plainly:
  "named_plainly minute_spec" "named_plainly hour_spec" "named_plainly day_spec"
  "named_plainly month_spec" "named_plainly weekday_spec"
  by (simp_all add: named_plainly_def spec_defs MONTH_NAMES_def DAY_NAMES_def all_digits_def is_digit_def)

lemma parseTerm_show:
  assumes "named_plainly spec" and "in_spec spec (int n)" and "fs_label spec = ''day of week'' \<Longrightarrow> n \<noteq> 7"
  shows "parseTerm (show_nat n) spec = Inr [int n]"
proof -
  have dig: "all_digits (show_nat n)" by (rule show_nat_digits)
  then have ne: "show_nat n \<noteq> []" by (simp add: all_digits_def)
  note free = digits_not_char [OF dig punctuation_not_digit(1)] digits_not_char [OF dig punctuation_not_digit(3)]
    digits_not_char [OF dig punctuation_not_digit(4)] digits_not_char [OF dig punctuation_not_digit(5)]
  have "\<not> isUnrestricted (show_nat n)" using free(3,4) by (auto simp: isUnrestricted_def)
  moreover have "readValue (show_nat n) spec = Inr (int n)"
    using assms dig name_not_digits [of "fs_names spec"]
    by (auto simp: readValue_def named_plainly_def in_spec_def Let_def)
  moreover have "count_up (int n) (int n) 1 = [int n]"
    by (subst count_up.simps, subst count_up.simps) simp
  ultimately show ?thesis
    using ne free(1,2) by (simp add: parseTerm_def js_split_free second_part_def readStep_def)
qed

lemma parseTerms_show:
  assumes "named_plainly spec" and "\<And>n. n \<in> set ns \<Longrightarrow> in_spec spec (int n)"
    and "fs_label spec = ''day of week'' \<Longrightarrow> 7 \<notin> set ns"
  shows "parseTerms (map show_nat ns) spec = Inr (map int ns)"
  using assms by (induction ns) (auto simp: parseTerm_show)

lemma parseField_print:
  assumes "named_plainly spec" and "ns \<noteq> []" and "\<And>n. n \<in> set ns \<Longrightarrow> in_spec spec (int n)"
    and "fs_label spec = ''day of week'' \<Longrightarrow> 7 \<notin> set ns"
  shows "parseField (print_field ns) spec = Inr (sort (remdups (map int ns)))"
proof -
  have "js_split (CHR '','') (print_field ns) = map show_nat ns"
    unfolding print_field_def
    using assms(2) digits_not_char [OF show_nat_digits punctuation_not_digit(2)]
    by (intro js_split_join) auto
  moreover have "sort (remdups (map int ns)) \<noteq> []"
    using assms(2) by (metis list.map_disc_iff remdups_eq_nil_iff set_empty set_sort)
  ultimately show ?thesis
    using parseTerms_show [of spec ns] assms by (simp add: parseField_def Let_def)
qed

section \<open>The search is a search in a list\<close>

lemma find_app: "List.find P (xs @ ys) = (case List.find P xs of Some x \<Rightarrow> Some x | None \<Rightarrow> List.find P ys)"
  by (induction xs) auto

lemma find_mem: "List.find P xs = Some t \<Longrightarrow> t \<in> set xs \<and> P t"
  by (induction xs) (auto split: if_splits)

lemma find_sorted:
  "sorted_wrt (<) xs \<Longrightarrow> List.find P xs = Some t \<Longrightarrow> u \<in> set xs \<Longrightarrow> P u \<Longrightarrow> t \<le> (u :: int)"
  by (induction xs) (auto split: if_splits)

lemma sorted_concat_map:
  assumes "sorted_wrt (<) xs" and "\<And>x. x \<in> set xs \<Longrightarrow> sorted_wrt (<) (f x)"
    and "\<And>x y a b. x \<in> set xs \<Longrightarrow> y \<in> set xs \<Longrightarrow> x < y \<Longrightarrow> a \<in> set (f x) \<Longrightarrow> b \<in> set (f y) \<Longrightarrow> a < (b :: int)"
  shows "sorted_wrt (<) (concat (map f xs))"
  using assms
proof (induction xs)
  case (Cons x xs)
  have "sorted_wrt (<) (concat (map f xs))"
    using Cons.prems by (intro Cons.IH) (auto intro: Cons.prems(3))
  moreover have "a < b" if "a \<in> set (f x)" "b \<in> set (concat (map f xs))" for a b
    using that Cons.prems(1) Cons.prems(3) [of x _ a b] by auto
  ultimately show ?case using Cons.prems(2) by (auto simp: sorted_wrt_append)
qed simp

definition hour_times :: "(int \<Rightarrow> int) \<Rightarrow> date \<Rightarrow> int list \<Rightarrow> int \<Rightarrow> int list" where
  "hour_times off d minutes hour = map (zonedEpoch off (dt_year d) (dt_month d) (dt_day d) hour) minutes"

definition day_times :: "(int \<Rightarrow> int) \<Rightarrow> cron_fields \<Rightarrow> int \<Rightarrow> int list" where
  "day_times off f day =
     (let date = date_of_day day in
      if cronMatchesDay f (dt_month date + 1) (dt_day date) (week_day day)
      then concat (map (hour_times off date (cf_minutes f)) (cf_hours f)) else [])"

lemma scan_minutes_find:
  "scan_minutes off d after hour ms = List.find (\<lambda>t. after < t) (hour_times off d ms hour)"
  by (induction ms) (auto simp: hour_times_def Let_def)

lemma scan_hours_find:
  "scan_hours off d after hs ms = List.find (\<lambda>t. after < t) (concat (map (hour_times off d ms) hs))"
  by (induction hs) (auto simp: scan_minutes_find find_app split: option.splits)

lemma scan_days_find:
  "scan_days off f after day n =
     List.find (\<lambda>t. after < t) (concat (map (day_times off f) (map (\<lambda>k. day + int k) [0..<n])))"
proof (induction n arbitrary: day)
  case (Suc n)
  have "map (\<lambda>k. day + int k) [0..<Suc n] = day # map (\<lambda>k. (day + 1) + int k) [0..<n]"
    by (simp add: upt_conv_Cons map_Suc_upt [symmetric] comp_def algebra_simps del: upt_Suc)
  then show ?case
    by (simp add: Suc find_app day_times_def scan_hours_find Let_def del: upt_Suc split: option.splits)
qed simp

section \<open>The next firing\<close>

text \<open>Whether the wall clock of a zone reads, on the minute, a time the expression names.\<close>

definition cron_fires :: "(int \<Rightarrow> int) \<Rightarrow> cron_fields \<Rightarrow> int \<Rightarrow> bool" where
  "cron_fires off f t \<longleftrightarrow>
     (let w = zonedParts off t in
      MINUTE dvd t \<and> cronMatchesDay f (dt_month w + 1) (dt_day w) (wl_weekday w)
      \<and> wl_hour w \<in> set (cf_hours f) \<and> wl_minute w \<in> set (cf_minutes f))"

lemma fields_ok_ranges:
  assumes "fields_ok f"
  shows "h \<in> set (cf_hours f) \<Longrightarrow> 0 \<le> h \<and> h \<le> 23" "mi \<in> set (cf_minutes f) \<Longrightarrow> 0 \<le> mi \<and> mi \<le> 59"
    "sorted_wrt (<) (cf_hours f)" "sorted_wrt (<) (cf_minutes f)"
  using assms by (auto simp: fields_ok_def field_ok_def list_all_iff in_spec_def minute_spec_def hour_spec_def)

lemma fixed_candidate:
  assumes "plain_offset c" "2 \<le> day" "0 \<le> h" "0 \<le> mi"
  defines "d \<equiv> date_of_day day"
  shows "zonedEpoch (\<lambda>_. c) (dt_year d) (dt_month d) (dt_day d) h mi = day * DAY + h * HOUR + mi * MINUTE - c"
proof -
  have "1970 \<le> dt_year d" using date_of_day_modern [of day] assms(2) by (simp add: d_def)
  then have utc: "date_UTC (dt_year d) (dt_month d) (dt_day d) h mi = day * DAY + h * HOUR + mi * MINUTE"
    by (simp add: date_UTC_def d_def make_day_date_of_day)
  then show ?thesis using zonedEpoch_fixed [OF assms(1)] assms(2-4) by simp
qed

text \<open>The local reading of a candidate, and the candidate of a reading.\<close>

lemma local_split:
  fixes l :: int
  defines "h \<equiv> l mod DAY div HOUR" and "mi \<equiv> l mod DAY mod HOUR div MINUTE"
  assumes "MINUTE dvd l"
  shows "l = l div DAY * DAY + h * HOUR + mi * MINUTE"
proof -
  from assms(3) obtain k where k: "l = MINUTE * k" ..
  have "HOUR = MINUTE * 60" "DAY = MINUTE * 1440" by simp_all
  then have "l mod DAY = MINUTE * (k mod 1440)" unfolding k by (simp only: mult_mod_right [symmetric])
  then have "l mod DAY mod HOUR = MINUTE * (k mod 1440 mod 60)"
    using \<open>HOUR = MINUTE * 60\<close> by (simp only: mult_mod_right [symmetric])
  then have "mi * MINUTE = l mod DAY mod HOUR" unfolding mi_def by simp
  moreover have sum: "l = a + b + e" if "a + r = l" "b + u = r" "e = u" for a b e r u :: int using that by simp
  ultimately show ?thesis unfolding h_def
    by (intro sum [of _ "l mod DAY" _ "l mod DAY mod HOUR"]) (metis div_mult_mod_eq)+
qed

lemma local_join:
  fixes day h mi :: int
  assumes "0 \<le> h" "h \<le> 23" "0 \<le> mi" "mi \<le> 59"
  defines "l \<equiv> day * DAY + h * HOUR + mi * MINUTE"
  shows "l div DAY = day" "l mod DAY div HOUR = h" "l mod DAY mod HOUR div MINUTE = mi" "MINUTE dvd l"
proof -
  define r where "r = h * HOUR + mi * MINUTE"
  have r: "0 \<le> r" "r < DAY" using assms by (auto simp: r_def)
  have l: "l = DAY * day + r" by (simp add: l_def r_def)
  show "l div DAY = day" using int_div_pos_eq [OF l r] .
  have m: "l mod DAY = r" using int_mod_pos_eq [OF l r] .
  have r': "r = HOUR * h + mi * MINUTE" "0 \<le> mi * MINUTE" "mi * MINUTE < HOUR" using assms by (auto simp: r_def)
  show "l mod DAY div HOUR = h" unfolding m using int_div_pos_eq [OF r'] .
  show "l mod DAY mod HOUR div MINUTE = mi" unfolding m using int_mod_pos_eq [OF r'] by simp
  show "MINUTE dvd l" unfolding l_def by (intro dvd_add dvd_mult) simp_all
qed

lemma day_times_fixed:
  assumes "fields_ok f" "plain_offset c" "2 \<le> day"
  shows "t \<in> set (day_times (\<lambda>_. c) f day) \<longleftrightarrow> cron_fires (\<lambda>_. c) f t \<and> (t + c) div DAY = day"
proof
  assume "t \<in> set (day_times (\<lambda>_. c) f day)"
  then obtain h mi where hm: "h \<in> set (cf_hours f)" "mi \<in> set (cf_minutes f)"
    and m: "cronMatchesDay f (dt_month (date_of_day day) + 1) (dt_day (date_of_day day)) (week_day day)"
    and t: "t = zonedEpoch (\<lambda>_. c) (dt_year (date_of_day day)) (dt_month (date_of_day day)) (dt_day (date_of_day day)) h mi"
    by (auto simp: day_times_def hour_times_def Let_def split: if_splits)
  note r = fields_ok_ranges(1,2) [OF assms(1)]
  have l: "t + c = day * DAY + h * HOUR + mi * MINUTE"
    using fixed_candidate [OF assms(2,3)] r hm t by simp
  have hr: "0 \<le> h" "h \<le> 23" "0 \<le> mi" "mi \<le> 59" using r hm by auto
  note j = local_join [OF hr, of day, folded l]
  have "MINUTE dvd t"
    using j(4) assms(2) dvd_add_left_iff [of MINUTE c t] unfolding plain_offset_def by blast
  then show "cron_fires (\<lambda>_. c) f t \<and> (t + c) div DAY = day"
    unfolding cron_fires_def zonedParts_def Let_def zoned.simps wall.simps date.simps j(1-3)
    using hm m by simp
next
  assume a: "cron_fires (\<lambda>_. c) f t \<and> (t + c) div DAY = day"
  define h where "h = (t + c) mod DAY div HOUR"
  define mi where "mi = (t + c) mod DAY mod HOUR div MINUTE"
  from a have hm: "h \<in> set (cf_hours f)" "mi \<in> set (cf_minutes f)" "MINUTE dvd t"
    and m: "cronMatchesDay f (dt_month (date_of_day day) + 1) (dt_day (date_of_day day)) (week_day day)"
    by (auto simp: cron_fires_def zonedParts_def Let_def h_def mi_def)
  have "MINUTE dvd t + c" using hm(3) assms(2) by (auto simp: plain_offset_def intro: dvd_add)
  from local_split [OF this] a have "t + c = day * DAY + h * HOUR + mi * MINUTE" by (simp add: h_def mi_def)
  moreover have "0 \<le> h" "0 \<le> mi" using fields_ok_ranges(1,2) [OF assms(1)] hm by auto
  ultimately have "t = zonedEpoch (\<lambda>_. c) (dt_year (date_of_day day)) (dt_month (date_of_day day)) (dt_day (date_of_day day)) h mi"
    using fixed_candidate [OF assms(2,3)] by simp
  with hm m show "t \<in> set (day_times (\<lambda>_. c) f day)"
    by (auto simp: day_times_def hour_times_def Let_def)
qed

lemma day_times_sorted:
  assumes "fields_ok f" "plain_offset c" "2 \<le> day"
  shows "sorted_wrt (<) (day_times (\<lambda>_. c) f day)"
proof -
  let ?d = "date_of_day day"
  note r = fields_ok_ranges [OF assms(1)]
  have cand: "zonedEpoch (\<lambda>_. c) (dt_year ?d) (dt_month ?d) (dt_day ?d) h mi = day * DAY + h * HOUR + mi * MINUTE - c"
    if "h \<in> set (cf_hours f)" "mi \<in> set (cf_minutes f)" for h mi
    using fixed_candidate [OF assms(2,3)] r(1,2) that by simp
  have "sorted_wrt (<) (concat (map (hour_times (\<lambda>_. c) ?d (cf_minutes f)) (cf_hours f)))"
  proof (rule sorted_concat_map [OF r(3)])
    fix h assume h: "h \<in> set (cf_hours f)"
    have "hour_times (\<lambda>_. c) ?d (cf_minutes f) h = map (\<lambda>mi. day * DAY + h * HOUR + mi * MINUTE - c) (cf_minutes f)"
      using cand h by (simp add: hour_times_def)
    then show "sorted_wrt (<) (hour_times (\<lambda>_. c) ?d (cf_minutes f) h)"
      using r(4) by (simp add: sorted_wrt_map)
  next
    fix h h' a b
    assume h: "h \<in> set (cf_hours f)" "h' \<in> set (cf_hours f)" "h < h'"
      "a \<in> set (hour_times (\<lambda>_. c) ?d (cf_minutes f) h)" "b \<in> set (hour_times (\<lambda>_. c) ?d (cf_minutes f) h')"
    then obtain x y where "x \<in> set (cf_minutes f)" "y \<in> set (cf_minutes f)"
      "a = day * DAY + h * HOUR + x * MINUTE - c" "b = day * DAY + h' * HOUR + y * MINUTE - c"
      using cand by (auto simp: hour_times_def)
    with r(2) [of x] r(2) [of y] h(3) show "a < b" by simp
  qed
  then show ?thesis by (simp add: day_times_def Let_def)
qed

lemma scan_days_fixed:
  assumes "fields_ok f" "plain_offset c" "2 \<le> day"
  shows "case scan_days (\<lambda>_. c) f after day n of
      Some t \<Rightarrow> after < t \<and> cron_fires (\<lambda>_. c) f t
        \<and> (\<forall>u. after < u \<longrightarrow> day \<le> (u + c) div DAY \<longrightarrow> cron_fires (\<lambda>_. c) f u \<longrightarrow> t \<le> u)
    | None \<Rightarrow> (\<forall>u. after < u \<longrightarrow> day \<le> (u + c) div DAY \<longrightarrow> (u + c) div DAY < day + int n \<longrightarrow> \<not> cron_fires (\<lambda>_. c) f u)"
proof -
  let ?ds = "map (\<lambda>k. day + int k) [0..<n]"
  let ?ts = "concat (map (day_times (\<lambda>_. c) f) ?ds)"
  have mem: "u \<in> set ?ts \<longleftrightarrow> cron_fires (\<lambda>_. c) f u \<and> day \<le> (u + c) div DAY \<and> (u + c) div DAY < day + int n" for u
  proof -
    have ds: "set ?ds = {d. day \<le> d \<and> d < day + int n}"
      by (auto simp: image_iff intro!: bexI [of _ "nat (x - day)" for x])
    have "u \<in> set ?ts \<longleftrightarrow> (\<exists>d\<in>set ?ds. u \<in> set (day_times (\<lambda>_. c) f d))" by auto
    also have "\<dots> \<longleftrightarrow> (\<exists>d. day \<le> d \<and> d < day + int n \<and> u \<in> set (day_times (\<lambda>_. c) f d))"
      unfolding ds by blast
    also have "\<dots> \<longleftrightarrow> (\<exists>d. day \<le> d \<and> d < day + int n \<and> cron_fires (\<lambda>_. c) f u \<and> (u + c) div DAY = d)"
      using day_times_fixed [OF assms(1,2) order_trans [OF assms(3)]] by blast
    finally show ?thesis by blast
  qed
  have sorted: "sorted_wrt (<) ?ts"
  proof (rule sorted_concat_map)
    show "sorted_wrt (<) ?ds" by (simp add: sorted_wrt_map)
    show "sorted_wrt (<) (day_times (\<lambda>_. c) f d)" if "d \<in> set ?ds" for d
      using that assms(3) by (intro day_times_sorted [OF assms(1,2)]) auto
    show "a < b" if "x \<in> set ?ds" "y \<in> set ?ds" "x < y" "a \<in> set (day_times (\<lambda>_. c) f x)"
      "b \<in> set (day_times (\<lambda>_. c) f y)" for x y a b
    proof (rule ccontr)
      assume "\<not> a < b"
      then have "(b + c) div DAY \<le> (a + c) div DAY" by (intro zdiv_mono1) auto
      moreover have "(a + c) div DAY = x" "(b + c) div DAY = y"
        using day_times_fixed [OF assms(1,2)] that assms(3) by auto
      ultimately show False using that(3) by simp
    qed
  qed
  show ?thesis
  proof (cases "List.find (\<lambda>t. after < t) ?ts")
    case None
    then have "\<forall>u\<in>set ?ts. \<not> after < u" by (simp only: find_None_iff) blast
    then have "\<not> cron_fires (\<lambda>_. c) f u" if "after < u" "day \<le> (u + c) div DAY" "(u + c) div DAY < day + int n" for u
      using mem [of u] that by blast
    with None show ?thesis unfolding scan_days_find by simp
  next
    case (Some t)
    from find_mem [OF this] have t: "t \<in> set ?ts" "after < t" by blast+
    have "t \<le> u" if "after < u" "day \<le> (u + c) div DAY" "cron_fires (\<lambda>_. c) f u" for u
    proof (rule ccontr)
      assume "\<not> t \<le> u"
      then have "(u + c) div DAY \<le> (t + c) div DAY" by (intro zdiv_mono1) auto
      then have "u \<in> set ?ts" using that mem [of u] mem [of t] t by auto
      with find_sorted [OF sorted Some this] that \<open>\<not> t \<le> u\<close> show False by simp
    qed
    with Some t mem show ?thesis unfolding scan_days_find by simp
  qed
qed

lemma scan_days_after: "scan_days off f after day n = Some t \<Longrightarrow> after < t"
  unfolding scan_days_find using find_mem by fast

lemma nextCronRun_after: "nextCronRun off e after = Inr (Some t) \<Longrightarrow> after < t"
  by (auto simp: nextCronRun_def bind_result_eq_Inr Let_def dest: scan_days_after)

text \<open>The day the search starts on.\<close>

lemma start_day:
  assumes "0 \<le> t + off t"
  defines "w \<equiv> zonedParts off t"
  shows "date_UTC (dt_year w) (dt_month w) (dt_day w) 0 0 div DAY = (t + off t) div DAY"
proof -
  have "0 \<le> (t + off t) div DAY" using assms(1) by (simp add: pos_imp_zdiv_nonneg_iff)
  from date_of_day_modern [OF this] show ?thesis
    by (simp add: w_def zonedParts_def Let_def date_UTC_def make_day_date_of_day)
qed

lemma nextCronRun_fixed:
  assumes "nextCronRun (\<lambda>_. c) e after = Inr r" "plain_offset c" "4 * DAY \<le> after"
  shows "\<exists>f. parseCron e = Inr f \<and> (case r of
      Some t \<Rightarrow> after < t \<and> cron_fires (\<lambda>_. c) f t \<and> (\<forall>u. after < u \<longrightarrow> cron_fires (\<lambda>_. c) f u \<longrightarrow> t \<le> u)
    | None \<Rightarrow> (\<forall>u. after < u \<longrightarrow> u \<le> after + 366 * 5 * DAY \<longrightarrow> \<not> cron_fires (\<lambda>_. c) f u))"
proof -
  let ?day = "(after + c) div DAY"
  have c: "\<bar>c\<bar> \<le> DAY" using assms(2) by (simp add: plain_offset_def)
  then have day: "2 \<le> ?day" using assms(3) zdiv_mono1 [of "2 * DAY" "after + c" DAY] by simp
  from assms(1) obtain f where f: "parseCron e = Inr f"
    and r: "r = scan_days (\<lambda>_. c) f after ?day CRON_HORIZON"
    using start_day [of after "\<lambda>_. c"] c assms(3)
    by (auto simp: nextCronRun_def bind_result_eq_Inr Let_def)
  have mono: "?day \<le> (u + c) div DAY" if "after < u" for u using that by (intro zdiv_mono1) auto
  have far: "(u + c) div DAY < ?day + int CRON_HORIZON" if "u \<le> after + 366 * 5 * DAY" for u
  proof -
    have "(u + c) div DAY \<le> (after + c + 366 * 5 * DAY) div DAY" using that by (intro zdiv_mono1) auto
    also have "\<dots> = ?day + 366 * 5" by (simp add: div_plus_div_distrib_dvd_right)
    finally show ?thesis by (simp add: CRON_HORIZON_def)
  qed
  show ?thesis
    using scan_days_fixed [OF parseCron_ok [OF f] assms(2) day, of after CRON_HORIZON] f mono far
    unfolding r [symmetric] by (auto split: option.splits)
qed

section \<open>Properties\<close>

text \<open>
  C8: an expression that parses is valid and without an error message, and each of its five lists
  of values is non-empty, strictly increasing and within the bounds of its field, which is what the
  search for the next run relies on.
\<close>

theorem parseCron_wellformed:
  assumes "parseCron e = Inr f"
  shows "fields_ok f \<and> cronIsValid e \<and> cronError e = None"
  using assms parseCron_ok by (simp add: cronIsValid_def cronError_def)

definition demo_cron :: string where
  "demo_cron = ''*/15 9-17 * * Mon-Fri''"

definition demo_cron_fields :: cron_fields where
  "demo_cron_fields = \<lparr>cf_minutes = [0, 15, 30, 45], cf_hours = [9..17],
     cf_daysOfMonth = [1..31], cf_months = [1..12], cf_daysOfWeek = [1..5], cf_dayUnion = False\<rparr>"

lemma demo_cron_parses: "parseCron demo_cron = Inr demo_cron_fields"
  by code_simp

theorem parseCron_wellformed_witness:
  "parseCron demo_cron = Inr demo_cron_fields \<and> fields_ok demo_cron_fields"
  using parseCron_wellformed [OF demo_cron_parses] demo_cron_parses by simp

text \<open>
  C9: a field printed as a list of values separated by commas is read back as those values, sorted
  and without repetition, for each of the five fields.
\<close>

theorem parseField_reads_back:
  assumes "spec \<in> {minute_spec, hour_spec, day_spec, month_spec, weekday_spec}" and "ns \<noteq> []"
    and "list_all (\<lambda>n. in_spec spec (int n)) ns"
  shows "parseField (print_field ns) spec = Inr (sort (remdups (map int ns)))"
proof (rule parseField_print)
  show "named_plainly spec" using assms(1) specs_named_plainly by blast
  show "in_spec spec (int n)" if "n \<in> set ns" for n using assms(3) that by (simp add: list_all_iff)
  show "7 \<notin> set ns" if "fs_label spec = ''day of week''"
  proof
    assume "7 \<in> set ns"
    then have "in_spec spec 7" using assms(3) by (auto simp: list_all_iff)
    with that assms(1) show False by (auto simp: spec_defs in_spec_def)
  qed
qed (rule assms(2))

theorem parseField_reads_back_witness:
  "parseField (print_field [45, 5, 45]) minute_spec = Inr [5, 45]"
  using parseField_reads_back [of minute_spec "[45, 5, 45]"] by (simp add: in_spec_def minute_spec_def)

text \<open>
  C10: in a zone with a constant offset the next run of an expression is an instant after the given
  one, on the minute, whose local date and time the expression matches, and no earlier one is; when
  the search finds nothing, no instant of the next five years matches.
\<close>

theorem nextCronRun_first:
  assumes "nextCronRun (\<lambda>_. c) e after = Inr r" and "plain_offset c" and "4 * DAY \<le> after"
  shows "\<exists>f. parseCron e = Inr f \<and> (case r of
      Some t \<Rightarrow> after < t \<and> cron_fires (\<lambda>_. c) f t \<and> (\<forall>u. after < u \<longrightarrow> cron_fires (\<lambda>_. c) f u \<longrightarrow> t \<le> u)
    | None \<Rightarrow> (\<forall>u. after < u \<longrightarrow> u \<le> after + 366 * 5 * DAY \<longrightarrow> \<not> cron_fires (\<lambda>_. c) f u))"
  using nextCronRun_fixed [OF assms] .

text \<open>Friday 2 January 2026, 17:50 UTC, to Monday, 09:00.\<close>

lemma demo_cron_next: "nextCronRun (\<lambda>_. 0) demo_cron 1767376200000 = Inr (Some 1767603600000)"
  by code_simp

theorem nextCronRun_first_witness:
  "nextCronRun (\<lambda>_. 0) demo_cron 1767376200000 = Inr (Some 1767603600000)
   \<and> cron_fires (\<lambda>_. 0) demo_cron_fields 1767603600000
   \<and> \<not> cron_fires (\<lambda>_. 0) demo_cron_fields 1767603540000"
proof -
  have "plain_offset 0" by (simp add: plain_offset_def)
  from nextCronRun_first [OF demo_cron_next this] demo_cron_parses
  have "cron_fires (\<lambda>_. 0) demo_cron_fields 1767603600000 \<and>
      (cron_fires (\<lambda>_. 0) demo_cron_fields 1767603540000 \<longrightarrow> (1767603600000 :: int) \<le> 1767603540000)"
    by (auto simp del: numeral_le_iff)
  then show ?thesis using demo_cron_next by simp
qed

end
