(* ===== verification/ScheduleTime.thy ===== *)
theory ScheduleTime
  imports Cron
begin

text \<open>
  When a schedule next comes round: \<^verbatim>\<open>apps/desktop/src/main/scheduler/time.ts\<close>, with the frequencies of
  \<^verbatim>\<open>packages/protocol/src/types.ts\<close>.  The parameters \<open>tz\<close> (a zone's offset at an instant) and
  \<open>here\<close> (the host's zone) stand for the time-zone database and the host.  Numbers are exact
  rationals; dates and days are integers.
\<close>

section \<open>Definitions\<close>

type_synonym zone_db = "string \<Rightarrow> int \<Rightarrow> int"

datatype frequency =
    Once int "string option"  \<comment> \<open>at, timeZone\<close>
  | Hourly "rat option" "rat option" "string option"  \<comment> \<open>interval, minute\<close>
  | Daily "rat option" string "string option"  \<comment> \<open>interval, time\<close>
  | Weekly "rat option" "int list" string "string option"  \<comment> \<open>interval, days, time\<close>
  | Monthly "rat option" int string "string option"  \<comment> \<open>interval, dayOfMonth, time\<close>
  | Yearly "rat option" int int string "string option"  \<comment> \<open>interval, month, dayOfMonth, time\<close>
  | CronExpr string "string option"

fun timeZone :: "frequency \<Rightarrow> string option" where
  "timeZone (Once _ z) = z"
| "timeZone (Hourly _ _ z) = z"
| "timeZone (Daily _ _ z) = z"
| "timeZone (Weekly _ _ _ z) = z"
| "timeZone (Monthly _ _ _ z) = z"
| "timeZone (Yearly _ _ _ _ z) = z"
| "timeZone (CronExpr _ z) = z"

fun interval :: "frequency \<Rightarrow> rat option" where
  "interval (Hourly i _ _) = i"
| "interval (Daily i _ _) = i"
| "interval (Weekly i _ _ _) = i"
| "interval (Monthly i _ _ _) = i"
| "interval (Yearly i _ _ _ _) = i"
| "interval _ = None"

text \<open>
  \<open>Number(text)\<close>, where \<open>None\<close> is a value that is not finite: decimal literals with a fraction and an
  exponent, and the prefixed binary, octal and hexadecimal ones.
\<close>

definition split_at_first :: "(char \<Rightarrow> bool) \<Rightarrow> string \<Rightarrow> string \<times> string option" where
  "split_at_first p s = (case dropWhile (\<lambda>c. \<not> p c) s of [] \<Rightarrow> (s, None)
     | _ # rest \<Rightarrow> (takeWhile (\<lambda>c. \<not> p c) s, Some rest))"

definition signed :: "string \<Rightarrow> bool \<times> string" where
  "signed s = (case s of c # rest \<Rightarrow> if c = CHR ''-'' then (True, rest)
       else if c = CHR ''+'' then (False, rest) else (False, s) | [] \<Rightarrow> (False, []))"

definition decimal_mantissa :: "string \<Rightarrow> rat option" where
  "decimal_mantissa s =
     (case split_at_first (\<lambda>c. c = CHR ''.'') s of
        (i, None) \<Rightarrow> if all_digits i then Some (of_nat (read_nat i)) else None
      | (i, Some f) \<Rightarrow> if list_all is_digit i \<and> list_all is_digit f \<and> (i \<noteq> [] \<or> f \<noteq> [])
          then Some (of_nat (read_nat i) + of_nat (read_nat f) / 10 ^ length f) else None)"

definition decimal_exponent :: "string option \<Rightarrow> rat option" where
  "decimal_exponent e = (case e of None \<Rightarrow> Some 1
     | Some x \<Rightarrow> (case signed x of (neg, d) \<Rightarrow>
         if \<not> all_digits d then None
         else Some (if neg then 1 / 10 ^ read_nat d else 10 ^ read_nat d)))"

definition radix_digit :: "char \<Rightarrow> nat" where
  "radix_digit c = (let n = of_char (js_lower_char c) :: nat in
     if is_digit c then n - 48 else if 97 \<le> n \<and> n \<le> 102 then n - 87 else 99)"

definition radix_number :: "nat \<Rightarrow> string \<Rightarrow> rat option" where
  "radix_number r ds = (if ds \<noteq> [] \<and> list_all (\<lambda>c. radix_digit c < r) ds
     then Some (of_nat (foldl (\<lambda>n c. r * n + radix_digit c) 0 ds)) else None)"

definition decimal_number :: "string \<Rightarrow> rat option" where
  "decimal_number s =
     (case signed s of (neg, u) \<Rightarrow>
      case split_at_first (\<lambda>c. c = CHR ''e'' \<or> c = CHR ''E'') u of (m, e) \<Rightarrow>
      case decimal_mantissa m of None \<Rightarrow> None
      | Some x \<Rightarrow> (case decimal_exponent e of None \<Rightarrow> None
         | Some y \<Rightarrow> if x * y < 2 ^ 1024 then Some (if neg then - (x * y) else x * y) else None))"

definition js_number :: "string \<Rightarrow> rat option" where
  "js_number text =
     (case js_trim text of
        [] \<Rightarrow> Some 0
      | CHR ''0'' # c # ds \<Rightarrow>
          if c \<in> {CHR ''x'', CHR ''X''} then radix_number 16 ds
          else if c \<in> {CHR ''o'', CHR ''O''} then radix_number 8 ds
          else if c \<in> {CHR ''b'', CHR ''B''} then radix_number 2 ds
          else decimal_number (js_trim text)
      | _ \<Rightarrow> decimal_number (js_trim text))"

text \<open>\<open>Math.trunc\<close>.\<close>

definition js_trunc :: "rat \<Rightarrow> int" where
  "js_trunc x = (if 0 \<le> x then \<lfloor>x\<rfloor> else \<lceil>x\<rceil>)"

definition clamp :: "int \<Rightarrow> int \<Rightarrow> int" where
  "clamp hi x = min hi (max 0 x)"

definition time_part :: "int \<Rightarrow> string option \<Rightarrow> int" where
  "time_part hi p = (case p of None \<Rightarrow> 0 | Some t \<Rightarrow>
     (case js_number t of None \<Rightarrow> 0 | Some x \<Rightarrow> clamp hi (js_trunc x)))"

definition timeOfDay :: "string \<Rightarrow> int \<times> int" where
  "timeOfDay time = (let ps = js_split (CHR '':'') time in
     (time_part 23 (Some (hd ps)), time_part 59 (second_part ps)))"

definition intervalOf :: "frequency \<Rightarrow> int" where
  "intervalOf f = (case f of Once _ _ \<Rightarrow> 1 | CronExpr _ _ \<Rightarrow> 1
     | _ \<Rightarrow> max 1 (js_round (case interval f of None \<Rightarrow> 1 | Some i \<Rightarrow> i)))"

text \<open>Days between two dates; the quotient of two midnights is exact, so rounding does nothing.\<close>

definition daysBetween :: "int \<Rightarrow> int \<Rightarrow> int \<Rightarrow> int \<Rightarrow> int \<Rightarrow> int \<Rightarrow> int" where
  "daysBetween y m d y' m' d' = (date_UTC y' m' d' 0 0 - date_UTC y m d 0 0) div DAY"

definition monthsBetween :: "int \<Rightarrow> int \<Rightarrow> int \<Rightarrow> int \<Rightarrow> int" where
  "monthsBetween y m y' m' = (y' - y) * 12 + (m' - m)"

text \<open>
  The search loops of \<open>nextRunAfter\<close>: \<open>n\<close> steps from step \<open>k\<close> on, where a step either is skipped
  (\<open>None\<close>) or has a candidate; the first candidate after \<open>after\<close> is returned.
\<close>

fun first_after :: "int \<Rightarrow> (int \<Rightarrow> int option) \<Rightarrow> int \<Rightarrow> nat \<Rightarrow> int option" where
  "first_after after cand k 0 = None"
| "first_after after cand k (Suc n) =
     (case cand k of None \<Rightarrow> first_after after cand (k + 1) n
      | Some t \<Rightarrow> if after < t then Some t else first_after after cand (k + 1) n)"

definition hourly_base :: "rat option \<Rightarrow> int \<Rightarrow> int" where
  "hourly_base minute anchor = anchor div HOUR * HOUR
     + clamp 59 (js_round (case minute of None \<Rightarrow> 0 | Some m \<Rightarrow> m)) * MINUTE"

definition hourly_run :: "int \<Rightarrow> rat option \<Rightarrow> int \<Rightarrow> int \<Rightarrow> int" where
  "hourly_run i minute after anchor =
     (let base = hourly_base minute anchor;
          steps = max 0 (- ((base - after) div (i * HOUR)));
          candidate = base + steps * i * HOUR in
      if after < candidate then candidate else candidate + i * HOUR)"

text \<open>One day of the daily and the weekly search.\<close>

definition on_day :: "(int \<Rightarrow> int) \<Rightarrow> (date \<Rightarrow> int \<Rightarrow> bool) \<Rightarrow> int \<times> int \<Rightarrow> int \<Rightarrow> int option" where
  "on_day off wanted hm day =
     (let date = date_of_day day in
      if wanted date day then Some (zonedEpoch off (dt_year date) (dt_month date) (dt_day date) (fst hm) (snd hm))
      else None)"

definition day_search :: "(int \<Rightarrow> int) \<Rightarrow> (date \<Rightarrow> int \<Rightarrow> bool) \<Rightarrow> int \<times> int \<Rightarrow> int \<Rightarrow> int \<Rightarrow> int option" where
  "day_search off wanted hm i after =
     (let w = zonedParts off after;
          start = date_UTC (dt_year w) (dt_month w) (dt_day w) 0 0 div DAY in
      first_after after (on_day off wanted hm) start (nat (i * 7 + 9)))"

definition daily_wanted :: "zoned \<Rightarrow> int \<Rightarrow> date \<Rightarrow> int \<Rightarrow> bool" where
  "daily_wanted a i d day \<longleftrightarrow>
     js_rem (daysBetween (dt_year a) (dt_month a) (dt_day a) (dt_year d) (dt_month d) (dt_day d)) i = 0"

definition weekly_wanted :: "zoned \<Rightarrow> int \<Rightarrow> int list \<Rightarrow> date \<Rightarrow> int \<Rightarrow> bool" where
  "weekly_wanted a i days d day \<longleftrightarrow> week_day day \<in> set days \<and>
     js_rem ((daysBetween (dt_year a) (dt_month a) (dt_day a) (dt_year d) (dt_month d) (dt_day d)
        + wl_weekday a) div 7) i = 0"

definition in_month :: "(int \<Rightarrow> int) \<Rightarrow> zoned \<Rightarrow> zoned \<Rightarrow> int \<Rightarrow> int \<Rightarrow> int \<times> int \<Rightarrow> int \<Rightarrow> int option" where
  "in_month off a w i mday hm step =
     (let month = dt_month w + step; year = dt_year w + month div 12; m = month mod 12 in
      if js_rem (monthsBetween (dt_year a) (dt_month a) year m) i \<noteq> 0 then None
      else if daysInMonth year m < mday then None
      else Some (zonedEpoch off year m mday (fst hm) (snd hm)))"

definition in_year :: "(int \<Rightarrow> int) \<Rightarrow> zoned \<Rightarrow> zoned \<Rightarrow> int \<Rightarrow> int \<Rightarrow> int \<Rightarrow> int \<times> int \<Rightarrow> int \<Rightarrow> int option" where
  "in_year off a w i month mday hm step =
     (let year = dt_year w + step in
      if js_rem (year - dt_year a) i \<noteq> 0 then None
      else if daysInMonth year month < mday then None
      else Some (zonedEpoch off year month mday (fst hm) (snd hm)))"

definition zone_of :: "string \<Rightarrow> frequency \<Rightarrow> string" where
  "zone_of here f = str_or (case timeZone f of None \<Rightarrow> [] | Some z \<Rightarrow> z) here"

definition nextRunAfter :: "zone_db \<Rightarrow> string \<Rightarrow> frequency \<Rightarrow> int \<Rightarrow> int \<Rightarrow> (cron_error, int option) result" where
  "nextRunAfter tz here f after anchor =
     (let off = tz (zone_of here f); i = intervalOf f;
          a = zonedParts off anchor; w = zonedParts off after in
      case f of
        Once when _ \<Rightarrow> Inr (if after < when then Some when else None)
      | CronExpr e _ \<Rightarrow> nextCronRun off e after
      | Hourly _ minute _ \<Rightarrow> Inr (Some (hourly_run i minute after anchor))
      | Daily _ time _ \<Rightarrow> Inr (day_search off (daily_wanted a i) (timeOfDay time) i after)
      | Weekly _ days time _ \<Rightarrow>
          Inr (if days = [] then None
               else day_search off (weekly_wanted a i days) (timeOfDay time) i after)
      | Monthly _ mday time _ \<Rightarrow>
          Inr (first_after after (in_month off a w i mday (timeOfDay time)) 0 (nat (i * 12 + i + 1)))
      | Yearly _ month mday time _ \<Rightarrow>
          Inr (first_after after (in_year off a w i month mday (timeOfDay time)) 0 (nat (i + 5))))"

section \<open>The search loop\<close>

lemma first_after_Some:
  "first_after after cand k n = Some t \<Longrightarrow>
     after < t \<and> (\<exists>j. k \<le> j \<and> j < k + int n \<and> cand j = Some t \<and>
       (\<forall>j' t'. k \<le> j' \<longrightarrow> j' < j \<longrightarrow> cand j' = Some t' \<longrightarrow> t' \<le> after))"
proof (induction n arbitrary: k)
  case (Suc n)
  show ?case
  proof (cases "\<exists>u. cand k = Some u \<and> after < u")
    case True
    with Suc.prems show ?thesis by (auto intro!: exI [of _ k])
  next
    case False
    with Suc.prems have "first_after after cand (k + 1) n = Some t" by (auto split: option.splits if_splits)
    from Suc.IH [OF this] obtain j where j: "after < t" "k + 1 \<le> j" "j < k + 1 + int n" "cand j = Some t"
      "\<forall>j' t'. k + 1 \<le> j' \<longrightarrow> j' < j \<longrightarrow> cand j' = Some t' \<longrightarrow> t' \<le> after" by blast
    have "t' \<le> after" if "k \<le> j'" "j' < j" "cand j' = Some t'" for j' t'
    proof (cases "j' = k")
      case False
      with that have "k + 1 \<le> j'" by simp
      with j(5) that show ?thesis by blast
    qed (use \<open>\<not> (\<exists>u. cand k = Some u \<and> after < u)\<close> that in auto)
    with j show ?thesis by (intro conjI exI [of _ j]) auto
  qed
qed simp

lemma first_after_exists:
  "k \<le> j \<Longrightarrow> j < k + int n \<Longrightarrow> cand j = Some t \<Longrightarrow> after < t \<Longrightarrow> first_after after cand k n \<noteq> None"
proof (induction n arbitrary: k)
  case (Suc n)
  show ?case
  proof (cases "j = k")
    case True
    with Suc.prems show ?thesis by simp
  next
    case False
    with Suc show ?thesis by (auto split: option.splits)
  qed
qed simp

lemma intervalOf_pos: "1 \<le> intervalOf f"
  by (cases f) (auto simp: intervalOf_def)

lemma clamp_range: "0 \<le> hi \<Longrightarrow> 0 \<le> clamp hi x \<and> clamp hi x \<le> hi"
  by (auto simp: clamp_def)

lemma timeOfDay_range:
  assumes "timeOfDay time = (h, mi)"
  shows "0 \<le> h" "h \<le> 23" "0 \<le> mi" "mi \<le> 59"
  using assms clamp_range [of 23] clamp_range [of 59]
  by (auto simp: timeOfDay_def Let_def time_part_def split: option.splits)

section \<open>Hourly schedules\<close>

lemma hourly_run_spec:
  fixes minute anchor
  assumes "1 \<le> i"
  defines "base \<equiv> hourly_base minute anchor"
  shows "after < hourly_run i minute after anchor"
    and "\<exists>k\<ge>0. hourly_run i minute after anchor = base + k * (i * HOUR)"
    and "0 \<le> k \<Longrightarrow> after < base + k * (i * HOUR) \<Longrightarrow> hourly_run i minute after anchor \<le> base + k * (i * HOUR)"
proof -
  define s where "s = i * HOUR"
  define q where "q = (base - after) div s"
  have s: "0 < s" using assms(1) by (simp add: s_def)
  have q: "q * s \<le> base - after" "base - after < q * s + s"
    using s pos_mod_bound [OF s, of "base - after"] pos_mod_sign [OF s, of "base - after"]
      div_mult_mod_eq [of "base - after" s] unfolding q_def by linarith+
  define n where "n = max 0 (- q)"
  define r where "r = hourly_run i minute after anchor"
  have r: "r = (if after < base + n * s then base + n * s else base + n * s + s)"
    unfolding r_def hourly_run_def Let_def base_def [symmetric] s_def [symmetric] q_def [symmetric]
      n_def [symmetric] by (simp add: s_def mult.assoc)
  have mono: "a * s \<le> b * s" if "a \<le> b" for a b using that s by (simp add: mult_right_mono)
  have "r = base + n * s \<or> r = base + (n + 1) * s" "0 \<le> n" using r by (auto simp: n_def distrib_right)
  then show "\<exists>k\<ge>0. hourly_run i minute after anchor = base + k * (i * HOUR)"
  proof (elim disjE)
    assume "r = base + n * s" "0 \<le> n"
    then show ?thesis unfolding r_def s_def by blast
  next
    assume "r = base + (n + 1) * s" "0 \<le> n"
    then show ?thesis unfolding r_def s_def by (intro exI [of _ "n + 1"]) simp
  qed
  show after: "after < hourly_run i minute after anchor"
  proof (cases "q \<le> 0")
    case True
    then have "n * s = - (q * s)" by (simp add: n_def)
    with q(1) s r show ?thesis unfolding r_def [symmetric] by (auto split: if_splits)
  next
    case False
    then have "1 * s \<le> q * s" by (intro mono) simp
    then have "after < base" using q(1) s by linarith
    with False r show ?thesis unfolding r_def [symmetric] by (simp add: n_def)
  qed
  assume k: "0 \<le> k" "after < base + k * (i * HOUR)"
  show "hourly_run i minute after anchor \<le> base + k * (i * HOUR)"
  proof (cases "after < base + n * s")
    case True
    have "- q \<le> k"
    proof (rule ccontr)
      assume "\<not> - q \<le> k"
      then have "k * s + s \<le> - (q * s)" using mono [of "k + 1" "- q"] by (simp add: distrib_right)
      with q(2) k(2) show False unfolding s_def [symmetric] by linarith
    qed
    then have "n * s \<le> k * s" using mono k(1) by (simp add: n_def)
    then show ?thesis using r True unfolding r_def [symmetric] s_def [symmetric] by simp
  next
    case False
    then have "n < k" using k(2) mono [of k n] unfolding s_def [symmetric] by linarith
    then have "n * s + s \<le> k * s" using mono [of "n + 1" k] by (simp add: distrib_right)
    then show ?thesis using r False unfolding r_def [symmetric] s_def [symmetric] by simp
  qed
qed

lemma nextRunAfter_after:
  assumes "nextRunAfter tz here f after anchor = Inr (Some t)"
  shows "after < t"
proof -
  have fa: "first_after after cand k n = Some t \<Longrightarrow> after < t" for cand k n
    using first_after_Some by blast
  show ?thesis
  proof (cases f)
    case (Hourly i minute z)
    then show ?thesis using assms hourly_run_spec(1) [OF intervalOf_pos, of after f minute anchor]
      by (simp add: nextRunAfter_def Let_def)
  next
    case (CronExpr e z)
    then show ?thesis using assms nextCronRun_after by (simp add: nextRunAfter_def Let_def)
  qed (use assms fa in \<open>simp_all add: nextRunAfter_def Let_def day_search_def split: if_splits\<close>)
qed

section \<open>Daily and weekly schedules in a zone with a constant offset\<close>

lemma daysBetween_days:
  assumes "0 \<le> d" "0 \<le> d'"
  shows "daysBetween (dt_year (date_of_day d)) (dt_month (date_of_day d)) (dt_day (date_of_day d))
     (dt_year (date_of_day d')) (dt_month (date_of_day d')) (dt_day (date_of_day d')) = d' - d"
proof -
  have "date_UTC (dt_year (date_of_day x)) (dt_month (date_of_day x)) (dt_day (date_of_day x)) 0 0 = x * DAY" if "0 \<le> x" for x
    using date_of_day_modern [OF that] by (simp add: date_UTC_def make_day_date_of_day)
  moreover have "(d' * DAY - d * DAY) div DAY = d' - d"
  proof -
    have "d' * DAY - d * DAY = (d' - d) * DAY" by simp
    then show ?thesis by simp
  qed
  ultimately show ?thesis using assms by (simp only: daysBetween_def)
qed

text \<open>The local day of an instant, and the daily and weekly conditions on local days.\<close>

definition local_day :: "int \<Rightarrow> int \<Rightarrow> int" where
  "local_day c t = (t + c) div DAY"

lemma wanted_days:
  assumes "0 \<le> local_day c anchor" "0 \<le> day"
  defines "a \<equiv> zonedParts (\<lambda>_. c) anchor"
  shows "daily_wanted a i (date_of_day day) day \<longleftrightarrow> i dvd day - local_day c anchor"
    and "weekly_wanted a i days (date_of_day day) day \<longleftrightarrow> week_day day \<in> set days \<and>
      i dvd (day - local_day c anchor + week_day (local_day c anchor)) div 7"
  using daysBetween_days [OF assms(1,2)]
  by (simp_all add: daily_wanted_def weekly_wanted_def a_def zonedParts_def Let_def local_day_def js_rem_zero_iff)

text \<open>Whether the instant is the given time of a wanted day.\<close>

definition day_run :: "int \<Rightarrow> (int \<Rightarrow> bool) \<Rightarrow> int \<times> int \<Rightarrow> int \<Rightarrow> bool" where
  "day_run c good hm t \<longleftrightarrow> good (local_day c t) \<and> t + c = local_day c t * DAY + fst hm * HOUR + snd hm * MINUTE"

lemma day_search_fixed:
  assumes "plain_offset c" "4 * DAY \<le> after" "0 \<le> fst hm" "fst hm \<le> 23" "0 \<le> snd hm" "snd hm \<le> 59"
    and wanted: "\<And>day. 0 \<le> day \<Longrightarrow> wanted (date_of_day day) day \<longleftrightarrow> good day"
    and d: "good d" "local_day c after < d" "d \<le> local_day c after + i * 7 + 8" "0 \<le> i"
  shows "\<exists>t. day_search (\<lambda>_. c) wanted hm i after = Some t \<and> after < t \<and> day_run c good hm t
    \<and> (\<forall>u. after < u \<longrightarrow> day_run c good hm u \<longrightarrow> t \<le> u)"
proof -
  let ?D = "local_day c after"
  let ?cand = "on_day (\<lambda>_. c) wanted hm"
  have c: "\<bar>c\<bar> \<le> DAY" using assms(1) by (simp add: plain_offset_def)
  then have D: "2 \<le> ?D" using assms(2) zdiv_mono1 [of "2 * DAY" "after + c" DAY] by (simp add: local_day_def)
  define at_day where "at_day x = x * DAY + fst hm * HOUR + snd hm * MINUTE - c" for x
  have cand: "?cand x = (if good x then Some (at_day x) else None)" if "2 \<le> x" for x
    using fixed_candidate [OF assms(1) that assms(3,5)] wanted [of x] that
    by (simp add: on_day_def Let_def at_day_def)
  have lday: "local_day c (at_day x) = x" for x
    using local_join(1) [OF assms(3-6), of x] by (simp add: local_day_def at_day_def)
  have search: "day_search (\<lambda>_. c) wanted hm i after = first_after after ?cand ?D (nat (i * 7 + 9))"
    using start_day [of after "\<lambda>_. c"] c assms(2)
    by (simp add: day_search_def Let_def local_day_def)
  have later: "after < at_day x" if "?D < x" for x
  proof (rule ccontr)
    assume "\<not> after < at_day x"
    then have "local_day c (at_day x) \<le> ?D" unfolding local_day_def by (intro zdiv_mono1) auto
    with that lday show False by simp
  qed
  have "first_after after ?cand ?D (nat (i * 7 + 9)) \<noteq> None"
    using d D later [of d] cand [of d] by (intro first_after_exists [of _ d _ _ "at_day d"]) auto
  then obtain t where t: "first_after after ?cand ?D (nat (i * 7 + 9)) = Some t" by auto
  from first_after_Some [OF this] obtain j where j: "after < t" "?D \<le> j" "?cand j = Some t"
    "\<And>j' t'. ?D \<le> j' \<Longrightarrow> j' < j \<Longrightarrow> ?cand j' = Some t' \<Longrightarrow> t' \<le> after" by blast
  have jt: "good j" "t = at_day j" using cand [of j] j(2,3) D by (auto split: if_splits)
  have "day_run c good hm t" using jt lday [of j] by (simp add: day_run_def at_day_def)
  moreover have "t \<le> u" if u: "after < u" "day_run c good hm u" for u
  proof (rule ccontr)
    assume lt: "\<not> t \<le> u"
    have uD: "?D \<le> local_day c u" using u(1) unfolding local_day_def by (intro zdiv_mono1) auto
    have uat: "u = at_day (local_day c u)" "good (local_day c u)" using u(2) by (auto simp: day_run_def at_day_def)
    have "local_day c u < j" using lt uat(1) jt(2) unfolding at_day_def by auto
    moreover have "?cand (local_day c u) = Some u" using cand [of "local_day c u"] uD D uat by simp
    ultimately show False using j(4) uD u(1) by fastforce
  qed
  ultimately show ?thesis using search t j(1) by auto
qed

lemma next_multiple:
  assumes "1 \<le> (i :: int)"
  obtains k where "i dvd k" "x < k" "k \<le> x + i"
proof -
  have "i * (x div i) \<le> x" "x < i * (x div i) + i"
    using assms pos_mod_bound [of i x] pos_mod_sign [of i x] mult_div_mod_eq [of i x] by linarith+
  then show thesis by (intro that [of "i * (x div i) + i"]) auto
qed

lemma daily_fixed:
  assumes "plain_offset c" "4 * DAY \<le> after" "4 * DAY \<le> anchor" "timeOfDay time = hm" "1 \<le> i"
  shows "\<exists>t. day_search (\<lambda>_. c) (daily_wanted (zonedParts (\<lambda>_. c) anchor) i) hm i after = Some t \<and> after < t
    \<and> day_run c (\<lambda>d. i dvd d - local_day c anchor) hm t
    \<and> (\<forall>u. after < u \<longrightarrow> day_run c (\<lambda>d. i dvd d - local_day c anchor) hm u \<longrightarrow> t \<le> u)"
proof -
  obtain k where k: "i dvd k" "local_day c after - local_day c anchor < k" "k \<le> local_day c after - local_day c anchor + i"
    using next_multiple [OF assms(5)] .
  have "0 \<le> anchor + c" using assms(1,3) unfolding plain_offset_def by linarith
  then have "0 \<le> local_day c anchor" by (simp add: local_day_def pos_imp_zdiv_nonneg_iff)
  note w = wanted_days(1) [OF this]
  obtain h mi where hm: "hm = (h, mi)" by (cases hm)
  note r = timeOfDay_range [OF assms(4) [unfolded hm]]
  show ?thesis
  proof (rule day_search_fixed [OF assms(1,2), where d = "local_day c anchor + k"])
    show "daily_wanted (zonedParts (\<lambda>_. c) anchor) i (date_of_day day) day \<longleftrightarrow> i dvd day - local_day c anchor"
      if "0 \<le> day" for day using w [OF that] .
  qed (use k assms(5) r hm in auto)
qed

lemma weekly_fixed:
  assumes "plain_offset c" "4 * DAY \<le> after" "4 * DAY \<le> anchor" "timeOfDay time = hm" "1 \<le> i"
    and "x \<in> set days" "0 \<le> x" "x \<le> 6"
  defines "good \<equiv> \<lambda>d. week_day d \<in> set days \<and>
      i dvd (d - local_day c anchor + week_day (local_day c anchor)) div 7"
  shows "\<exists>t. day_search (\<lambda>_. c) (weekly_wanted (zonedParts (\<lambda>_. c) anchor) i days) hm i after = Some t \<and> after < t
    \<and> day_run c good hm t \<and> (\<forall>u. after < u \<longrightarrow> day_run c good hm u \<longrightarrow> t \<le> u)"
proof -
  define A where "A = local_day c anchor"
  define W where "W = (local_day c after - A + week_day A) div 7"
  obtain k where k: "i dvd k" "W < k" "k \<le> W + i" using next_multiple [OF assms(5)] .
  define d where "d = A - week_day A + 7 * k + x"
  have "7 * W \<le> local_day c after - A + week_day A" "local_day c after - A + week_day A < 7 * W + 7"
    unfolding W_def by auto
  then have near: "local_day c after < d" "d \<le> local_day c after + i * 7 + 8"
    using k(2,3) assms(5,7,8) unfolding d_def by linarith+
  define b where "b = (A + 4) div 7"
  have b: "A - week_day A = 7 * b - 4"
    using mult_div_mod_eq [of 7 "A + 4"] unfolding week_day_def b_def by linarith
  have "d + 4 = 7 * (b + k) + x" using b unfolding d_def by (simp add: distrib_left)
  then have "week_day d = x"
    using int_mod_pos_eq [of "d + 4" 7 "b + k" x] assms(7,8) by (simp add: week_day_def)
  moreover have "(d - A + week_day A) div 7 = k" using assms(7,8) by (simp add: d_def)
  ultimately have good: "good d" using k(1) assms(6) by (simp add: good_def A_def [symmetric])
  have "0 \<le> anchor + c" using assms(1,3) unfolding plain_offset_def by linarith
  then have "0 \<le> local_day c anchor" by (simp add: local_day_def pos_imp_zdiv_nonneg_iff)
  note w = wanted_days(2) [OF this]
  obtain h mi where hm: "hm = (h, mi)" by (cases hm)
  note r = timeOfDay_range [OF assms(4) [unfolded hm]]
  show ?thesis
  proof (rule day_search_fixed [OF assms(1,2), where d = d])
    show "weekly_wanted (zonedParts (\<lambda>_. c) anchor) i days (date_of_day day) day \<longleftrightarrow> good day" if "0 \<le> day" for day
      using w [OF that] by (simp add: good_def)
  qed (use near good assms(5) r hm in auto)
qed

section \<open>Properties\<close>

text \<open>
  C12: whatever the frequency and the zone, a next run is strictly after the instant asked about, so
  a schedule that has just fired never fires again at the same instant.
\<close>

theorem nextRunAfter_strictly_later:
  assumes "nextRunAfter tz here f after anchor = Inr (Some t)"
  shows "after < t"
  using nextRunAfter_after [OF assms] .

lemma demo_cron_run:
  "nextRunAfter (\<lambda>_ _. 0) ''UTC'' (CronExpr demo_cron None) 1767376200000 0 = Inr (Some 1767603600000)"
  by (simp add: nextRunAfter_def Let_def demo_cron_next)

theorem nextRunAfter_strictly_later_witness:
  "nextRunAfter (\<lambda>_ _. 0) ''UTC'' (CronExpr demo_cron None) 1767376200000 0 = Inr (Some 1767603600000)
   \<and> 1767376200000 < (1767603600000 :: int)"
  using nextRunAfter_strictly_later [OF demo_cron_run] demo_cron_run by simp

text \<open>
  An hourly schedule always has a next run, and it is the first instant after the given one
  among those a whole number of intervals after its base, the anchor's hour at the chosen minute.
\<close>

theorem hourly_next_slot:
  "\<exists>t. nextRunAfter tz here (Hourly i minute z) after anchor = Inr (Some t) \<and> after < t
     \<and> (\<exists>k\<ge>0. t = hourly_base minute anchor + k * (intervalOf (Hourly i minute z) * HOUR))
     \<and> (\<forall>k\<ge>0. after < hourly_base minute anchor + k * (intervalOf (Hourly i minute z) * HOUR) \<longrightarrow>
          t \<le> hourly_base minute anchor + k * (intervalOf (Hourly i minute z) * HOUR))"
  using hourly_run_spec [OF intervalOf_pos, where after = after and minute = minute and anchor = anchor]
  by (simp add: nextRunAfter_def Let_def)

theorem hourly_next_slot_witness:
  "\<exists>t. nextRunAfter (\<lambda>_ _. 0) ''UTC'' (Hourly (Some 6) (Some 30) None) 1767225600000 1767225600000
     = Inr (Some t) \<and> t \<le> 1767227400000"
proof -
  let ?f = "Hourly (Some 6) (Some 30) None"
  have "hourly_base (Some 30) 1767225600000 = 1767227400000"
    using js_round_of_int [of 30] by (simp add: hourly_base_def clamp_def)
  with hourly_next_slot [of "\<lambda>_ _. 0" "''UTC''" "Some 6" "Some 30" None 1767225600000 1767225600000]
  obtain t where "nextRunAfter (\<lambda>_ _. 0) ''UTC'' ?f 1767225600000 1767225600000 = Inr (Some t)"
    and "\<forall>k\<ge>0. 1767225600000 < 1767227400000 + k * (intervalOf ?f * HOUR) \<longrightarrow> t \<le> 1767227400000 + k * (intervalOf ?f * HOUR)"
    by auto
  then show ?thesis by (auto dest: spec [of _ 0])
qed

lemma demo_time: "timeOfDay ''09:30'' = (9, 30)"
  by (simp add: timeOfDay_def second_part_def time_part_def js_number_def js_trim_def is_js_space_def
      decimal_number_def signed_def split_at_first_def decimal_mantissa_def all_digits_def is_digit_def
      read_nat_def digit_value_def decimal_exponent_def js_trunc_def clamp_def)

text \<open>
  In a zone with a constant offset a daily schedule always has a next run: the first instant
  after the given one at the schedule's time of day, on a day a multiple of the interval away from
  the day it was created.
\<close>

theorem daily_next_run:
  assumes "tz (zone_of here (Daily iv time z)) = (\<lambda>_. c)" and "plain_offset c"
    and "4 * DAY \<le> after" and "4 * DAY \<le> anchor"
  shows "\<exists>t. nextRunAfter tz here (Daily iv time z) after anchor = Inr (Some t) \<and> after < t
    \<and> day_run c (\<lambda>d. intervalOf (Daily iv time z) dvd d - local_day c anchor) (timeOfDay time) t
    \<and> (\<forall>u. after < u \<longrightarrow>
         day_run c (\<lambda>d. intervalOf (Daily iv time z) dvd d - local_day c anchor) (timeOfDay time) u \<longrightarrow> t \<le> u)"
  using daily_fixed [OF assms(2-4) refl intervalOf_pos [of "Daily iv time z"], of time] assms(1)
  by (simp add: nextRunAfter_def Let_def)

theorem daily_next_run_witness:
  "\<exists>t. nextRunAfter (\<lambda>_ _. 28800000) ''UTC'' (Daily (Some 3) ''09:30'' None) 1767348000000 1767225600000 = Inr (Some t)
     \<and> 1767348000000 < t"
proof -
  have "plain_offset 28800000" by (simp add: plain_offset_def)
  from daily_next_run [OF refl this, of 1767348000000 1767225600000 "''UTC''" "Some 3" "''09:30''" None]
  show ?thesis by auto
qed

text \<open>
  In a zone with a constant offset a weekly schedule with at least one weekday always has a next
  run: the first instant after the given one at the schedule's time of day, on a chosen weekday of a
  week a multiple of the interval away from the week it was created in.  The search window of
  \<open>interval * 7 + 8\<close> days is always long enough.
\<close>

theorem weekly_next_run:
  assumes "tz (zone_of here (Weekly iv days time z)) = (\<lambda>_. c)" and "plain_offset c"
    and "4 * DAY \<le> after" and "4 * DAY \<le> anchor" and "days \<noteq> []" and "list_all (\<lambda>d. 0 \<le> d \<and> d \<le> 6) days"
  shows "\<exists>t. nextRunAfter tz here (Weekly iv days time z) after anchor = Inr (Some t) \<and> after < t
    \<and> day_run c (\<lambda>d. week_day d \<in> set days \<and> intervalOf (Weekly iv days time z) dvd
          (d - local_day c anchor + week_day (local_day c anchor)) div 7) (timeOfDay time) t
    \<and> (\<forall>u. after < u \<longrightarrow>
         day_run c (\<lambda>d. week_day d \<in> set days \<and> intervalOf (Weekly iv days time z) dvd
          (d - local_day c anchor + week_day (local_day c anchor)) div 7) (timeOfDay time) u \<longrightarrow> t \<le> u)"
proof -
  obtain x where x: "x \<in> set days" "0 \<le> x" "x \<le> 6"
    using assms(5,6) by (cases days) auto
  show ?thesis
    using weekly_fixed [OF assms(2-4) refl intervalOf_pos [of "Weekly iv days time z"] x, of time] assms(1,5)
    by (simp add: nextRunAfter_def Let_def)
qed

theorem weekly_next_run_witness:
  "\<exists>t. nextRunAfter (\<lambda>_ _. 28800000) ''UTC'' (Weekly (Some 2) [1, 4] ''09:30'' None) 1767348000000 1767225600000
     = Inr (Some t) \<and> 1767348000000 < t"
proof -
  have "plain_offset 28800000" by (simp add: plain_offset_def)
  from weekly_next_run [OF refl this, of 1767348000000 1767225600000 "[1, 4]" "''UTC''" "Some 2" "''09:30''" None]
  show ?thesis by auto
qed

text \<open>
  A yearly schedule can run out of years although one is left.  Every three years on 29 February
  from 2026, asked on 1 March 2032, the search of \<open>interval + 4\<close> years ends at 2039 and returns
  nothing, while 29 February 2044 is a date of the schedule.
\<close>

theorem yearly_leap_day_lost:
  "nextRunAfter (\<lambda>_ _. 0) ''UTC'' (Yearly (Some 3) 1 29 ''09:30'' None) 1961712000000 1767225600000 = Inr None
   \<and> valid_date \<lparr>dt_year = 2044, dt_month = 1, dt_day = 29\<rparr> \<and> 3 dvd (2044 - 2026 :: int)"
proof -
  have iv: "intervalOf (Yearly (Some 3) 1 29 ''09:30'' None) = 3"
    using js_round_of_int [of 3] by (simp add: intervalOf_def)
  have "first_after 1961712000000 (in_year (\<lambda>_. 0) (zonedParts (\<lambda>_. 0) 1767225600000)
      (zonedParts (\<lambda>_. 0) 1961712000000) 3 1 29 (9, 30)) 0 (nat 8) = None"
    by code_simp
  then have "nextRunAfter (\<lambda>_ _. 0) ''UTC'' (Yearly (Some 3) 1 29 ''09:30'' None) 1961712000000 1767225600000 = Inr None"
    by (simp add: nextRunAfter_def Let_def iv demo_time)
  moreover have "valid_date \<lparr>dt_year = 2044, dt_month = 1, dt_day = 29\<rparr>"
    by (simp add: valid_date_def month_length_def is_leap_def)
  ultimately show ?thesis by simp
qed

end
