(* ===== verification/Scheduler.thy ===== *)
theory Scheduler
  imports ScheduleTime AgentTypes
begin

text \<open>
  The scheduler of the desktop application, \<^verbatim>\<open>apps/desktop/src/main/scheduler/index.ts\<close>, over the
  schedules of \<^verbatim>\<open>packages/protocol/src/types.ts\<close>.

  Each synchronous stretch of the code is one operation on the state and runs at one instant
  \<open>now\<close>.  \<open>#fire\<close> is split at its \<open>await\<close>: \<open>fire\<close> runs up to the call of the executor, which the log
  \<open>sd_calls\<close> records, and \<open>fire_end\<close> is what follows when the executor settles.  An operation that
  throws returns the error with the state it leaves behind, since the code mutates rows in place
  before it throws.  A row that was removed while it ran is no longer an element of the list, so
  \<open>fire_end\<close> does nothing to it.  Fresh identifiers are arguments.  The listeners are told the list
  at every commit (\<open>sd_told\<close>); what they do, or throw, has no effect on the scheduler.
\<close>

section \<open>Data\<close>

datatype sched_status = SActive | SPaused | SRunning | SFailed | SDone

datatype run_outcome = OutRunning | OutSucceeded | OutFailed

record schedule_run =
  sr_id :: string
  sr_startedAt :: int
  sr_finishedAt :: "int option"
  sr_outcome :: run_outcome
  sr_summary :: "string option"
  sr_error :: "string option"
  sr_conversationId :: "string option"
  sr_runId :: "string option"

record schedule =
  sc_id :: string
  sc_title :: string
  sc_prompt :: string
  sc_frequency :: frequency
  sc_status :: sched_status
  sc_createdAt :: int
  sc_nextRunAt :: "int option"
  sc_lastRunAt :: "int option"
  sc_history :: "schedule_run list"
  sc_unread :: bool

record schedule_input =
  si_title :: string
  si_prompt :: string
  si_frequency :: frequency

record schedule_patch =
  sp_title :: "string option"
  sp_prompt :: "string option"
  sp_frequency :: "frequency option"
  sp_status :: "sched_status option"  \<comment> \<open>\<open>SActive\<close> or \<open>SPaused\<close>\<close>

record executor_result =
  xr_summary :: "string option"
  xr_conversationId :: "string option"
  xr_runId :: "string option"

datatype sched_error = NotFound string | FrequencyError cron_error

record scheduler =
  sd_items :: "schedule list"
  sd_running :: "string list"
  sd_timer :: "int option"  \<comment> \<open>the delay of the pending timer\<close>
  sd_started :: bool
  sd_stopped :: bool
  sd_store :: "schedule list option"  \<comment> \<open>the preference, once written\<close>
  sd_told :: "schedule list list"
  sd_calls :: "schedule list"  \<comment> \<open>the snapshots handed to the executor\<close>
  sd_ended :: "string list"  \<comment> \<open>the rows whose executor call has settled\<close>

definition HISTORY_LIMIT :: nat where "HISTORY_LIMIT = 20"
definition MAX_SLEEP_MS :: int where "MAX_SLEEP_MS = 30000"

section \<open>Operations\<close>

fun set_zone :: "string option \<Rightarrow> frequency \<Rightarrow> frequency" where
  "set_zone z (Once t _) = Once t z"
| "set_zone z (Hourly i m _) = Hourly i m z"
| "set_zone z (Daily i t _) = Daily i t z"
| "set_zone z (Weekly i ds t _) = Weekly i ds t z"
| "set_zone z (Monthly i d t _) = Monthly i d t z"
| "set_zone z (Yearly i m d t _) = Yearly i m d t z"
| "set_zone z (CronExpr e _) = CronExpr e z"

definition withZone :: "string \<Rightarrow> frequency \<Rightarrow> frequency" where
  "withZone here f = set_zone (Some (zone_of here f)) f"

definition set_item :: "string \<Rightarrow> (schedule \<Rightarrow> schedule) \<Rightarrow> schedule list \<Rightarrow> schedule list" where
  "set_item i g xs = map (\<lambda>x. if sc_id x = i then g x else x) xs"

definition find_item :: "string \<Rightarrow> schedule list \<Rightarrow> schedule option" where
  "find_item i xs = List.find (\<lambda>x. sc_id x = i) xs"

definition computeNext :: "zone_db \<Rightarrow> string \<Rightarrow> schedule \<Rightarrow> int \<Rightarrow> (cron_error, int option) result" where
  "computeNext tz here item now =
     (if sc_status item = SPaused then Inr None
      else nextRunAfter tz here (sc_frequency item) now (sc_createdAt item))"

definition due_times :: "schedule list \<Rightarrow> int list" where
  "due_times xs = List.map_filter (\<lambda>x. if sc_status x = SActive then sc_nextRunAt x else None) xs"

definition arm :: "int \<Rightarrow> scheduler \<Rightarrow> scheduler" where
  "arm now s =
     (if sd_stopped s then s
      else
        let due = due_times (sd_items s);
            delay = (if due = [] then MAX_SLEEP_MS
                     else min MAX_SLEEP_MS (max 0 (Min (set due) - now))) in
        s\<lparr>sd_timer := Some delay\<rparr>)"

definition persist :: "scheduler \<Rightarrow> scheduler" where
  "persist s = s\<lparr>sd_store := Some (sd_items s)\<rparr>"

definition commit :: "scheduler \<Rightarrow> scheduler" where
  "commit s = (let p = persist s in p\<lparr>sd_told := sd_told p @ [sd_items p]\<rparr>)"

text \<open>\<open>Object.assign(run, result, {finishedAt})\<close> on the newest run, if it is still running.\<close>

definition finish_run :: "(string, executor_result) result \<Rightarrow> int \<Rightarrow> schedule_run \<Rightarrow> schedule_run" where
  "finish_run r now run =
     (if sr_outcome run \<noteq> OutRunning then run
      else case r of
        Inl e \<Rightarrow> run\<lparr>sr_outcome := OutFailed, sr_error := Some e, sr_finishedAt := Some now\<rparr>
      | Inr x \<Rightarrow> run\<lparr>sr_outcome := OutSucceeded, sr_finishedAt := Some now,
          sr_summary := xr_summary x, sr_conversationId := xr_conversationId x, sr_runId := xr_runId x\<rparr>)"

definition settle :: "(string, executor_result) result \<Rightarrow> int \<Rightarrow> schedule \<Rightarrow> schedule" where
  "settle r now item =
     item\<lparr>sc_history := (case sc_history item of [] \<Rightarrow> [] | run # rest \<Rightarrow> finish_run r now run # rest),
       sc_unread := True,
       sc_status := (case r of Inl _ \<Rightarrow> SFailed
         | Inr _ \<Rightarrow> if sc_nextRunAt item = None then SDone else SActive)\<rparr>"

text \<open>The loop of \<open>start\<close>; an invalid cron expression stops it in the middle of a row.\<close>

definition interrupted :: "int \<Rightarrow> schedule \<Rightarrow> schedule" where
  "interrupted now item = (if sc_status item = SRunning
     then settle (Inl ''Interrupted when Polymux closed'') now item else item)"

definition set_next :: "int option \<Rightarrow> schedule \<Rightarrow> schedule" where
  "set_next nxt item =
     (if nxt = sc_nextRunAt item then item
      else item\<lparr>sc_nextRunAt := nxt,
        sc_status := (if nxt = None \<and> sc_status item = SActive then SDone else sc_status item)\<rparr>)"

fun start_items :: "zone_db \<Rightarrow> string \<Rightarrow> int \<Rightarrow> schedule list \<Rightarrow> cron_error option \<times> schedule list" where
  "start_items tz here now [] = (None, [])"
| "start_items tz here now (x # xs) =
     (let x' = interrupted now x in
      case computeNext tz here x' now of
        Inl e \<Rightarrow> (Some e, x' # xs)
      | Inr nxt \<Rightarrow> (case start_items tz here now xs of (e, ys) \<Rightarrow> (e, set_next nxt x' # ys)))"

definition scheduler_start :: "zone_db \<Rightarrow> string \<Rightarrow> int \<Rightarrow> scheduler \<Rightarrow> sched_error option \<times> scheduler" where
  "scheduler_start tz here now s =
     (if sd_started s then (None, s)
      else case start_items tz here now (sd_items s) of (e, items) \<Rightarrow>
        let s' = s\<lparr>sd_started := True, sd_items := items\<rparr> in
        case e of Some c \<Rightarrow> (Some (FrequencyError c), s')
        | None \<Rightarrow> (None, arm now (if items \<noteq> sd_items s then persist s' else s')))"

definition stop :: "scheduler \<Rightarrow> scheduler" where
  "stop s = s\<lparr>sd_stopped := True, sd_timer := None\<rparr>"

definition list_schedules :: "scheduler \<Rightarrow> schedule list" where
  "list_schedules s = sd_items s"

definition create :: "zone_db \<Rightarrow> string \<Rightarrow> int \<Rightarrow> string \<Rightarrow> schedule_input \<Rightarrow> scheduler
    \<Rightarrow> (sched_error, schedule) result \<times> scheduler" where
  "create tz here now fresh input s =
     (let item = \<lparr>sc_id = fresh, sc_title = str_or (js_trim (si_title input)) ''Untitled schedule'',
            sc_prompt = js_trim (si_prompt input), sc_frequency = withZone here (si_frequency input),
            sc_status = SActive, sc_createdAt = now, sc_nextRunAt = None, sc_lastRunAt = None,
            sc_history = [], sc_unread = False\<rparr> in
      case computeNext tz here item now of
        Inl e \<Rightarrow> (Inl (FrequencyError e), s)
      | Inr nxt \<Rightarrow>
          let item' = item\<lparr>sc_nextRunAt := nxt, sc_status := (if nxt = None then SDone else SActive)\<rparr> in
          (Inr item', commit (s\<lparr>sd_items := sd_items s @ [item']\<rparr>)))"

definition patch_item :: "string \<Rightarrow> schedule_patch \<Rightarrow> schedule \<Rightarrow> schedule" where
  "patch_item here p item =
     item\<lparr>sc_title := (case sp_title p of None \<Rightarrow> sc_title item | Some t \<Rightarrow> str_or (js_trim t) (sc_title item)),
       sc_prompt := (case sp_prompt p of None \<Rightarrow> sc_prompt item | Some t \<Rightarrow> js_trim t),
       sc_frequency := (case sp_frequency p of None \<Rightarrow> sc_frequency item | Some f \<Rightarrow> withZone here f),
       sc_status := (case sp_status p of None \<Rightarrow> sc_status item | Some st \<Rightarrow> st)\<rparr>"

text \<open>The rest of \<open>update\<close> on the patched row; the error leaves the row patched.\<close>

definition update_item :: "zone_db \<Rightarrow> string \<Rightarrow> int \<Rightarrow> bool \<Rightarrow> schedule \<Rightarrow> (cron_error, schedule) result" where
  "update_item tz here now running item =
     (if running then Inr (item\<lparr>sc_status := SRunning\<rparr>)
      else if sc_status item = SPaused then Inr (item\<lparr>sc_nextRunAt := None\<rparr>)
      else bind_result (computeNext tz here item now) (\<lambda>nxt.
        Inr (item\<lparr>sc_nextRunAt := nxt, sc_status := (if nxt = None then SDone else SActive)\<rparr>)))"

definition update :: "zone_db \<Rightarrow> string \<Rightarrow> int \<Rightarrow> string \<Rightarrow> schedule_patch \<Rightarrow> scheduler
    \<Rightarrow> (sched_error, schedule) result \<times> scheduler" where
  "update tz here now i p s =
     (case find_item i (sd_items s) of
        None \<Rightarrow> (Inl (NotFound i), s)
      | Some item \<Rightarrow>
          let item' = patch_item here p item in
          case update_item tz here now (i \<in> set (sd_running s)) item' of
            Inl e \<Rightarrow> (Inl (FrequencyError e), s\<lparr>sd_items := set_item i (\<lambda>_. item') (sd_items s)\<rparr>)
          | Inr item'' \<Rightarrow> (Inr item'', commit (s\<lparr>sd_items := set_item i (\<lambda>_. item'') (sd_items s)\<rparr>)))"

definition remove :: "string \<Rightarrow> scheduler \<Rightarrow> scheduler" where
  "remove i s = commit (s\<lparr>sd_items := filter (\<lambda>x. sc_id x \<noteq> i) (sd_items s)\<rparr>)"

definition markRead :: "string \<Rightarrow> scheduler \<Rightarrow> (sched_error, schedule) result \<times> scheduler" where
  "markRead i s =
     (case find_item i (sd_items s) of
        None \<Rightarrow> (Inl (NotFound i), s)
      | Some item \<Rightarrow>
          let item' = item\<lparr>sc_unread := False\<rparr> in
          (Inr item', commit (s\<lparr>sd_items := set_item i (\<lambda>_. item') (sd_items s)\<rparr>)))"

text \<open>
  \<open>#fire\<close> up to the call of the executor.  If the next run cannot be computed the promise rejects
  there: the row is marked running and nothing will ever settle it.
\<close>

definition begin_run :: "int \<Rightarrow> string \<Rightarrow> schedule \<Rightarrow> schedule" where
  "begin_run now fresh item =
     item\<lparr>sc_history := take HISTORY_LIMIT (\<lparr>sr_id = fresh, sr_startedAt = now, sr_finishedAt = None,
         sr_outcome = OutRunning, sr_summary = None, sr_error = None, sr_conversationId = None,
         sr_runId = None\<rparr> # sc_history item),
       sc_status := SRunning, sc_lastRunAt := Some now\<rparr>"

definition fire :: "zone_db \<Rightarrow> string \<Rightarrow> int \<Rightarrow> string \<Rightarrow> schedule \<Rightarrow> scheduler \<Rightarrow> scheduler" where
  "fire tz here now fresh item s =
     (if sc_id item \<in> set (sd_running s) then s
      else
        let item' = begin_run now fresh item; i = sc_id item;
            s' = s\<lparr>sd_running := sd_running s @ [i]\<rparr> in
        case nextRunAfter tz here (sc_frequency item) now (sc_createdAt item) of
          Inl e \<Rightarrow> s'\<lparr>sd_items := set_item i (\<lambda>_. item') (sd_items s)\<rparr>
        | Inr nxt \<Rightarrow>
            let item'' = item'\<lparr>sc_nextRunAt := nxt\<rparr>;
                s'' = commit (s'\<lparr>sd_items := set_item i (\<lambda>_. item'') (sd_items s)\<rparr>) in
            s''\<lparr>sd_calls := sd_calls s'' @ [item'']\<rparr>)"

text \<open>The \<open>try\<close>, \<open>catch\<close> and \<open>finally\<close> after the executor of row \<open>i\<close> has settled.\<close>

definition fire_end :: "int \<Rightarrow> string \<Rightarrow> (string, executor_result) result \<Rightarrow> scheduler \<Rightarrow> scheduler" where
  "fire_end now i r s =
     arm now (commit (s\<lparr>sd_items := set_item i (settle r now) (sd_items s),
       sd_running := filter (\<lambda>j. j \<noteq> i) (sd_running s), sd_ended := sd_ended s @ [i]\<rparr>))"

definition is_due :: "int \<Rightarrow> schedule \<Rightarrow> bool" where
  "is_due now item \<longleftrightarrow> sc_status item = SActive \<and> (case sc_nextRunAt item of None \<Rightarrow> False | Some t \<Rightarrow> t \<le> now)"

text \<open>The loop of \<open>#tick\<close> over the rows, with a fresh identifier for each.\<close>

fun tick_loop :: "zone_db \<Rightarrow> string \<Rightarrow> int \<Rightarrow> (schedule \<times> string) list \<Rightarrow> scheduler \<Rightarrow> scheduler" where
  "tick_loop tz here now [] s = s"
| "tick_loop tz here now ((item, fresh) # rest) s =
     tick_loop tz here now rest (if is_due now item then fire tz here now fresh item s else s)"

definition tick :: "zone_db \<Rightarrow> string \<Rightarrow> int \<Rightarrow> string list \<Rightarrow> scheduler \<Rightarrow> scheduler" where
  "tick tz here now fresh s = arm now (tick_loop tz here now (zip (sd_items s) fresh) (s\<lparr>sd_timer := None\<rparr>))"

definition runNow :: "zone_db \<Rightarrow> string \<Rightarrow> int \<Rightarrow> string \<Rightarrow> string \<Rightarrow> scheduler
    \<Rightarrow> (sched_error, schedule) result \<times> scheduler" where
  "runNow tz here now fresh i s =
     (case find_item i (sd_items s) of
        None \<Rightarrow> (Inl (NotFound i), s)
      | Some item \<Rightarrow>
          let s' = fire tz here now fresh item s in
          (case find_item i (sd_items s') of None \<Rightarrow> Inl (NotFound i) | Some x \<Rightarrow> Inr x, s'))"

section \<open>The machine\<close>

text \<open>How often the executor was called for a row, and how often it settled.\<close>

definition calls_of :: "string \<Rightarrow> scheduler \<Rightarrow> nat" where
  "calls_of i s = length (filter (\<lambda>x. sc_id x = i) (sd_calls s))"

definition ends_of :: "string \<Rightarrow> scheduler \<Rightarrow> nat" where
  "ends_of i s = length (filter (\<lambda>j. j = i) (sd_ended s))"

text \<open>
  The steps of a scheduler that has been started: the timer, the executor, and the calls of its
  client, in any order.  A call of the executor settles at most once.  Identifiers are fresh.
\<close>

inductive sched_step :: "zone_db \<Rightarrow> string \<Rightarrow> scheduler \<Rightarrow> scheduler \<Rightarrow> bool" for tz here where
  step_tick: "sched_step tz here s (tick tz here now fresh s)"
| step_end: "ends_of i s < calls_of i s \<Longrightarrow> sched_step tz here s (fire_end now i r s)"
| step_create: "fresh \<notin> set (sd_running s) \<Longrightarrow> fresh \<notin> sc_id ` set (sd_items s) \<Longrightarrow>
    sched_step tz here s (snd (create tz here now fresh input s))"
| step_update: "sp_status p \<in> {None, Some SActive, Some SPaused} \<Longrightarrow>
    sched_step tz here s (snd (update tz here now i p s))"
| step_remove: "sched_step tz here s (remove i s)"
| step_read: "sched_step tz here s (snd (markRead i s))"
| step_run: "sched_step tz here s (snd (runNow tz here now fresh i s))"
| step_stop: "sched_step tz here s (stop s)"

inductive_cases sched_stepE: "sched_step tz here s t"

section \<open>The invariant\<close>

definition item_ok :: "string list \<Rightarrow> schedule \<Rightarrow> bool" where
  "item_ok running x \<longleftrightarrow> (sc_status x = SRunning \<longleftrightarrow> sc_id x \<in> set running)
     \<and> (sc_status x = SPaused \<longrightarrow> sc_nextRunAt x = None)
     \<and> length (sc_history x) \<le> HISTORY_LIMIT"

definition calls_ok :: "scheduler \<Rightarrow> bool" where
  "calls_ok s \<longleftrightarrow> (\<forall>i. calls_of i s \<le> ends_of i s + (if i \<in> set (sd_running s) then 1 else 0))"

definition sched_inv :: "scheduler \<Rightarrow> bool" where
  "sched_inv s \<longleftrightarrow> distinct (map sc_id (sd_items s)) \<and> distinct (sd_running s)
     \<and> list_all (item_ok (sd_running s)) (sd_items s) \<and> calls_ok s"

lemma set_item_ids: "(\<And>x. sc_id (g x) = sc_id x) \<Longrightarrow> map sc_id (set_item i g xs) = map sc_id xs"
  by (simp add: set_item_def)

lemma set_item_const_ids: "sc_id y = i \<Longrightarrow> map sc_id (set_item i (\<lambda>_. y) xs) = map sc_id xs"
  by (auto simp: set_item_def)

lemma arm_frame [simp]:
  "sd_items (arm now s) = sd_items s" "sd_running (arm now s) = sd_running s"
  "sd_calls (arm now s) = sd_calls s" "sd_ended (arm now s) = sd_ended s"
  "sd_stopped (arm now s) = sd_stopped s" "sd_started (arm now s) = sd_started s"
  "sd_store (arm now s) = sd_store s"
  by (simp_all add: arm_def Let_def)

lemma commit_frame [simp]:
  "sd_items (commit s) = sd_items s" "sd_running (commit s) = sd_running s"
  "sd_calls (commit s) = sd_calls s" "sd_ended (commit s) = sd_ended s"
  "sd_stopped (commit s) = sd_stopped s" "sd_started (commit s) = sd_started s"
  "sd_timer (commit s) = sd_timer s" "sd_store (commit s) = Some (sd_items s)"
  by (simp_all add: commit_def persist_def Let_def)

lemma calls_ok_frame [simp]:
  "calls_ok (commit s) = calls_ok s" "calls_ok (arm now s) = calls_ok s"
  "calls_ok (s\<lparr>sd_items := xs\<rparr>) = calls_ok s"
  by (simp_all add: calls_ok_def calls_of_def ends_of_def)

lemma sched_inv_cong:
  assumes "sd_items s' = sd_items s" "sd_running s' = sd_running s" "sd_calls s' = sd_calls s" "sd_ended s' = sd_ended s"
  shows "sched_inv s' = sched_inv s"
  using assms by (simp add: sched_inv_def calls_ok_def calls_of_def ends_of_def)

lemma find_item_Some: "find_item i xs = Some x \<Longrightarrow> x \<in> set xs \<and> sc_id x = i"
  using find_mem by (fastforce simp: find_item_def)

text \<open>Replacing one row by an acceptable one.\<close>

lemma set_item_ok:
  assumes "list_all (item_ok r) xs" and "item_ok r y"
  shows "list_all (item_ok r) (set_item i (\<lambda>_. y) xs)"
  using assms by (auto simp: set_item_def list_all_iff)

lemma sched_inv_set_item:
  assumes "sched_inv s" and "sc_id y = i" and "item_ok (sd_running s) y"
  shows "sched_inv (s\<lparr>sd_items := set_item i (\<lambda>_. y) (sd_items s)\<rparr>)"
  using assms set_item_const_ids [OF assms(2)] set_item_ok
  by (auto simp: sched_inv_def)

section \<open>Every step keeps the invariant\<close>

lemma create_inv:
  assumes "sched_inv s" and "fresh \<notin> set (sd_running s)" and "fresh \<notin> sc_id ` set (sd_items s)"
  shows "sched_inv (snd (create tz here now fresh input s))"
  using assms
  by (auto simp: create_def Let_def sched_inv_def item_ok_def split: sum.splits)

lemma patch_item_id [simp]: "sc_id (patch_item here p x) = sc_id x"
  "sc_history (patch_item here p x) = sc_history x"
  by (simp_all add: patch_item_def)

text \<open>An update that throws leaves the patched row behind, which is acceptable too.\<close>

lemma update_inv:
  assumes "sched_inv s" and p: "sp_status p \<in> {None, Some SActive, Some SPaused}"
  shows "sched_inv (snd (update tz here now i p s))"
proof (cases "find_item i (sd_items s)")
  case None
  with assms show ?thesis by (simp add: update_def)
next
  case (Some item)
  let ?u = "update_item tz here now (i \<in> set (sd_running s)) (patch_item here p item)"
  from find_item_Some [OF Some] have mem: "item \<in> set (sd_items s)" "sc_id item = i" by auto
  then have old: "item_ok (sd_running s) item" using assms(1) by (simp add: sched_inv_def list_all_iff)
  show ?thesis
  proof (cases ?u)
    case (Inl e)
    then have "item_ok (sd_running s) (patch_item here p item)"
      using p mem(2) old
      by (auto simp: update_item_def computeNext_def item_ok_def bind_result_def split: if_splits sum.splits)
        (auto simp: patch_item_def split: option.splits)
    from sched_inv_set_item [OF assms(1) _ this] mem(2) show ?thesis
      by (simp add: update_def Some Let_def Inl)
  next
    case (Inr x)
    then have "sc_id x = i" "item_ok (sd_running s) x"
      using mem(2) old
      by (auto simp: update_item_def computeNext_def item_ok_def bind_result_eq_Inr split: if_splits)
    from sched_inv_set_item [OF assms(1) this] show ?thesis
      by (simp add: update_def Some Let_def Inr) (subst sched_inv_cong, simp_all)
  qed
qed

lemma remove_inv: "sched_inv s \<Longrightarrow> sched_inv (remove i s)"
  by (auto simp: sched_inv_def remove_def list_all_iff distinct_map_filter)

lemma markRead_inv:
  assumes "sched_inv s" shows "sched_inv (snd (markRead i s))"
proof (cases "find_item i (sd_items s)")
  case None
  with assms show ?thesis by (simp add: markRead_def)
next
  case (Some item)
  from find_item_Some [OF Some] have mem: "item \<in> set (sd_items s)" "sc_id item = i" by auto
  then have "item_ok (sd_running s) (item\<lparr>sc_unread := False\<rparr>)"
    using assms by (auto simp: sched_inv_def list_all_iff item_ok_def)
  from sched_inv_set_item [OF assms _ this] mem(2) show ?thesis
    by (simp add: markRead_def Some Let_def) (subst sched_inv_cong, simp_all)
qed

lemma begin_run_simps [simp]:
  "sc_id (begin_run now f x) = sc_id x" "sc_status (begin_run now f x) = SRunning"
  "length (sc_history (begin_run now f x)) \<le> HISTORY_LIMIT"
  by (simp_all add: begin_run_def)

text \<open>What \<open>fire\<close> does to a row that is not running.\<close>

lemma fire_cases:
  assumes "sc_id item \<notin> set (sd_running s)"
  obtains y where "sc_id y = sc_id item" "sc_status y = SRunning" "length (sc_history y) \<le> HISTORY_LIMIT"
    "sd_items (fire tz here now f item s) = set_item (sc_id item) (\<lambda>_. y) (sd_items s)"
    "sd_running (fire tz here now f item s) = sd_running s @ [sc_id item]"
    "sd_ended (fire tz here now f item s) = sd_ended s"
    "sd_calls (fire tz here now f item s) = sd_calls s @
       (case nextRunAfter tz here (sc_frequency item) now (sc_createdAt item) of Inl _ \<Rightarrow> [] | Inr _ \<Rightarrow> [y])"
    "sc_nextRunAt y = (case nextRunAfter tz here (sc_frequency item) now (sc_createdAt item) of
        Inl _ \<Rightarrow> sc_nextRunAt item | Inr nxt \<Rightarrow> nxt)"
proof (cases "nextRunAfter tz here (sc_frequency item) now (sc_createdAt item)")
  case (Inl e)
  with assms show thesis
    by (intro that [of "begin_run now f item"]) (simp_all add: fire_def Let_def, simp add: begin_run_def)
next
  case (Inr nxt)
  with assms show thesis
    by (intro that [of "(begin_run now f item)\<lparr>sc_nextRunAt := nxt\<rparr>"]) (simp_all add: fire_def Let_def)
qed

lemma fire_inv:
  assumes "sched_inv s" shows "sched_inv (fire tz here now f item s)"
proof (cases "sc_id item \<in> set (sd_running s)")
  case True
  with assms show ?thesis by (simp add: fire_def)
next
  case False
  obtain y where y: "sc_id y = sc_id item" "sc_status y = SRunning" "length (sc_history y) \<le> HISTORY_LIMIT"
    and t: "sd_items (fire tz here now f item s) = set_item (sc_id item) (\<lambda>_. y) (sd_items s)"
      "sd_running (fire tz here now f item s) = sd_running s @ [sc_id item]"
      "sd_ended (fire tz here now f item s) = sd_ended s"
      "sd_calls (fire tz here now f item s) = sd_calls s @
       (case nextRunAfter tz here (sc_frequency item) now (sc_createdAt item) of Inl _ \<Rightarrow> [] | Inr _ \<Rightarrow> [y])"
    using fire_cases [OF False, of tz here now f] by metis
  have "list_all (item_ok (sd_running s @ [sc_id item])) (set_item (sc_id item) (\<lambda>_. y) (sd_items s))"
    using assms y by (auto simp: sched_inv_def list_all_iff item_ok_def set_item_def)
  moreover have "calls_ok (fire tz here now f item s)"
    unfolding calls_ok_def
  proof
    fix i
    have "calls_of i s \<le> ends_of i s + (if i \<in> set (sd_running s) then 1 else 0)"
      using assms by (simp add: sched_inv_def calls_ok_def)
    then show "calls_of i (fire tz here now f item s) \<le> ends_of i (fire tz here now f item s)
        + (if i \<in> set (sd_running (fire tz here now f item s)) then 1 else 0)"
      using False y(1) by (auto simp: calls_of_def ends_of_def t split: sum.splits if_splits)
  qed
  ultimately show ?thesis
    using assms False unfolding sched_inv_def t by (simp add: set_item_const_ids [OF y(1)])
qed

lemma tick_loop_inv: "sched_inv s \<Longrightarrow> sched_inv (tick_loop tz here now xs s)"
  by (induction xs arbitrary: s) (auto simp: fire_inv)

lemma tick_inv:
  assumes "sched_inv s" shows "sched_inv (tick tz here now fresh s)"
proof -
  have "sched_inv (s\<lparr>sd_timer := None\<rparr>)" using assms by (subst sched_inv_cong) simp_all
  from tick_loop_inv [OF this] show ?thesis
    unfolding tick_def by (subst sched_inv_cong) simp_all
qed

lemma runNow_inv: "sched_inv s \<Longrightarrow> sched_inv (snd (runNow tz here now fresh i s))"
  by (auto simp: runNow_def Let_def fire_inv split: option.splits)

lemma settle_simps [simp]:
  "sc_id (settle r now x) = sc_id x" "sc_nextRunAt (settle r now x) = sc_nextRunAt x"
  "length (sc_history (settle r now x)) = length (sc_history x)"
  by (auto simp: settle_def split: list.splits)

lemma fire_end_inv:
  assumes "sched_inv s" and "ends_of i s < calls_of i s"
  shows "sched_inv (fire_end now i r s)"
proof -
  let ?t = "fire_end now i r s"
  have t: "sd_items ?t = set_item i (settle r now) (sd_items s)"
    "sd_running ?t = filter (\<lambda>j. j \<noteq> i) (sd_running s)" "sd_calls ?t = sd_calls s" "sd_ended ?t = sd_ended s @ [i]"
    by (simp_all add: fire_end_def)
  have "item_ok (sd_running ?t) x" if x: "x \<in> set (sd_items ?t)" for x
  proof -
    from x obtain y where y: "y \<in> set (sd_items s)" "x = (if sc_id y = i then settle r now y else y)"
      by (auto simp: t set_item_def)
    then have "item_ok (sd_running s) y" using assms(1) by (simp add: sched_inv_def list_all_iff)
    with y(2) show ?thesis
      by (cases "sc_id y = i") (auto simp: item_ok_def t, auto simp: settle_def split: sum.splits if_splits list.splits)
  qed
  moreover have "calls_ok ?t"
    unfolding calls_ok_def
  proof
    fix j
    have "calls_of j s \<le> ends_of j s + (if j \<in> set (sd_running s) then 1 else 0)"
      using assms by (simp add: sched_inv_def calls_ok_def)
    then show "calls_of j ?t \<le> ends_of j ?t + (if j \<in> set (sd_running ?t) then 1 else 0)"
      by (auto simp: calls_of_def ends_of_def t split: if_splits)
  qed
  ultimately show ?thesis
    using assms(1) by (simp add: sched_inv_def t list_all_iff set_item_ids)
qed

lemma sched_step_inv: "sched_step tz here s t \<Longrightarrow> sched_inv s \<Longrightarrow> sched_inv t"
proof (induction rule: sched_step.induct)
  case (step_stop s)
  then show ?case by (subst sched_inv_cong) (simp_all add: stop_def)
qed (simp_all add: tick_inv fire_end_inv create_inv update_inv remove_inv markRead_inv runNow_inv)

lemma sched_reach_inv: "(sched_step tz here)\<^sup>*\<^sup>* s t \<Longrightarrow> sched_inv s \<Longrightarrow> sched_inv t"
  by (induction rule: rtranclp_induct) (auto intro: sched_step_inv)

section \<open>The timer\<close>

text \<open>A started scheduler that has not been stopped always has a timer of at most \<open>MAX_SLEEP_MS\<close>.\<close>

definition ticking :: "scheduler \<Rightarrow> bool" where
  "ticking s \<longleftrightarrow> sd_stopped s \<or> (\<exists>d. sd_timer s = Some d \<and> 0 \<le> d \<and> d \<le> MAX_SLEEP_MS)"

lemma arm_ticking: "ticking (arm now s)"
  by (auto simp: ticking_def arm_def Let_def MAX_SLEEP_MS_def)

lemma arm_sleeps_to_due:
  assumes "\<not> sd_stopped s" and "x \<in> set (sd_items s)" "sc_status x = SActive" "sc_nextRunAt x = Some t"
  shows "\<exists>d. sd_timer (arm now s) = Some d \<and> d \<le> max 0 (t - now)"
proof -
  let ?due = "due_times (sd_items s)"
  have mem: "t \<in> set ?due" using assms(2-4)
    by (force simp: due_times_def List.map_filter_def image_iff)
  then have "Min (set ?due) \<le> t" by simp
  moreover have "?due \<noteq> []" using mem by auto
  ultimately show ?thesis using assms(1) by (auto simp: arm_def Let_def)
qed

lemma fire_timer [simp]: "sd_timer (fire tz here now f x s) = sd_timer s"
  "sd_stopped (fire tz here now f x s) = sd_stopped s"
  by (auto simp: fire_def Let_def split: sum.splits)

lemma tick_loop_stopped [simp]: "sd_stopped (tick_loop tz here now xs s) = sd_stopped s"
  by (induction tz here now xs s rule: tick_loop.induct) simp_all

lemma sched_step_ticking: "sched_step tz here s t \<Longrightarrow> ticking s \<Longrightarrow> ticking t"
proof (induction rule: sched_step.induct)
  case (step_update p s now i)
  then show ?case by (auto simp: update_def Let_def ticking_def split: option.splits sum.splits)
next
  case (step_stop s)
  then show ?case by (simp add: ticking_def stop_def)
next
  case (step_create fresh s now input)
  then show ?case by (auto simp: create_def Let_def ticking_def split: sum.splits)
next
  case (step_tick s now fresh)
  show ?case by (simp add: tick_def arm_ticking)
next
  case (step_end i s now r)
  show ?case by (simp add: fire_end_def arm_ticking)
qed (auto simp: remove_def markRead_def runNow_def Let_def ticking_def split: option.splits)

section \<open>A tick fires what is due\<close>

definition can_advance :: "zone_db \<Rightarrow> string \<Rightarrow> int \<Rightarrow> schedule \<Rightarrow> bool" where
  "can_advance tz here now x \<longleftrightarrow> (case nextRunAfter tz here (sc_frequency x) now (sc_createdAt x) of
     Inl _ \<Rightarrow> False | Inr _ \<Rightarrow> True)"

lemma fire_calls:
  assumes "sc_id x \<notin> set (sd_running s)" and "can_advance tz here now x"
  shows "map sc_id (sd_calls (fire tz here now f x s)) = map sc_id (sd_calls s) @ [sc_id x]"
    and "sd_running (fire tz here now f x s) = sd_running s @ [sc_id x]"
proof -
  obtain y where "sc_id y = sc_id x"
    "sd_running (fire tz here now f x s) = sd_running s @ [sc_id x]"
    "sd_calls (fire tz here now f x s) = sd_calls s @
       (case nextRunAfter tz here (sc_frequency x) now (sc_createdAt x) of Inl _ \<Rightarrow> [] | Inr _ \<Rightarrow> [y])"
    using fire_cases [OF assms(1), of tz here now f] by metis
  with assms(2) show "map sc_id (sd_calls (fire tz here now f x s)) = map sc_id (sd_calls s) @ [sc_id x]"
    "sd_running (fire tz here now f x s) = sd_running s @ [sc_id x]"
    by (auto simp: can_advance_def split: sum.splits)
qed

lemma tick_loop_calls:
  assumes "distinct (map (sc_id \<circ> fst) xs)"
    and "\<And>x f. (x, f) \<in> set xs \<Longrightarrow> is_due now x \<Longrightarrow> sc_id x \<notin> set (sd_running s) \<and> can_advance tz here now x"
  shows "map sc_id (sd_calls (tick_loop tz here now xs s)) =
    map sc_id (sd_calls s) @ map sc_id (filter (is_due now) (map fst xs))"
  using assms
proof (induction xs arbitrary: s)
  case (Cons xf xs)
  obtain x f where xf: "xf = (x, f)" by (cases xf)
  show ?case
  proof (cases "is_due now x")
    case False
    have "map sc_id (sd_calls (tick_loop tz here now xs s)) =
        map sc_id (sd_calls s) @ map sc_id (filter (is_due now) (map fst xs))"
      using Cons.prems by (intro Cons.IH) auto
    with False xf show ?thesis by simp
  next
    case True
    with Cons.prems(2) [of x f] xf have x: "sc_id x \<notin> set (sd_running s)" "can_advance tz here now x" by auto
    note fc = fire_calls [OF x, of f]
    have "map sc_id (sd_calls (tick_loop tz here now xs (fire tz here now f x s))) =
        map sc_id (sd_calls (fire tz here now f x s)) @ map sc_id (filter (is_due now) (map fst xs))"
    proof (rule Cons.IH)
      show "distinct (map (sc_id \<circ> fst) xs)" using Cons.prems(1) by (simp add: comp_def)
      fix x' f' assume "(x', f') \<in> set xs" "is_due now x'"
      then show "sc_id x' \<notin> set (sd_running (fire tz here now f x s)) \<and> can_advance tz here now x'"
        using Cons.prems xf fc(2) by (force simp: image_iff)
    qed
    with True xf fc(1) show ?thesis by simp
  qed
qed simp

lemma tick_loop_not_due:
  assumes "y \<in> set (sd_items (tick_loop tz here now xs s))" and "is_due now y"
  shows "y \<in> set (sd_items s) \<and>
    (\<forall>x f. (x, f) \<in> set xs \<longrightarrow> is_due now x \<longrightarrow> sc_id x \<notin> set (sd_running s) \<longrightarrow> sc_id y \<noteq> sc_id x)"
  using assms
proof (induction xs arbitrary: s)
  case (Cons xf xs)
  obtain x f where xf: "xf = (x, f)" by (cases xf)
  show ?case
  proof (cases "is_due now x \<and> sc_id x \<notin> set (sd_running s)")
    case False
    then have "tick_loop tz here now (xf # xs) s = tick_loop tz here now xs s"
      by (auto simp: xf fire_def)
    with Cons False xf show ?thesis by auto
  next
    case True
    then obtain z where z: "sc_id z = sc_id x" "sc_status z = SRunning"
      "sd_items (fire tz here now f x s) = set_item (sc_id x) (\<lambda>_. z) (sd_items s)"
      "sd_running (fire tz here now f x s) = sd_running s @ [sc_id x]"
      using fire_cases [of x s tz here now f] by metis
    from Cons.IH [of "fire tz here now f x s"] Cons.prems True xf
    have IH: "y \<in> set (sd_items (fire tz here now f x s))"
      "\<And>x' f'. (x', f') \<in> set xs \<Longrightarrow> is_due now x' \<Longrightarrow> sc_id x' \<notin> set (sd_running (fire tz here now f x s)) \<Longrightarrow> sc_id y \<noteq> sc_id x'"
      by auto
    have y: "y \<in> set (sd_items s)" "sc_id y \<noteq> sc_id x"
      using IH(1) z Cons.prems(2) by (auto simp: z(3) set_item_def is_due_def split: if_splits)
    have "sc_id y \<noteq> sc_id x'" if "(x', f') \<in> set (xf # xs)" "is_due now x'" "sc_id x' \<notin> set (sd_running s)" for x' f'
      using IH(2) [of x' f'] that y(2) z(4) xf by (cases "sc_id x' = sc_id x") auto
    with y(1) show ?thesis by blast
  qed
qed simp

lemma tick_calls:
  assumes "sched_inv s" and "length (sd_items s) \<le> length fresh"
    and "\<forall>x\<in>set (sd_items s). is_due now x \<longrightarrow> can_advance tz here now x"
  shows "map sc_id (sd_calls (tick tz here now fresh s)) =
      map sc_id (sd_calls s) @ map sc_id (filter (is_due now) (sd_items s))"
    and "\<not> (\<exists>y\<in>set (sd_items (tick tz here now fresh s)). is_due now y)"
proof -
  let ?xs = "zip (sd_items s) fresh" and ?s = "s\<lparr>sd_timer := None\<rparr>"
  have fst: "map fst ?xs = sd_items s" using assms(2) by (simp add: map_fst_zip_take)
  then have fst_set: "fst ` set ?xs = set (sd_items s)" by (metis set_map)
  have idle: "sc_id x \<notin> set (sd_running s)" if "x \<in> set (sd_items s)" "is_due now x" for x
    using assms(1) that by (auto simp: sched_inv_def list_all_iff item_ok_def is_due_def)
  have "distinct (map (sc_id \<circ> fst) ?xs)"
    using assms(1) fst by (metis (no_types) map_map sched_inv_def)
  from tick_loop_calls [OF this, of now ?s tz here]
  show "map sc_id (sd_calls (tick tz here now fresh s)) =
      map sc_id (sd_calls s) @ map sc_id (filter (is_due now) (sd_items s))"
    using idle assms(3) by (auto simp: tick_def fst dest: set_zip_leftD)
  show "\<not> (\<exists>y\<in>set (sd_items (tick tz here now fresh s)). is_due now y)"
  proof
    assume "\<exists>y\<in>set (sd_items (tick tz here now fresh s)). is_due now y"
    then obtain y where y: "y \<in> set (sd_items (tick_loop tz here now ?xs ?s))" "is_due now y" by (auto simp: tick_def)
    from tick_loop_not_due [OF this] have mem: "y \<in> set (sd_items s)"
      and no: "\<And>x f. (x, f) \<in> set ?xs \<Longrightarrow> is_due now x \<Longrightarrow> sc_id x \<notin> set (sd_running s) \<Longrightarrow> sc_id y \<noteq> sc_id x"
      by auto
    from mem fst_set obtain f where "(y, f) \<in> set ?xs" by (force simp: image_iff)
    with no [of y f] idle [OF mem] y(2) show False by blast
  qed
qed

end
