(* ===== verification/ScheduleBook.thy ===== *)
theory ScheduleBook
  imports Scheduler
begin

text \<open>
  The scheduler between two starts of the application (\<open>#load\<close>, \<open>readSchedule\<close> and the constructor of
  \<^verbatim>\<open>apps/desktop/src/main/scheduler/index.ts\<close>), the agent's \<open>schedule\<close> tool over it
  (\<^verbatim>\<open>apps/desktop/src/main/scheduler/tools.ts\<close>), and the properties of the running scheduler.

  A stored row is read with each field checked: a field that is absent or has another type is \<open>None\<close>
  here.  The frequency past its kind and the entries of the history are taken over unchecked by the
  code, and are typed here.  What the tool returns is kept as structure: its JSON text is a
  rendering of it.
\<close>

section \<open>Loading the stored rows\<close>

record stored_row =
  st_id :: "string option"
  st_title :: "string option"
  st_prompt :: "string option"
  st_frequency :: "frequency option"
  st_status :: "sched_status option"
  st_createdAt :: "int option"
  st_nextRunAt :: "int option"
  st_lastRunAt :: "int option"
  st_history :: "schedule_run list option"
  st_unread :: bool

definition stored :: "schedule \<Rightarrow> stored_row" where
  "stored x = \<lparr>st_id = Some (sc_id x), st_title = Some (sc_title x), st_prompt = Some (sc_prompt x),
     st_frequency = Some (sc_frequency x), st_status = Some (sc_status x), st_createdAt = Some (sc_createdAt x),
     st_nextRunAt = sc_nextRunAt x, st_lastRunAt = sc_lastRunAt x, st_history = Some (sc_history x),
     st_unread = sc_unread x\<rparr>"

fun kind_of :: "frequency \<Rightarrow> string" where
  "kind_of (Once _ _) = ''once''"
| "kind_of (Hourly _ _ _) = ''hourly''"
| "kind_of (Daily _ _ _) = ''daily''"
| "kind_of (Weekly _ _ _ _) = ''weekly''"
| "kind_of (Monthly _ _ _ _) = ''monthly''"
| "kind_of (Yearly _ _ _ _ _) = ''yearly''"
| "kind_of (CronExpr _ _) = ''cron''"

definition KINDS :: "string list" where
  "KINDS = [''once'', ''hourly'', ''daily'', ''weekly'', ''monthly'', ''yearly'']"

definition readSchedule :: "int \<Rightarrow> stored_row \<Rightarrow> schedule option" where
  "readSchedule now v =
     (case (st_id v, st_frequency v) of
        (Some i, Some f) \<Rightarrow>
          if kind_of f \<notin> set KINDS then None
          else Some \<lparr>sc_id = i,
            sc_title = (case st_title v of Some t \<Rightarrow> t | None \<Rightarrow> ''Untitled schedule''),
            sc_prompt = (case st_prompt v of Some t \<Rightarrow> t | None \<Rightarrow> []),
            sc_frequency = f,
            sc_status = (case st_status v of Some st \<Rightarrow> st | None \<Rightarrow> SActive),
            sc_createdAt = (case st_createdAt v of Some t \<Rightarrow> t | None \<Rightarrow> now),
            sc_nextRunAt = st_nextRunAt v, sc_lastRunAt = st_lastRunAt v,
            sc_history = (case st_history v of Some h \<Rightarrow> take HISTORY_LIMIT h | None \<Rightarrow> []),
            sc_unread = st_unread v\<rparr>
      | _ \<Rightarrow> None)"

text \<open>The preference is \<open>None\<close> when it is missing or not an array.\<close>

definition load :: "int \<Rightarrow> stored_row list option \<Rightarrow> schedule list" where
  "load now value = (case value of None \<Rightarrow> [] | Some rows \<Rightarrow> List.map_filter (readSchedule now) rows)"

definition new_scheduler :: "int \<Rightarrow> stored_row list option \<Rightarrow> scheduler" where
  "new_scheduler now value = \<lparr>sd_items = load now value, sd_running = [], sd_timer = None, sd_started = False,
     sd_stopped = False, sd_store = None, sd_told = [], sd_calls = [], sd_ended = []\<rparr>"

section \<open>The schedule tool\<close>

record sched_summary =
  sm_id :: string
  sm_title :: string
  sm_prompt :: string
  sm_frequency :: frequency
  sm_status :: sched_status
  sm_nextRunAt :: "int option"
  sm_lastRun :: "(int \<times> run_outcome \<times> string option \<times> string option) option"

definition summarise :: "schedule \<Rightarrow> sched_summary" where
  "summarise x = \<lparr>sm_id = sc_id x, sm_title = sc_title x, sm_prompt = sc_prompt x,
     sm_frequency = sc_frequency x, sm_status = sc_status x,
     sm_nextRunAt = (if sc_nextRunAt x = Some 0 then None else sc_nextRunAt x),
     sm_lastRun = (case sc_history x of [] \<Rightarrow> None
       | r # _ \<Rightarrow> Some (sr_startedAt r, sr_outcome r, sr_summary r, sr_error r))\<rparr>"

datatype tool_failure = NeedsTitleAndPrompt | NeedsFrequency | NeedsId string | Thrown sched_error

datatype tool_reply = Schedules "sched_summary list" | Summary sched_summary | Removed | Fail tool_failure

record schedule_tool_input =
  ti_action :: string
  ti_id :: "string option"
  ti_title :: "string option"
  ti_prompt :: "string option"
  ti_frequency :: "frequency option"
  ti_status :: "sched_status option"

text \<open>\<open>ScheduleBook\<close>: the operations the tool calls, over a state \<open>'s\<close>.\<close>

record 's schedule_book =
  bk_list :: "'s \<Rightarrow> schedule list"
  bk_create :: "schedule_input \<Rightarrow> 's \<Rightarrow> (sched_error, schedule) result \<times> 's"
  bk_update :: "string \<Rightarrow> schedule_patch \<Rightarrow> 's \<Rightarrow> (sched_error, schedule) result \<times> 's"
  bk_remove :: "string \<Rightarrow> 's \<Rightarrow> 's"
  bk_runNow :: "string \<Rightarrow> 's \<Rightarrow> (sched_error, schedule) result \<times> 's"

definition reply_of :: "(sched_error, schedule) result \<Rightarrow> tool_reply" where
  "reply_of r = (case r of Inl e \<Rightarrow> Fail (Thrown e) | Inr x \<Rightarrow> Summary (summarise x))"

definition tool_patch :: "schedule_tool_input \<Rightarrow> schedule_patch" where
  "tool_patch input = \<lparr>sp_title = ti_title input, sp_prompt = ti_prompt input, sp_frequency = ti_frequency input,
     sp_status = (case ti_status input of Some SActive \<Rightarrow> Some SActive | Some SPaused \<Rightarrow> Some SPaused | _ \<Rightarrow> None)\<rparr>"

definition trimmed_or_empty :: "string option \<Rightarrow> string" where
  "trimmed_or_empty v = (case v of Some t \<Rightarrow> js_trim t | None \<Rightarrow> [])"

definition tool_create :: "'s schedule_book \<Rightarrow> schedule_tool_input \<Rightarrow> 's \<Rightarrow> tool_reply \<times> 's" where
  "tool_create book input s =
     (let title = trimmed_or_empty (ti_title input); prompt = trimmed_or_empty (ti_prompt input) in
      if title = [] \<or> prompt = [] then (Fail NeedsTitleAndPrompt, s)
      else case ti_frequency input of
        None \<Rightarrow> (Fail NeedsFrequency, s)
      | Some f \<Rightarrow> (case bk_create book \<lparr>si_title = title, si_prompt = prompt, si_frequency = f\<rparr> s of
          (r, s') \<Rightarrow> (reply_of r, s')))"

definition schedule_tool :: "'s schedule_book \<Rightarrow> schedule_tool_input \<Rightarrow> 's \<Rightarrow> tool_reply \<times> 's" where
  "schedule_tool book input s =
     (if ti_action input = ''list'' then (Schedules (map summarise (bk_list book s)), s)
      else if ti_action input = ''create'' then tool_create book input s
      else
        let i = (case ti_id input of Some t \<Rightarrow> t | None \<Rightarrow> []) in
        if i = [] then (Fail (NeedsId (ti_action input)), s)
        else if ti_action input = ''remove'' then (Removed, bk_remove book i s)
        else if ti_action input = ''run'' then (case bk_runNow book i s of (r, s') \<Rightarrow> (reply_of r, s'))
        else (case bk_update book i (tool_patch input) s of (r, s') \<Rightarrow> (reply_of r, s')))"

text \<open>The book the backend hands the tool: the scheduler itself.\<close>

definition scheduler_book :: "zone_db \<Rightarrow> string \<Rightarrow> int \<Rightarrow> string \<Rightarrow> scheduler schedule_book" where
  "scheduler_book tz here now fresh = \<lparr>bk_list = list_schedules, bk_create = create tz here now fresh,
     bk_update = update tz here now, bk_remove = remove, bk_runNow = runNow tz here now fresh\<rparr>"

section \<open>What the tool relies on\<close>

text \<open>
  A book whose operations are steps of some relation, when their patches are well typed; \<open>ready\<close> is
  what a creation needs.  Everything the tool does is then such a step.
\<close>

locale book_laws =
  fixes book :: "'s schedule_book" and ready :: "'s \<Rightarrow> bool" and steps :: "'s \<Rightarrow> 's \<Rightarrow> bool"
  assumes create_steps: "ready s \<Longrightarrow> steps s (snd (bk_create book x s))"
    and update_steps: "sp_status p \<in> {None, Some SActive, Some SPaused} \<Longrightarrow> steps s (snd (bk_update book i p s))"
    and remove_steps: "steps s (bk_remove book i s)"
    and run_steps: "steps s (snd (bk_runNow book i s))"
    and no_steps: "steps s s"
begin

lemma tool_create_steps: "ready s \<Longrightarrow> steps s (snd (tool_create book input s))"
  using create_steps
  by (auto simp: tool_create_def Let_def no_steps split: option.splits prod.splits) (metis snd_conv)

lemma tool_patch_typed: "sp_status (tool_patch input) \<in> {None, Some SActive, Some SPaused}"
  by (auto simp: tool_patch_def split: option.splits sched_status.splits)

lemma tool_steps: "ready s \<Longrightarrow> steps s (snd (schedule_tool book input s))"
  using update_steps [OF tool_patch_typed, of s _ input] run_steps [of s] remove_steps [of s] tool_create_steps [of s input]
  by (auto simp: schedule_tool_def Let_def no_steps split: option.splits prod.splits)
    (metis snd_conv)+

end

definition fresh_id :: "string \<Rightarrow> scheduler \<Rightarrow> bool" where
  "fresh_id i s \<longleftrightarrow> i \<notin> set (sd_running s) \<and> i \<notin> sc_id ` set (sd_items s)"

interpretation sbook: book_laws "scheduler_book tz here now fresh" "fresh_id fresh" "(sched_step tz here)\<^sup>*\<^sup>*"
  for tz here now fresh
  by unfold_locales
    (auto simp: scheduler_book_def fresh_id_def intro!: r_into_rtranclp intro: sched_step.intros)

section \<open>A started scheduler\<close>

lemma readSchedule_history: "readSchedule now v = Some x \<Longrightarrow> length (sc_history x) \<le> HISTORY_LIMIT"
  by (auto simp: readSchedule_def split: option.splits if_splits)

lemma load_history: "x \<in> set (load now value) \<Longrightarrow> length (sc_history x) \<le> HISTORY_LIMIT"
  by (auto simp: load_def List.map_filter_def dest: readSchedule_history split: option.splits)

lemma interrupted_simps [simp]:
  "sc_id (interrupted now x) = sc_id x" "length (sc_history (interrupted now x)) = length (sc_history x)"
  "sc_status (interrupted now x) \<noteq> SRunning"
  by (auto simp: interrupted_def, simp add: settle_def)

lemma set_next_simps [simp]: "sc_id (set_next n x) = sc_id x" "sc_history (set_next n x) = sc_history x"
  "sc_nextRunAt (set_next n x) = n"
  by (auto simp: set_next_def)

lemma set_next_status: "sc_status (set_next n x) = sc_status x \<or> sc_status (set_next n x) = SDone"
  by (auto simp: set_next_def)

text \<open>The loop of \<open>start\<close> that meets no invalid expression leaves no row running.\<close>

lemma start_items_ok:
  assumes "start_items tz here now xs = (None, ys)" and "\<forall>x\<in>set xs. length (sc_history x) \<le> HISTORY_LIMIT"
  shows "map sc_id ys = map sc_id xs \<and> list_all (item_ok []) ys"
  using assms
proof (induction xs arbitrary: ys)
  case (Cons x xs)
  then obtain n zs where n: "computeNext tz here (interrupted now x) now = Inr n"
    and zs: "start_items tz here now xs = (None, zs)" and ys: "ys = set_next n (interrupted now x) # zs"
    by (auto simp: Let_def split: sum.splits prod.splits)
  from n have "sc_status (interrupted now x) = SPaused \<Longrightarrow> n = None" by (simp add: computeNext_def)
  then have "item_ok [] (set_next n (interrupted now x))"
    using set_next_status [of n "interrupted now x"] interrupted_simps(3) [of now x] Cons.prems(2)
    by (auto simp: item_ok_def simp del: interrupted_simps(3))
  with Cons.IH [OF zs] Cons.prems(2) ys show ?case by simp
qed simp

lemma start_inv:
  assumes "scheduler_start tz here now (new_scheduler t value) = (None, s)"
    and "distinct (map sc_id (load t value))"
  shows "sched_inv s" and "ticking s"
proof -
  obtain ys where ys: "start_items tz here now (load t value) = (None, ys)" and
    s: "s = arm now (let s' = (new_scheduler t value)\<lparr>sd_started := True, sd_items := ys\<rparr> in
          if ys \<noteq> load t value then persist s' else s')"
    using assms(1) by (auto simp: scheduler_start_def new_scheduler_def Let_def split: prod.splits option.splits)
  have ok: "map sc_id ys = map sc_id (load t value)" "list_all (item_ok []) ys"
    using start_items_ok [OF ys] load_history by blast+
  have "sd_items s = ys" "sd_running s = []" "sd_calls s = []" "sd_ended s = []"
    by (auto simp: s Let_def new_scheduler_def persist_def)
  with ok assms(2) show "sched_inv s"
    by (simp add: sched_inv_def calls_ok_def calls_of_def ends_of_def)
  show "ticking s" unfolding s by (rule arm_ticking)
qed

lemma reach_inv:
  assumes "scheduler_start tz here now (new_scheduler t value) = (None, s0)"
    and "distinct (map sc_id (load t value))" and "(sched_step tz here)\<^sup>*\<^sup>* s0 s"
  shows "sched_inv s" and "ticking s"
proof -
  show "sched_inv s" by (rule sched_reach_inv [OF assms(3) start_inv(1) [OF assms(1,2)]])
  from assms(3) start_inv(2) [OF assms(1,2)] show "ticking s"
    by (induction rule: rtranclp_induct) (auto intro: sched_step_ticking)
qed

text \<open>A demonstration: a one-off at instant 2000 and a stored row the application died in.\<close>

definition demo_zone :: zone_db where "demo_zone z t = 0"

definition demo_row :: schedule where
  "demo_row = \<lparr>sc_id = ''a'', sc_title = ''Brief'', sc_prompt = ''Do it.'', sc_frequency = Once 2000 (Some ''UTC''),
     sc_status = SRunning, sc_createdAt = 0, sc_nextRunAt = None, sc_lastRunAt = None, sc_history = [],
     sc_unread = False\<rparr>"

definition demo_started :: scheduler where
  "demo_started = snd (scheduler_start demo_zone ''UTC'' 1000 (new_scheduler 1000 (Some [stored demo_row])))"

lemmas sched_eval = demo_started_def scheduler_start_def new_scheduler_def load_def List.map_filter_def
  readSchedule_def stored_def demo_row_def KINDS_def interrupted_def settle_def computeNext_def set_next_def
  nextRunAfter_def HISTORY_LIMIT_def arm_def due_times_def MAX_SLEEP_MS_def persist_def commit_def Let_def
  runNow_def fire_def begin_run_def find_item_def set_item_def fire_end_def update_def patch_item_def
  update_item_def tick_def is_due_def bind_result_def

lemma demo_start: "scheduler_start demo_zone ''UTC'' 1000 (new_scheduler 1000 (Some [stored demo_row])) = (None, demo_started)"
  by (simp add: sched_eval)

lemma demo_load: "distinct (map sc_id (load 1000 (Some [stored demo_row])))"
  by (simp add: sched_eval)

section \<open>Properties\<close>




text \<open>The row of \<open>demo_started\<close> failed; updating it makes it active again and it fires at its instant.\<close>

definition demo_active :: scheduler where
  "demo_active = snd (update demo_zone ''UTC'' 1200 ''a''
     \<lparr>sp_title = None, sp_prompt = None, sp_frequency = None, sp_status = None\<rparr> demo_started)"

lemma demo_active_reached: "(sched_step demo_zone ''UTC'')\<^sup>*\<^sup>* demo_started demo_active"
  unfolding demo_active_def by (intro r_into_rtranclp step_update) simp


text \<open>
  What a commit stores is read back at the next start field by field, except that every row with
  a cron expression is dropped: \<open>KINDS\<close> does not have \<open>cron\<close>.
\<close>

definition is_cron :: "schedule \<Rightarrow> bool" where
  "is_cron x \<longleftrightarrow> kind_of (sc_frequency x) = ''cron''"

lemma readSchedule_stored:
  assumes "length (sc_history x) \<le> HISTORY_LIMIT"
  shows "readSchedule now (stored x) = (if is_cron x then None else Some x)"
  using assms by (cases "sc_frequency x") (simp_all add: readSchedule_def stored_def KINDS_def is_cron_def)

lemma load_stored:
  assumes "\<forall>x\<in>set xs. length (sc_history x) \<le> HISTORY_LIMIT"
  shows "load now (Some (map stored xs)) = filter (\<lambda>x. \<not> is_cron x) xs"
  using assms by (induction xs) (simp_all add: load_def List.map_filter_def readSchedule_stored)

theorem restart_drops_cron:
  assumes "scheduler_start tz here now (new_scheduler t value) = (None, s0)"
    and "distinct (map sc_id (load t value))" and "(sched_step tz here)\<^sup>*\<^sup>* s0 s"
  shows "load u (map_option (map stored) (sd_store (commit s))) = filter (\<lambda>x. \<not> is_cron x) (list_schedules s)"
  using reach_inv(1) [OF assms] load_stored [of "sd_items s" u]
  by (auto simp: sched_inv_def list_all_iff item_ok_def list_schedules_def)

theorem restart_drops_cron_witness:
  "map sc_id (load 9000 (map_option (map stored) (sd_store (commit demo_started)))) = [''a'']"
proof -
  have "load 9000 (map_option (map stored) (sd_store (commit demo_started))) =
    filter (\<lambda>x. \<not> is_cron x) (list_schedules demo_started)"
    by (rule restart_drops_cron [OF demo_start demo_load rtranclp.rtrancl_refl])
  then show ?thesis by (simp add: is_cron_def list_schedules_def sched_eval)
qed

text \<open>Row \<open>i\<close> of the list, as a client sees it.\<close>

definition row :: "string \<Rightarrow> scheduler \<Rightarrow> schedule option" where
  "row i s = find_item i (sd_items s)"

lemma find_item_set:
  "find_item i (set_item i g xs) = map_option g (find_item i xs)" if "\<And>x. sc_id (g x) = sc_id x"
  using that by (induction xs) (simp_all add: find_item_def set_item_def)

lemma find_item_set_const:
  "sc_id y = i \<Longrightarrow> find_item i (set_item i (\<lambda>_. y) xs) = map_option (\<lambda>_. y) (find_item i xs)"
  by (induction xs) (simp_all add: find_item_def set_item_def)

lemma row_fire_end: "row i (fire_end now i r s) = map_option (settle r now) (row i s)"
  by (simp add: row_def fire_end_def find_item_set)

text \<open>
  Pausing a schedule that is running has no effect once the run succeeds: the row is active
  again and keeps its next run.
\<close>

theorem pause_while_running_lost:
  assumes "row i s = Some x" and "i \<in> set (sd_running s)" and "sc_nextRunAt x = Some t"
    and "sp_status p = Some SPaused" and "sp_frequency p = None"
  shows "\<exists>y. row i (fire_end later i (Inr r) (snd (update tz here now i p s))) = Some y \<and>
    sc_status y = SActive \<and> sc_nextRunAt y = Some t"
proof -
  let ?y = "(patch_item here p x)\<lparr>sc_status := SRunning\<rparr>"
  have "sc_id x = i" using assms(1) find_item_Some by (auto simp: row_def)
  then have "row i (snd (update tz here now i p s)) = Some ?y"
    using assms(1,2) by (simp add: row_def update_def update_item_def Let_def find_item_set_const)
  moreover have "sc_nextRunAt ?y = Some t" using assms(3) by (simp add: patch_item_def)
  ultimately show ?thesis by (simp add: row_fire_end) (simp add: settle_def)
qed

definition demo_running :: scheduler where
  "demo_running = snd (runNow demo_zone ''UTC'' 1500 ''r'' ''a'' demo_started)"

definition pause_patch :: schedule_patch where
  "pause_patch = \<lparr>sp_title = None, sp_prompt = None, sp_frequency = None, sp_status = Some SPaused\<rparr>"

theorem pause_while_running_lost_witness:
  "\<exists>y. row ''a'' (fire_end 1800 ''a'' (Inr \<lparr>xr_summary = None, xr_conversationId = None, xr_runId = None\<rparr>)
     (snd (update demo_zone ''UTC'' 1600 ''a'' pause_patch demo_running))) = Some y \<and>
    sc_status y = SActive \<and> sc_nextRunAt y = Some 2000"
proof -
  obtain x where "row ''a'' demo_running = Some x" "sc_nextRunAt x = Some 2000"
    by (simp add: row_def demo_running_def sched_eval)
  moreover have "''a'' \<in> set (sd_running demo_running)" by (simp add: demo_running_def sched_eval)
  ultimately show ?thesis
    by (intro pause_while_running_lost) (simp_all add: pause_patch_def)
qed

text \<open>
  A schedule whose run failed keeps its next run but no tick, at any instant, fires it or
  changes it.
\<close>

lemma fire_other_row: "i \<noteq> sc_id x \<Longrightarrow> row i (fire tz here now f x s) = row i s"
proof -
  assume ne: "i \<noteq> sc_id x"
  have "find_item i (set_item (sc_id x) (\<lambda>_. y) xs) = find_item i xs" if "sc_id y = sc_id x" for y xs
    using ne that by (induction xs) (auto simp: find_item_def set_item_def)
  then show ?thesis by (auto simp: row_def fire_def Let_def split: sum.splits)
qed

lemma fire_other_calls: "i \<noteq> sc_id x \<Longrightarrow> calls_of i (fire tz here now f x s) = calls_of i s"
  by (auto simp: fire_def Let_def calls_of_def split: sum.splits)

lemma tick_loop_other:
  assumes "\<And>x f. (x, f) \<in> set xs \<Longrightarrow> is_due now x \<Longrightarrow> sc_id x \<noteq> i"
  shows "row i (tick_loop tz here now xs s) = row i s \<and> calls_of i (tick_loop tz here now xs s) = calls_of i s"
  using assms
proof (induction tz here now xs s rule: tick_loop.induct)
  case (2 tz here now x f rest s)
  let ?s = "if is_due now x then fire tz here now f x s else s"
  have "row i (tick_loop tz here now rest ?s) = row i ?s \<and>
      calls_of i (tick_loop tz here now rest ?s) = calls_of i ?s"
    using "2.prems" by (intro "2.IH") (metis list.set_intros(2))
  moreover have "row i ?s = row i s \<and> calls_of i ?s = calls_of i s"
    using "2.prems" [of x f] by (cases "is_due now x") (simp_all add: fire_other_row fire_other_calls)
  ultimately show ?case by simp
qed simp

theorem failed_never_fires:
  assumes "scheduler_start tz here t0 (new_scheduler t value) = (None, s0)"
    and "distinct (map sc_id (load t value))" and "(sched_step tz here)\<^sup>*\<^sup>* s0 s"
    and "row i s = Some x" and "sc_status x = SFailed"
  shows "row i (tick tz here now fresh s) = Some x \<and> calls_of i (tick tz here now fresh s) = calls_of i s"
proof -
  have inv: "sched_inv s" by (rule reach_inv(1) [OF assms(1-3)])
  have x: "x \<in> set (sd_items s)" "sc_id x = i" using assms(4) find_item_Some by (auto simp: row_def)
  have "sc_id y \<noteq> i" if y: "(y, f) \<in> set (zip (sd_items s) fresh)" "is_due now y" for y f
  proof
    assume "sc_id y = i"
    with x set_zip_leftD [OF y(1)] inv have "y = x"
      unfolding sched_inv_def distinct_map inj_on_def by blast
    with y(2) assms(5) show False by (simp add: is_due_def)
  qed
  from tick_loop_other [of "zip (sd_items s) fresh" now i tz here "s\<lparr>sd_timer := None\<rparr>", OF this] assms(4) show ?thesis
    by (simp add: tick_def row_def calls_of_def)
qed

theorem failed_never_fires_witness:
  "calls_of ''a'' (tick demo_zone ''UTC'' 5000 [''r''] demo_started) = 0
   \<and> map_option sc_nextRunAt (row ''a'' (tick demo_zone ''UTC'' 5000 [''r''] demo_started)) = Some (Some 2000)"
proof -
  obtain x where x: "row ''a'' demo_started = Some x" "sc_status x = SFailed" "sc_nextRunAt x = Some 2000"
    by (simp add: row_def sched_eval)
  from failed_never_fires [OF demo_start demo_load rtranclp.rtrancl_refl x(1,2)] x(3)
  show ?thesis by (simp add: calls_of_def) (simp add: sched_eval)
qed

text \<open>
  Firing a paused schedule by hand resumes it: when the run succeeds the row is active, with the
  next run of its cadence, although it was paused and nobody resumed it.
\<close>

theorem run_now_resumes_paused:
  assumes "row i s = Some x" and "sc_status x = SPaused" and "i \<notin> set (sd_running s)"
    and "nextRunAfter tz here (sc_frequency x) now (sc_createdAt x) = Inr (Some t)"
  shows "\<exists>y. row i (fire_end later i (Inr r) (snd (runNow tz here now f i s))) = Some y \<and>
    sc_status y = SActive \<and> sc_nextRunAt y = Some t"
proof -
  have "sc_id x = i" using assms(1) find_item_Some by (auto simp: row_def)
  then have "row i (snd (runNow tz here now f i s)) = Some ((begin_run now f x)\<lparr>sc_nextRunAt := Some t\<rparr>)"
    using assms by (simp add: row_def runNow_def fire_def Let_def find_item_set_const)
  then show ?thesis by (simp add: row_fire_end) (simp add: settle_def)
qed

definition demo_paused :: scheduler where
  "demo_paused = snd (update demo_zone ''UTC'' 1200 ''a'' pause_patch demo_started)"

theorem run_now_resumes_paused_witness:
  "\<exists>y. row ''a'' (fire_end 1800 ''a'' (Inr \<lparr>xr_summary = None, xr_conversationId = None, xr_runId = None\<rparr>)
     (snd (runNow demo_zone ''UTC'' 1500 ''r'' ''a'' demo_paused))) = Some y \<and>
    sc_status y = SActive \<and> sc_nextRunAt y = Some 2000"
proof -
  obtain x where x: "row ''a'' demo_paused = Some x" "sc_status x = SPaused" "sc_frequency x = Once 2000 (Some ''UTC'')"
    by (simp add: row_def demo_paused_def pause_patch_def sched_eval)
  have "''a'' \<notin> set (sd_running demo_paused)" by (simp add: demo_paused_def pause_patch_def sched_eval)
  with x show ?thesis by (intro run_now_resumes_paused [OF x(1,2)]) (simp_all add: nextRunAfter_def)
qed

text \<open>
  Whatever the agent asks of the schedule tool, the scheduler takes at most steps its invariant
  is proved for; a refused creation changes nothing.
\<close>

theorem schedule_tool_steps:
  assumes "fresh_id fresh s"
  shows "(sched_step tz here)\<^sup>*\<^sup>* s (snd (schedule_tool (scheduler_book tz here now fresh) input s)) \<and>
    (\<forall>why. schedule_tool (scheduler_book tz here now fresh) input s = (Fail why, s') \<longrightarrow>
      ti_action input = ''create'' \<longrightarrow> s' = s)"
proof (intro conjI allI impI)
  show "(sched_step tz here)\<^sup>*\<^sup>* s (snd (schedule_tool (scheduler_book tz here now fresh) input s))"
    by (rule sbook.tool_steps [OF assms])
next
  fix why
  assume "schedule_tool (scheduler_book tz here now fresh) input s = (Fail why, s')" "ti_action input = ''create''"
  then show "s' = s"
    by (auto simp: schedule_tool_def tool_create_def scheduler_book_def reply_of_def create_def Let_def
        split: if_splits option.splits sum.splits prod.splits)
qed

theorem schedule_tool_steps_witness:
  "snd (schedule_tool (scheduler_book demo_zone ''UTC'' 1500 ''b'') \<lparr>ti_action = ''create'', ti_id = None,
      ti_title = Some '' '', ti_prompt = Some ''Go'', ti_frequency = Some (Once 7 None), ti_status = None\<rparr> demo_started)
    = demo_started"
proof -
  let ?in = "\<lparr>ti_action = ''create'', ti_id = None, ti_title = Some '' '', ti_prompt = Some ''Go'',
    ti_frequency = Some (Once 7 None), ti_status = None\<rparr>"
  obtain s' where s': "schedule_tool (scheduler_book demo_zone ''UTC'' 1500 ''b'') ?in demo_started = (Fail NeedsTitleAndPrompt, s')"
    by (simp add: schedule_tool_def tool_create_def trimmed_or_empty_def js_trim_def is_js_space_def)
  have "fresh_id ''b'' demo_started" by (simp add: fresh_id_def sched_eval)
  from schedule_tool_steps [OF this, of demo_zone "''UTC''" 1500 ?in s'] s' show ?thesis by simp
qed

end
