(* ===== verification/Locks.thy ===== *)
theory Locks
  imports Prelude
begin

text \<open>
  Taking turns: \<open>KeyedMutex\<close> of \<^verbatim>\<open>packages/core/src/locks.ts\<close>, \<open>withFileMutation\<close> of
  \<^verbatim>\<open>packages/tools/src/mutation-queue.ts\<close>, and the event queue of \<^verbatim>\<open>packages/core/src/runner.ts\<close>.

  Each call of \<open>run\<close> or \<open>withFileMutation\<close> is a ticket, numbered in the order of the calls.  Its
  promise \<open>mine\<close> is resolved once the ticket is released; its tail \<open>earlier.then(() => mine)\<close> once
  the tail before it and \<open>mine\<close> are.  What waits on a promise goes on at some later step, in any
  order: the models make every continuation a step of its own.  Whether the work returns or rejects
  makes no difference to the lock, which releases in a \<open>finally\<close>.
\<close>

section \<open>Tickets\<close>

datatype phase = Waiting | Working | Released

record ticket =
  tk_key :: string
  tk_earlier :: "nat option"  \<comment> \<open>the ticket whose tail was the key's when this one was taken\<close>
  tk_phase :: phase

record mutex =
  mx_tickets :: "ticket list"
  mx_tails :: "string \<rightharpoonup> nat"

definition new_mutex :: mutex where
  "new_mutex = \<lparr>mx_tickets = [], mx_tails = Map.empty\<rparr>"

function tail_resolved :: "ticket list \<Rightarrow> nat \<Rightarrow> bool" where
  "tail_resolved ts n =
     (n < length ts \<and> tk_phase (ts ! n) = Released \<and>
      (case tk_earlier (ts ! n) of None \<Rightarrow> True | Some e \<Rightarrow> if e < n then tail_resolved ts e else False))"
  by pat_completeness auto
termination by (relation "measure snd") auto

declare tail_resolved.simps [simp del]

definition earlier_resolved :: "mutex \<Rightarrow> nat \<Rightarrow> bool" where
  "earlier_resolved s n = (case tk_earlier (mx_tickets s ! n) of None \<Rightarrow> True | Some e \<Rightarrow> tail_resolved (mx_tickets s) e)"

definition set_phase :: "nat \<Rightarrow> phase \<Rightarrow> mutex \<Rightarrow> mutex" where
  "set_phase n p s = s\<lparr>mx_tickets := (mx_tickets s)[n := (mx_tickets s ! n)\<lparr>tk_phase := p\<rparr>]\<rparr>"

section \<open>KeyedMutex\<close>

text \<open>\<open>run\<close> up to its first \<open>await\<close>: with no earlier tail the work starts at once.\<close>

definition run_enter :: "string \<Rightarrow> mutex \<Rightarrow> mutex" where
  "run_enter key s =
     (let earlier = mx_tails s key in
      s\<lparr>mx_tickets := mx_tickets s @ [\<lparr>tk_key = key, tk_earlier = earlier,
          tk_phase = (if earlier = None then Working else Waiting)\<rparr>],
        mx_tails := (mx_tails s)(key \<mapsto> length (mx_tickets s))\<rparr>)"

text \<open>The continuation of \<open>tail.then\<close>.\<close>

definition run_forget :: "nat \<Rightarrow> mutex \<Rightarrow> mutex" where
  "run_forget n s =
     (let key = tk_key (mx_tickets s ! n) in
      if mx_tails s key = Some n then s\<lparr>mx_tails := (mx_tails s)(key := None)\<rparr> else s)"

definition held :: "string \<Rightarrow> mutex \<Rightarrow> bool" where
  "held key s \<longleftrightarrow> mx_tails s key \<noteq> None"

inductive mutex_step :: "mutex \<Rightarrow> mutex \<Rightarrow> bool" where
  mutex_enter: "mutex_step s (run_enter key s)"
| mutex_wake: "n < length (mx_tickets s) \<Longrightarrow> tk_phase (mx_tickets s ! n) = Waiting \<Longrightarrow> earlier_resolved s n \<Longrightarrow>
    mutex_step s (set_phase n Working s)"
| mutex_release: "n < length (mx_tickets s) \<Longrightarrow> tk_phase (mx_tickets s ! n) = Working \<Longrightarrow>
    mutex_step s (set_phase n Released s)"
| mutex_forget: "tail_resolved (mx_tickets s) n \<Longrightarrow> mutex_step s (run_forget n s)"

section \<open>withFileMutation\<close>

text \<open>\<open>realpath\<close> is the file system's, \<open>None\<close> where it throws; \<open>resolve\<close> is Node's.\<close>

definition canonicalPath :: "(string \<Rightarrow> string option) \<Rightarrow> (string \<Rightarrow> string) \<Rightarrow> string \<Rightarrow> string" where
  "canonicalPath realpath resolve path = (case realpath path of Some p \<Rightarrow> p | None \<Rightarrow> resolve path)"

text \<open>Here a ticket waits even when the tail before it is the resolved promise.\<close>

definition mutation_enter :: "string \<Rightarrow> mutex \<Rightarrow> mutex" where
  "mutation_enter key s =
     s\<lparr>mx_tickets := mx_tickets s @ [\<lparr>tk_key = key, tk_earlier = mx_tails s key, tk_phase = Waiting\<rparr>],
       mx_tails := (mx_tails s)(key \<mapsto> length (mx_tickets s))\<rparr>"

definition mutation_release :: "nat \<Rightarrow> mutex \<Rightarrow> mutex" where
  "mutation_release n s = run_forget n (set_phase n Released s)"

inductive mutation_step :: "(string \<Rightarrow> string) \<Rightarrow> mutex \<Rightarrow> mutex \<Rightarrow> bool" for resolve where
  mutation_enter: "mutation_step resolve s (mutation_enter (canonicalPath realpath resolve path) s)"
| mutation_wake: "n < length (mx_tickets s) \<Longrightarrow> tk_phase (mx_tickets s ! n) = Waiting \<Longrightarrow> earlier_resolved s n \<Longrightarrow>
    mutation_step resolve s (set_phase n Working s)"
| mutation_release: "n < length (mx_tickets s) \<Longrightarrow> tk_phase (mx_tickets s ! n) = Working \<Longrightarrow>
    mutation_step resolve s (mutation_release n s)"

section \<open>The shared invariant\<close>

definition before :: "mutex \<Rightarrow> nat \<Rightarrow> nat \<Rightarrow> bool" where
  "before s m n \<longleftrightarrow> m < n \<and> n < length (mx_tickets s) \<and> tk_key (mx_tickets s ! m) = tk_key (mx_tickets s ! n)"

definition released :: "mutex \<Rightarrow> nat \<Rightarrow> bool" where
  "released s n \<longleftrightarrow> tk_phase (mx_tickets s ! n) = Released"

definition chain_ok :: "mutex \<Rightarrow> bool" where
  "chain_ok s \<longleftrightarrow>
     (\<forall>m n. before s m n \<longrightarrow> tk_earlier (mx_tickets s ! n) = None \<longrightarrow> released s m) \<and>
     (\<forall>m n e. before s m n \<longrightarrow> tk_earlier (mx_tickets s ! n) = Some e \<longrightarrow> m \<le> e) \<and>
     (\<forall>n e. n < length (mx_tickets s) \<longrightarrow> tk_earlier (mx_tickets s ! n) = Some e \<longrightarrow> before s e n)"

definition turns_ok :: "mutex \<Rightarrow> bool" where
  "turns_ok s \<longleftrightarrow> (\<forall>m n. before s m n \<longrightarrow> tk_phase (mx_tickets s ! n) \<noteq> Waiting \<longrightarrow> released s m)"

definition tails_ok :: "mutex \<Rightarrow> bool" where
  "tails_ok s \<longleftrightarrow>
     (\<forall>n<length (mx_tickets s). mx_tails s (tk_key (mx_tickets s ! n)) = None \<longrightarrow> released s n) \<and>
     (\<forall>n<length (mx_tickets s). \<forall>l. mx_tails s (tk_key (mx_tickets s ! n)) = Some l \<longrightarrow> n \<le> l) \<and>
     (\<forall>k l. mx_tails s k = Some l \<longrightarrow> l < length (mx_tickets s) \<and> tk_key (mx_tickets s ! l) = k)"

definition lock_inv :: "mutex \<Rightarrow> bool" where
  "lock_inv s \<longleftrightarrow> chain_ok s \<and> turns_ok s \<and> tails_ok s"

lemma new_mutex_inv: "lock_inv new_mutex"
  by (simp add: lock_inv_def chain_ok_def turns_ok_def tails_ok_def new_mutex_def before_def)

lemma released_below:
  assumes "lock_inv s" and "released s n" and "before s m n"
  shows "released s m"
  using assms by (auto simp: lock_inv_def turns_ok_def released_def)

lemma tail_resolved_released: "tail_resolved ts n \<Longrightarrow> n < length ts \<and> tk_phase (ts ! n) = Released"
  by (subst (asm) tail_resolved.simps) simp

text \<open>Under the invariant a tail is resolved exactly when its ticket is released.\<close>

lemma tail_resolved_iff:
  assumes "lock_inv s" and "n < length (mx_tickets s)"
  shows "tail_resolved (mx_tickets s) n \<longleftrightarrow> released s n"
  using assms(2)
proof (induction n rule: less_induct)
  case (less n)
  show ?case
  proof (cases "tk_earlier (mx_tickets s ! n)")
    case None
    with less.prems show ?thesis by (subst tail_resolved.simps) (simp add: released_def)
  next
    case (Some e)
    then have e: "before s e n" using assms(1) less.prems by (fastforce simp: lock_inv_def chain_ok_def)
    then have "e < n" "e < length (mx_tickets s)" by (auto simp: before_def)
    with less.IH [of e] Some released_below [OF assms(1) _ e] less.prems show ?thesis
      by (subst tail_resolved.simps) (auto simp: released_def)
  qed
qed

text \<open>A ticket whose predecessor's tail is resolved has no unreleased ticket of its key before it.\<close>

lemma earlier_resolved_iff:
  assumes "lock_inv s" and "n < length (mx_tickets s)"
  shows "earlier_resolved s n \<longleftrightarrow> (\<forall>m. before s m n \<longrightarrow> released s m)"
proof (cases "tk_earlier (mx_tickets s ! n)")
  case None
  with assms show ?thesis by (fastforce simp: lock_inv_def chain_ok_def earlier_resolved_def)
next
  case (Some e)
  then have e: "before s e n" "\<And>m. before s m n \<Longrightarrow> m \<le> e"
    using assms by (fastforce simp: lock_inv_def chain_ok_def)+
  then have len: "e < length (mx_tickets s)" by (auto simp: before_def)
  have "released s m" if "released s e" "before s m n" for m
  proof (cases "m = e")
    case False
    with e(2) [OF that(2)] that(2) e(1) have "before s m e" by (auto simp: before_def)
    with released_below [OF assms(1) that(1)] show ?thesis by blast
  qed (use that in simp)
  with e(1) Some tail_resolved_iff [OF assms(1) len] show ?thesis by (auto simp: earlier_resolved_def)
qed

lemma set_phase_simps [simp]:
  "length (mx_tickets (set_phase n p s)) = length (mx_tickets s)" "mx_tails (set_phase n p s) = mx_tails s"
  "before (set_phase n p s) m l = before s m l"
  by (cases "n < length (mx_tickets s)"; auto simp: set_phase_def before_def nth_list_update)+

lemma set_phase_nth:
  assumes "n < length (mx_tickets s)"
  shows "tk_phase (mx_tickets (set_phase n p s) ! m) = (if m = n then p else tk_phase (mx_tickets s ! m))"
    and "tk_key (mx_tickets (set_phase n p s) ! m) = tk_key (mx_tickets s ! m)"
    and "tk_earlier (mx_tickets (set_phase n p s) ! m) = tk_earlier (mx_tickets s ! m)"
  using assms by (auto simp: set_phase_def nth_list_update)

lemma wake_inv:
  assumes "lock_inv s" and n: "n < length (mx_tickets s)" "tk_phase (mx_tickets s ! n) = Waiting" and "earlier_resolved s n"
  shows "lock_inv (set_phase n Working s)"
proof -
  have rel: "released (set_phase n Working s) m = released s m" for m
    using n by (simp add: released_def set_phase_nth)
  have "\<forall>m. before s m n \<longrightarrow> released s m" using assms earlier_resolved_iff by blast
  with assms(1) n show ?thesis
    by (auto simp: lock_inv_def chain_ok_def turns_ok_def tails_ok_def rel set_phase_nth)
qed

lemma release_inv:
  assumes "lock_inv s" and n: "n < length (mx_tickets s)" "tk_phase (mx_tickets s ! n) = Working"
  shows "lock_inv (set_phase n Released s)"
proof -
  have rel: "released (set_phase n Released s) m \<longleftrightarrow> m = n \<or> released s m" for m
    using n by (simp add: released_def set_phase_nth)
  have "before s m n \<Longrightarrow> released s m" for m using assms by (auto simp: lock_inv_def turns_ok_def)
  with assms(1) n show ?thesis
    by (auto simp: lock_inv_def chain_ok_def turns_ok_def tails_ok_def rel set_phase_nth split: option.splits)
qed

lemma forget_inv:
  assumes "lock_inv s" and "n < length (mx_tickets s)" and "released s n"
  shows "lock_inv (run_forget n s)"
proof (cases "mx_tails s (tk_key (mx_tickets s ! n)) = Some n")
  case True
  let ?t = "run_forget n s"
  have t: "mx_tickets ?t = mx_tickets s" "mx_tails ?t = (mx_tails s)(tk_key (mx_tickets s ! n) := None)"
    using True by (simp_all add: run_forget_def Let_def)
  have b: "before ?t = before s" "released ?t = released s"
    by (auto simp: fun_eq_iff before_def released_def t)
  have "released s m" if "m < length (mx_tickets s)" "tk_key (mx_tickets s ! m) = tk_key (mx_tickets s ! n)" for m
  proof -
    have "m \<le> n" using assms(1) that True unfolding lock_inv_def tails_ok_def by metis
    then have "m = n \<or> before s m n" using that assms(2) by (auto simp: before_def)
    then show ?thesis using assms(3) released_below [OF assms(1,3)] by auto
  qed
  with assms(1) t b show ?thesis unfolding lock_inv_def chain_ok_def turns_ok_def tails_ok_def by auto
qed (simp add: run_forget_def assms(1))

text \<open>Taking a ticket, to wait or, with no tail before it, to start at once.\<close>

lemma enter_inv:
  assumes "lock_inv s" and "p = Waiting \<or> (p = Working \<and> mx_tails s key = None)"
  shows "lock_inv (s\<lparr>mx_tickets := mx_tickets s @ [\<lparr>tk_key = key, tk_earlier = mx_tails s key, tk_phase = p\<rparr>],
    mx_tails := (mx_tails s)(key \<mapsto> length (mx_tickets s))\<rparr>)" (is "lock_inv ?t")
proof -
  let ?n = "length (mx_tickets s)"
  have old: "before ?t m l \<longleftrightarrow> before s m l" "released ?t l \<longleftrightarrow> released s l" if "l < ?n" for m l
    using that by (auto simp: before_def released_def nth_append)
  have new: "before ?t m ?n \<longleftrightarrow> m < ?n \<and> tk_key (mx_tickets s ! m) = key" for m
    by (auto simp: before_def nth_append)
  have none: "released s m" if "mx_tails s key = None" "m < ?n" "tk_key (mx_tickets s ! m) = key" for m
    using assms(1) that by (fastforce simp: lock_inv_def tails_ok_def)
  have some: "e < ?n \<and> tk_key (mx_tickets s ! e) = key \<and> (\<forall>m. m < ?n \<longrightarrow> tk_key (mx_tickets s ! m) = key \<longrightarrow> m \<le> e)"
    if "mx_tails s key = Some e" for e
    using assms(1) that by (fastforce simp: lock_inv_def tails_ok_def)
  have "chain_ok ?t"
    unfolding chain_ok_def
  proof (intro conjI allI impI)
    fix m l assume "before ?t m l" "tk_earlier (mx_tickets ?t ! l) = None"
    moreover from this have "m < ?n" "l < ?n \<or> l = ?n" by (auto simp: before_def)
    ultimately show "released ?t m"
      using assms(1) none new old by (auto simp: lock_inv_def chain_ok_def nth_append)
  next
    fix m l e assume "before ?t m l" "tk_earlier (mx_tickets ?t ! l) = Some e"
    moreover from this have "m < ?n" "l < ?n \<or> l = ?n" by (auto simp: before_def)
    ultimately show "m \<le> e"
      using assms(1) some new old by (auto simp: lock_inv_def chain_ok_def nth_append)
  next
    fix l e assume "l < length (mx_tickets ?t)" "tk_earlier (mx_tickets ?t ! l) = Some e"
    moreover from this have "l < ?n \<or> l = ?n" by auto
    ultimately show "before ?t e l"
      using assms(1) some new old by (auto simp: lock_inv_def chain_ok_def nth_append)
  qed
  moreover have "turns_ok ?t"
    unfolding turns_ok_def
  proof (intro allI impI)
    fix m l assume ml: "before ?t m l" "tk_phase (mx_tickets ?t ! l) \<noteq> Waiting"
    then have "m < ?n" "l < ?n \<or> l = ?n" by (auto simp: before_def)
    with ml assms none new old show "released ?t m"
      by (auto simp: lock_inv_def turns_ok_def nth_append)
  qed
  moreover have "tails_ok ?t"
    unfolding tails_ok_def
  proof (intro conjI allI impI)
    fix l assume "l < length (mx_tickets ?t)" "mx_tails ?t (tk_key (mx_tickets ?t ! l)) = None"
    moreover from this have "l < ?n" by (auto simp: nth_append less_Suc_eq split: if_splits)
    ultimately show "released ?t l"
      using assms(1) old by (auto simp: lock_inv_def tails_ok_def nth_append split: if_splits)
  next
    fix l e assume "l < length (mx_tickets ?t)" "mx_tails ?t (tk_key (mx_tickets ?t ! l)) = Some e"
    then show "l \<le> e"
      using assms(1) by (auto simp: lock_inv_def tails_ok_def nth_append less_Suc_eq split: if_splits)
  next
    fix k l assume "mx_tails ?t k = Some l"
    then show "l < length (mx_tickets ?t)" "tk_key (mx_tickets ?t ! l) = k"
      using assms(1) by (auto simp: lock_inv_def tails_ok_def nth_append less_Suc_eq split: if_splits)
  qed
  ultimately show ?thesis by (simp add: lock_inv_def)
qed

section \<open>What a lock promises\<close>

text \<open>
  A provider's steps keep the invariant and let a waiting ticket start once all earlier tickets of its
  key are released.  The client's facts, mutual exclusion, first come first served and progress, are
  proved from that alone.
\<close>

locale turn_taking =
  fixes step :: "mutex \<Rightarrow> mutex \<Rightarrow> bool"
  assumes step_inv: "step s t \<Longrightarrow> lock_inv s \<Longrightarrow> lock_inv t"
    and step_wake: "n < length (mx_tickets s) \<Longrightarrow> tk_phase (mx_tickets s ! n) = Waiting \<Longrightarrow> earlier_resolved s n \<Longrightarrow>
      step s (set_phase n Working s)"
begin

lemma reach: "step\<^sup>*\<^sup>* new_mutex s \<Longrightarrow> lock_inv s"
  by (induction rule: rtranclp_induct) (auto intro: new_mutex_inv step_inv)

lemma exclusive:
  assumes "step\<^sup>*\<^sup>* new_mutex s" and "m < length (mx_tickets s)" "n < length (mx_tickets s)"
    and "tk_phase (mx_tickets s ! m) = Working" "tk_phase (mx_tickets s ! n) = Working"
    and "tk_key (mx_tickets s ! m) = tk_key (mx_tickets s ! n)"
  shows "m = n"
proof (rule ccontr)
  assume "m \<noteq> n"
  with assms(2,3,6) have "before s m n \<or> before s n m" by (auto simp: before_def)
  with reach [OF assms(1)] assms(4,5) show False
    unfolding lock_inv_def turns_ok_def released_def by force
qed

lemma in_turn:
  assumes "step\<^sup>*\<^sup>* new_mutex s" and "before s m n" and "tk_phase (mx_tickets s ! n) \<noteq> Waiting"
  shows "released s m"
  using reach [OF assms(1)] assms(2,3) by (auto simp: lock_inv_def turns_ok_def)

text \<open>Some ticket of the key is working, or the first waiting one can start.\<close>

lemma progress:
  assumes "step\<^sup>*\<^sup>* new_mutex s" and "n < length (mx_tickets s)" and "tk_phase (mx_tickets s ! n) \<noteq> Released"
  shows "\<exists>m \<le> n. tk_key (mx_tickets s ! m) = tk_key (mx_tickets s ! n) \<and>
    (tk_phase (mx_tickets s ! m) = Working \<or> (tk_phase (mx_tickets s ! m) = Waiting \<and> step s (set_phase m Working s)))"
proof -
  let ?P = "\<lambda>m. m < length (mx_tickets s) \<and> tk_key (mx_tickets s ! m) = tk_key (mx_tickets s ! n) \<and> \<not> released s m"
  define m where "m = (LEAST m. ?P m)"
  have "?P n" using assms(2,3) by (simp add: released_def)
  then have m: "?P m" "m \<le> n" unfolding m_def by (rule LeastI, rule Least_le)
  have "released s l" if "before s l m" for l
  proof (rule ccontr)
    assume "\<not> released s l"
    with that m(1) have "?P l" by (auto simp: before_def)
    then have "m \<le> l" unfolding m_def by (rule Least_le)
    with that show False by (simp add: before_def)
  qed
  with earlier_resolved_iff [OF reach [OF assms(1)]] m(1) have "earlier_resolved s m" by blast
  with step_wake [of m s] m show ?thesis
    by (intro exI [of _ m]) (cases "tk_phase (mx_tickets s ! m)", auto simp: released_def)
qed

end

lemma run_enter_eq: "run_enter key s = s\<lparr>mx_tickets := mx_tickets s @ [\<lparr>tk_key = key, tk_earlier = mx_tails s key,
    tk_phase = (if mx_tails s key = None then Working else Waiting)\<rparr>],
    mx_tails := (mx_tails s)(key \<mapsto> length (mx_tickets s))\<rparr>"
  by (simp add: run_enter_def Let_def)

lemma mutex_step_inv: "mutex_step s t \<Longrightarrow> lock_inv s \<Longrightarrow> lock_inv t"
proof (induction rule: mutex_step.induct)
  case (mutex_enter s key)
  then show ?case unfolding run_enter_eq by (intro enter_inv) auto
next
  case (mutex_forget s n)
  with tail_resolved_released [of "mx_tickets s" n] show ?case
    by (intro forget_inv) (auto simp: released_def)
qed (auto intro: wake_inv release_inv)

lemma mutation_release_inv:
  assumes "lock_inv s" and "n < length (mx_tickets s)" and "tk_phase (mx_tickets s ! n) = Working"
  shows "lock_inv (mutation_release n s)"
  unfolding mutation_release_def
  using release_inv [OF assms] assms(2) by (intro forget_inv) (auto simp: released_def set_phase_nth)

lemma mutation_step_inv: "mutation_step resolve s t \<Longrightarrow> lock_inv s \<Longrightarrow> lock_inv t"
proof (induction rule: mutation_step.induct)
  case (mutation_enter s realpath path)
  then show ?case unfolding mutation_enter_def by (intro enter_inv) auto
qed (auto intro: wake_inv mutation_release_inv)

interpretation keyed: turn_taking mutex_step
  by unfold_locales (auto intro: mutex_step_inv mutex_wake)

interpretation mutation: turn_taking "mutation_step resolve" for resolve
  by unfold_locales (auto intro: mutation_step_inv mutation_wake)

section \<open>The table forgets\<close>

lemma mutex_step_length: "mutex_step s t \<Longrightarrow> length (mx_tickets s) \<le> length (mx_tickets t)"
  by (induction rule: mutex_step.induct) (auto simp: run_enter_eq run_forget_def Let_def)

text \<open>With no ticket of its key in flight, a held key's tail is resolved: forgetting it is a step.\<close>

lemma idle_key_forgotten:
  assumes "lock_inv s" and "mx_tails s key = Some l"
    and "\<forall>n<length (mx_tickets s). tk_key (mx_tickets s ! n) = key \<longrightarrow> released s n"
  shows "mutex_step s (run_forget l s)" and "\<not> held key (run_forget l s)"
proof -
  have l: "l < length (mx_tickets s)" "tk_key (mx_tickets s ! l) = key"
    using assms(1,2) by (auto simp: lock_inv_def tails_ok_def)
  with assms tail_resolved_iff [OF assms(1) l(1)] show "mutex_step s (run_forget l s)"
    by (intro mutex_forget) blast
  show "\<not> held key (run_forget l s)" using l assms(2) by (simp add: run_forget_def held_def Let_def)
qed

text \<open>The mutation queue forgets at the release: a key it holds has an unreleased last ticket.\<close>

definition holds_live :: "mutex \<Rightarrow> bool" where
  "holds_live s \<longleftrightarrow> (\<forall>key l. mx_tails s key = Some l \<longrightarrow> \<not> released s l)"

lemma mutation_step_live: "mutation_step resolve s t \<Longrightarrow> lock_inv s \<Longrightarrow> holds_live s \<Longrightarrow> holds_live t"
proof (induction rule: mutation_step.induct)
  case (mutation_enter s realpath path)
  then show ?case
    by (auto simp: holds_live_def mutation_enter_def released_def nth_append lock_inv_def tails_ok_def)
next
  case (mutation_wake n s)
  then show ?case by (auto simp: holds_live_def released_def set_phase_nth)
next
  case (mutation_release n s)
  have key: "mx_tails s key = Some n \<Longrightarrow> tk_key (mx_tickets s ! n) = key" for key
    using mutation_release.prems(1) by (auto simp: lock_inv_def tails_ok_def)
  show ?case
    unfolding holds_live_def
  proof (intro allI impI)
    fix key l assume l: "mx_tails (mutation_release n s) key = Some l"
    have t: "mx_tails (mutation_release n s) = (if mx_tails s (tk_key (mx_tickets s ! n)) = Some n
        then (mx_tails s)(tk_key (mx_tickets s ! n) := None) else mx_tails s)"
      using mutation_release.hyps(1) by (simp add: mutation_release_def run_forget_def Let_def set_phase_nth)
    have "mx_tails s key = Some l" using l unfolding t by (simp split: if_splits)
    moreover from this have "l \<noteq> n" using l key [of key] unfolding t by (auto split: if_splits)
    ultimately have "l \<noteq> n" "mx_tails s key = Some l" by blast+
    with mutation_release show "\<not> released (mutation_release n s) l"
      by (auto simp: holds_live_def mutation_release_def run_forget_def Let_def released_def set_phase_nth)
  qed
qed

lemma mutation_reach_live: "(mutation_step resolve)\<^sup>*\<^sup>* new_mutex s \<Longrightarrow> holds_live s"
proof (induction rule: rtranclp_induct)
  case base
  show ?case by (simp add: holds_live_def new_mutex_def)
next
  case (step s t)
  then show ?case using mutation_step_live [OF step.hyps(2) mutation.reach [OF step.hyps(1)]] by blast
qed

section \<open>The event queue of a run\<close>

text \<open>
  \<open>AsyncEventQueue\<close>: a consumer's \<open>next\<close> is answered at once or left waiting; \<open>eq_answers\<close> records the
  answer each call got, by its number, \<open>None\<close> for the end of the stream.
\<close>

record 'a event_queue =
  eq_values :: "'a list"
  eq_waiters :: "nat list"
  eq_closed :: bool
  eq_calls :: nat
  eq_answers :: "(nat \<times> 'a option) list"

definition new_queue :: "'a event_queue" where
  "new_queue = \<lparr>eq_values = [], eq_waiters = [], eq_closed = False, eq_calls = 0, eq_answers = []\<rparr>"

definition push :: "'a \<Rightarrow> 'a event_queue \<Rightarrow> 'a event_queue" where
  "push v q =
     (if eq_closed q then q
      else case eq_waiters q of
        w # ws \<Rightarrow> q\<lparr>eq_waiters := ws, eq_answers := eq_answers q @ [(w, Some v)]\<rparr>
      | [] \<Rightarrow> q\<lparr>eq_values := eq_values q @ [v]\<rparr>)"

definition close_queue :: "'a event_queue \<Rightarrow> 'a event_queue" where
  "close_queue q = q\<lparr>eq_closed := True, eq_waiters := [],
     eq_answers := eq_answers q @ map (\<lambda>w. (w, None)) (eq_waiters q)\<rparr>"

definition next_value :: "'a event_queue \<Rightarrow> 'a event_queue" where
  "next_value q =
     (let n = eq_calls q; q' = q\<lparr>eq_calls := Suc n\<rparr> in
      case eq_values q of
        v # vs \<Rightarrow> q'\<lparr>eq_values := vs, eq_answers := eq_answers q @ [(n, Some v)]\<rparr>
      | [] \<Rightarrow> if eq_closed q then q'\<lparr>eq_answers := eq_answers q @ [(n, None)]\<rparr>
          else q'\<lparr>eq_waiters := eq_waiters q @ [n]\<rparr>)"

datatype 'a queue_op = Push 'a | Close | Next

fun queue_step :: "'a queue_op \<Rightarrow> 'a event_queue \<Rightarrow> 'a event_queue" where
  "queue_step (Push v) q = push v q"
| "queue_step Close q = close_queue q"
| "queue_step Next q = next_value q"

definition queue_run :: "'a queue_op list \<Rightarrow> 'a event_queue \<Rightarrow> 'a event_queue" where
  "queue_run = fold queue_step"

text \<open>The specification: what is pushed before the first close, in order.\<close>

fun pushed :: "'a queue_op list \<Rightarrow> 'a list" where
  "pushed [] = []"
| "pushed (Push v # ops) = v # pushed ops"
| "pushed (Close # ops) = []"
| "pushed (Next # ops) = pushed ops"

definition calls_in :: "'a queue_op list \<Rightarrow> nat" where
  "calls_in ops = length (filter (\<lambda>x. case x of Next \<Rightarrow> True | _ \<Rightarrow> False) ops)"

definition queue_ok :: "'a event_queue \<Rightarrow> bool" where
  "queue_ok q \<longleftrightarrow> (eq_waiters q \<noteq> [] \<longrightarrow> eq_values q = [] \<and> \<not> eq_closed q) \<and>
     map fst (eq_answers q) @ eq_waiters q = [0..<eq_calls q] \<and>
     (None \<in> snd ` set (eq_answers q) \<longrightarrow> eq_closed q \<and> eq_values q = [])"

definition answered :: "'a event_queue \<Rightarrow> 'a list" where
  "answered q = List.map_filter snd (eq_answers q)"

lemma answered_append [simp]: "List.map_filter f (xs @ ys) = List.map_filter f xs @ List.map_filter f ys"
  by (induction xs) (auto simp: List.map_filter_simps split: option.splits)

lemma queue_step_ok: "queue_ok q \<Longrightarrow> queue_ok (queue_step x q)"
proof (cases x)
  case Next
  moreover assume "queue_ok q"
  ultimately show ?thesis
    by (cases "eq_values q"; cases "eq_waiters q")
      (auto simp: queue_ok_def next_value_def Let_def)
qed (auto simp: queue_ok_def push_def close_queue_def comp_def split: list.splits)

lemma queue_step_values:
  assumes "queue_ok q"
  shows "answered (queue_step x q) @ eq_values (queue_step x q) = answered q @ eq_values q @
      (case x of Push v \<Rightarrow> if eq_closed q then [] else [v] | _ \<Rightarrow> [])"
    and "eq_closed (queue_step x q) \<longleftrightarrow> eq_closed q \<or> x = Close"
    and "eq_calls (queue_step x q) = eq_calls q + (case x of Next \<Rightarrow> 1 | _ \<Rightarrow> 0)"
  using assms
  by (cases x; auto simp: answered_def queue_ok_def push_def close_queue_def next_value_def Let_def
      List.map_filter_simps List.map_filter_def split: list.splits)+

lemma queue_run_spec:
  assumes "queue_ok q"
  shows "queue_ok (queue_run ops q) \<and> eq_calls (queue_run ops q) = eq_calls q + calls_in ops \<and>
    answered (queue_run ops q) @ eq_values (queue_run ops q) =
      answered q @ eq_values q @ (if eq_closed q then [] else pushed ops)"
  using assms
proof (induction ops arbitrary: q)
  case (Cons x ops)
  from Cons.IH [OF queue_step_ok [OF Cons.prems, of x]] queue_step_values [OF Cons.prems, of x]
  show ?case by (cases x) (auto simp: queue_run_def calls_in_def)
qed (simp add: queue_run_def calls_in_def)

lemma new_queue_ok: "queue_ok new_queue"
  by (simp add: queue_ok_def new_queue_def)

section \<open>Properties\<close>

text \<open>
  C24: in every interleaving of calls of \<open>KeyedMutex.run\<close> at most one call works under a key; a call
  starts only after every earlier call of its key was released, whatever its work did; while a call is
  not released, it or an earlier one of its key is working or can start; and a key nobody waits on or
  works under is forgotten by a step that is always possible.
\<close>

theorem keyed_mutex_turns:
  assumes "mutex_step\<^sup>*\<^sup>* new_mutex s" and "n < length (mx_tickets s)"
  shows "(\<forall>m<length (mx_tickets s). tk_phase (mx_tickets s ! m) = Working \<longrightarrow> tk_phase (mx_tickets s ! n) = Working \<longrightarrow>
        tk_key (mx_tickets s ! m) = tk_key (mx_tickets s ! n) \<longrightarrow> m = n) \<and>
    (tk_phase (mx_tickets s ! n) \<noteq> Waiting \<longrightarrow> (\<forall>m. before s m n \<longrightarrow> released s m)) \<and>
    (\<not> released s n \<longrightarrow> (\<exists>m\<le>n. tk_key (mx_tickets s ! m) = tk_key (mx_tickets s ! n) \<and>
        (tk_phase (mx_tickets s ! m) = Working \<or>
         tk_phase (mx_tickets s ! m) = Waiting \<and> mutex_step s (set_phase m Working s)))) \<and>
    (\<forall>key. held key s \<longrightarrow> (\<forall>m<length (mx_tickets s). tk_key (mx_tickets s ! m) = key \<longrightarrow> released s m) \<longrightarrow>
        (\<exists>t. mutex_step s t \<and> \<not> held key t))"
proof (intro conjI allI impI)
  fix key assume "held key s" "\<forall>m<length (mx_tickets s). tk_key (mx_tickets s ! m) = key \<longrightarrow> released s m"
  then show "\<exists>t. mutex_step s t \<and> \<not> held key t"
    using idle_key_forgotten [OF keyed.reach [OF assms(1)], of key] unfolding held_def by blast
next
  assume "\<not> released s n"
  with keyed.progress [OF assms(1,2)] show "\<exists>m\<le>n. tk_key (mx_tickets s ! m) = tk_key (mx_tickets s ! n) \<and>
        (tk_phase (mx_tickets s ! m) = Working \<or>
         tk_phase (mx_tickets s ! m) = Waiting \<and> mutex_step s (set_phase m Working s))"
    by (simp add: released_def)
qed (use keyed.exclusive [OF assms(1) _ assms(2)] keyed.in_turn [OF assms(1)] in auto)

definition demo_mutex :: mutex where
  "demo_mutex = run_enter ''drive:a'' (run_enter ''drive:a'' new_mutex)"

lemma demo_mutex_tickets: "mx_tickets demo_mutex =
  [\<lparr>tk_key = ''drive:a'', tk_earlier = None, tk_phase = Working\<rparr>,
   \<lparr>tk_key = ''drive:a'', tk_earlier = Some 0, tk_phase = Waiting\<rparr>]"
  by (simp add: demo_mutex_def run_enter_eq new_mutex_def)

theorem keyed_mutex_turns_witness:
  "map tk_phase (mx_tickets demo_mutex) = [Working, Waiting] \<and>
   (\<exists>m\<le>1. tk_phase (mx_tickets demo_mutex ! m) = Working \<or>
     tk_phase (mx_tickets demo_mutex ! m) = Waiting \<and> mutex_step demo_mutex (set_phase m Working demo_mutex))"
proof -
  have "mutex_step\<^sup>*\<^sup>* new_mutex demo_mutex"
    unfolding demo_mutex_def by (meson mutex_enter r_into_rtranclp rtranclp_trans)
  from keyed_mutex_turns [OF this, of 1] show ?thesis
    by (simp add: demo_mutex_tickets released_def) blast
qed

text \<open>
  C25: the same of file mutations: writes to one canonical path never overlap and take place in the
  order they were asked for, none is stuck, and the table holds a path exactly while its last write is
  unreleased.
\<close>

theorem file_mutations_take_turns:
  assumes "(mutation_step resolve)\<^sup>*\<^sup>* new_mutex s" and "n < length (mx_tickets s)"
  shows "(\<forall>m<length (mx_tickets s). tk_phase (mx_tickets s ! m) = Working \<longrightarrow> tk_phase (mx_tickets s ! n) = Working \<longrightarrow>
        tk_key (mx_tickets s ! m) = tk_key (mx_tickets s ! n) \<longrightarrow> m = n) \<and>
    (tk_phase (mx_tickets s ! n) \<noteq> Waiting \<longrightarrow> (\<forall>m. before s m n \<longrightarrow> released s m)) \<and>
    (\<not> released s n \<longrightarrow> (\<exists>m\<le>n. tk_key (mx_tickets s ! m) = tk_key (mx_tickets s ! n) \<and>
        (tk_phase (mx_tickets s ! m) = Working \<or>
         tk_phase (mx_tickets s ! m) = Waiting \<and> mutation_step resolve s (set_phase m Working s)))) \<and>
    (mx_tails s (tk_key (mx_tickets s ! n)) = None \<longleftrightarrow>
        (\<forall>m<length (mx_tickets s). tk_key (mx_tickets s ! m) = tk_key (mx_tickets s ! n) \<longrightarrow> released s m))"
proof (intro conjI allI impI)
  have inv: "tails_ok s" using mutation.reach [OF assms(1)] by (simp add: lock_inv_def)
  show "mx_tails s (tk_key (mx_tickets s ! n)) = None \<longleftrightarrow>
      (\<forall>m<length (mx_tickets s). tk_key (mx_tickets s ! m) = tk_key (mx_tickets s ! n) \<longrightarrow> released s m)"
    using inv mutation_reach_live [OF assms(1)]
    by (cases "mx_tails s (tk_key (mx_tickets s ! n))") (auto simp: tails_ok_def holds_live_def, metis)
next
  assume "\<not> released s n"
  with mutation.progress [OF assms(1,2)] show "\<exists>m\<le>n. tk_key (mx_tickets s ! m) = tk_key (mx_tickets s ! n) \<and>
        (tk_phase (mx_tickets s ! m) = Working \<or>
         tk_phase (mx_tickets s ! m) = Waiting \<and> mutation_step resolve s (set_phase m Working s))"
    by (simp add: released_def)
qed (use mutation.exclusive [OF assms(1) _ assms(2)] mutation.in_turn [OF assms(1)] in auto)

definition demo_mutation :: mutex where
  "demo_mutation = set_phase 0 Working (mutation_enter ''/tmp/a'' new_mutex)"

theorem file_mutations_take_turns_witness:
  "mx_tails demo_mutation ''/tmp/a'' = Some 0 \<and> \<not> released demo_mutation 0"
proof -
  have e: "mutation_enter (canonicalPath (\<lambda>_. None) id ''/tmp/a'') new_mutex = mutation_enter ''/tmp/a'' new_mutex"
    by (simp add: canonicalPath_def)
  have "mutation_step id new_mutex (mutation_enter ''/tmp/a'' new_mutex)"
    unfolding e [symmetric] by (rule mutation_enter)
  moreover have "mutation_step id (mutation_enter ''/tmp/a'' new_mutex) demo_mutation"
    unfolding demo_mutation_def
    by (rule mutation_wake) (simp_all add: mutation_enter_def new_mutex_def earlier_resolved_def)
  ultimately have "(mutation_step id)\<^sup>*\<^sup>* new_mutex demo_mutation" by (meson r_into_rtranclp rtranclp_trans)
  from file_mutations_take_turns [OF this, of 0] show ?thesis
    by (simp add: demo_mutation_def mutation_enter_def new_mutex_def set_phase_def released_def)
qed

text \<open>
  The consumers of a run's event queue receive what was pushed before the close, in order and
  without loss or repetition: after any operations, the values answered and the values still queued
  are exactly those, every call of \<open>next\<close> is answered once in the order of the calls or still waits,
  none waits while there is a value or after the close, and the end is answered only once the queue is
  closed and drained.
\<close>

theorem event_queue_fifo:
  fixes ops :: "'a queue_op list"
  shows "let q = queue_run ops new_queue in
    answered q @ eq_values q = pushed ops \<and>
    map fst (eq_answers q) @ eq_waiters q = [0..<calls_in ops] \<and>
    (eq_waiters q = [] \<or> eq_values q = [] \<and> \<not> eq_closed q) \<and>
    (None \<notin> snd ` set (eq_answers q) \<or> eq_closed q \<and> eq_values q = [])"
proof -
  from queue_run_spec [OF new_queue_ok, of ops]
  have "queue_ok (queue_run ops new_queue)" "eq_calls (queue_run ops new_queue) = calls_in ops"
    "answered (queue_run ops new_queue) @ eq_values (queue_run ops new_queue) = pushed ops"
    by (auto simp: new_queue_def answered_def List.map_filter_simps)
  then show ?thesis by (auto simp: Let_def queue_ok_def)
qed

theorem event_queue_fifo_witness:
  "answered (queue_run [Next, Push 1, Push 2, Next, Close, Push 3, Next] new_queue) = [1, 2 :: nat]"
proof -
  let ?ops = "[Next, Push 1, Push 2, Next, Close, Push 3, Next] :: nat queue_op list"
  have "eq_values (queue_run ?ops new_queue) = []"
    by (simp add: queue_run_def new_queue_def push_def close_queue_def next_value_def Let_def)
  with event_queue_fifo [of ?ops] show ?thesis by (simp add: Let_def)
qed

end
