(* ===== verification/LockerCsv.thy ===== *)
theory LockerCsv
  imports Prelude
begin

text \<open>
  Importing passwords exported by other tools: \<^verbatim>\<open>packages/locker/src/csv.ts\<close>.  \<open>parseCsv\<close> is a
  machine that reads one character at a time; columns are found by the names in the first row.
  \<open>host_of\<close> stands for the platform's \<open>new URL(text).hostname\<close>, \<open>None\<close> where the constructor throws.
  A byte-order mark is no character of the model, so \<open>stripBom\<close> has nothing to strip.
\<close>

section \<open>Rows and cells\<close>

abbreviation QUOTE :: char where "QUOTE \<equiv> CHR 0x22"
abbreviation CR :: char where "CR \<equiv> CHR 0x0D"
abbreviation LF :: char where "LF \<equiv> CHR 0x0A"

record csv_state =
  cv_rows :: "string list list"
  cv_cells :: "string list"
  cv_field :: string
  cv_rowQuoted :: bool

definition csv_start :: csv_state where
  "csv_start = \<lparr>cv_rows = [], cv_cells = [], cv_field = [], cv_rowQuoted = False\<rparr>"

definition add_char :: "char \<Rightarrow> csv_state \<Rightarrow> csv_state" where
  "add_char c s = s\<lparr>cv_field := cv_field s @ [c]\<rparr>"

definition end_cell :: "csv_state \<Rightarrow> csv_state" where
  "end_cell s = s\<lparr>cv_cells := cv_cells s @ [cv_field s], cv_field := []\<rparr>"

definition endRow :: "csv_state \<Rightarrow> csv_state" where
  "endRow s =
     (let cells = cv_cells s @ [cv_field s] in
      \<lparr>cv_rows = (if cells = [[]] \<and> \<not> cv_rowQuoted s then cv_rows s else cv_rows s @ [cells]),
       cv_cells = [], cv_field = [], cv_rowQuoted = False\<rparr>)"

text \<open>A carriage return takes a line feed after it along.\<close>

definition after_newline :: "char \<Rightarrow> string \<Rightarrow> string" where
  "after_newline c cs = (if c = CR \<and> take 1 cs = [LF] then drop 1 cs else cs)"

lemma after_newline_length [termination_simp]: "length (after_newline c cs) < Suc (length cs)"
  by (auto simp: after_newline_def less_Suc_eq_le)

text \<open>The loop, with \<open>quoted\<close> its mode and the rest of the source.\<close>

fun csv_loop :: "csv_state \<Rightarrow> bool \<Rightarrow> string \<Rightarrow> csv_state" where
  "csv_loop s q [] = s"
| "csv_loop s True [c] = (if c = QUOTE then s else add_char c s)"
| "csv_loop s True (c # d # cs) =
     (if c = QUOTE then (if d = QUOTE then csv_loop (add_char QUOTE s) True cs else csv_loop s False (d # cs))
      else if c = CR \<and> d = LF then csv_loop (add_char LF s) True cs
      else csv_loop (add_char c s) True (d # cs))"
| "csv_loop s False (c # cs) =
     (if c = QUOTE \<and> cv_field s = [] then csv_loop (s\<lparr>cv_rowQuoted := True\<rparr>) True cs
      else if c = CHR '','' then csv_loop (end_cell s) False cs
      else if c = LF \<or> c = CR then
        csv_loop (endRow s) False (after_newline c cs)
      else csv_loop (add_char c s) False cs)"

definition parseCsv :: "string \<Rightarrow> string list list" where
  "parseCsv text = cv_rows (endRow (csv_loop csv_start False text))"

section \<open>Columns\<close>

record columns =
  co_dialect :: string
  co_title :: "nat option"
  co_username :: "nat option"
  co_password :: "nat option"
  co_url :: "nat option"
  co_notes :: "nat option"
  co_totp :: "nat option"
  co_group :: "nat option"

record csv_login =
  cl_title :: string
  cl_username :: string
  cl_password :: string
  cl_url :: string
  cl_notes :: string
  cl_totp :: string
  cl_group :: string

definition BITWARDEN_MARKERS :: "string list" where
  "BITWARDEN_MARKERS = [''login_uri'', ''login_username'', ''login_password'']"
definition FIREFOX_MARKERS :: "string list" where
  "FIREFOX_MARKERS = [''httprealm'', ''formactionorigin'', ''guid'']"
definition SAFARI_MARKERS :: "string list" where
  "SAFARI_MARKERS = [''otpauth'', ''title'']"
definition KEEPASS_MARKERS :: "string list" where
  "KEEPASS_MARKERS = [''account'', ''login name'', ''web site'']"

fun index_of :: "string \<Rightarrow> string list \<Rightarrow> nat option" where
  "index_of x [] = None"
| "index_of x (y # ys) = (if y = x then Some 0 else map_option Suc (index_of x ys))"

fun find_column :: "string list \<Rightarrow> string list \<Rightarrow> nat option" where
  "find_column names [] = None"
| "find_column names (c # cs) = (case index_of c names of Some i \<Rightarrow> Some i | None \<Rightarrow> find_column names cs)"

definition generic_columns :: "string list \<Rightarrow> columns option" where
  "generic_columns names =
     (let find = find_column names;
          username = find [''username'', ''user name'', ''user'', ''login''];
          password = find [''password''];
          url = find [''url'', ''uri'', ''website'', ''web site'', ''login_uri''] in
      if password = None \<and> username = None \<and> url = None \<and> find [''totp'', ''otp'', ''otpauth''] = None then None
      else Some \<lparr>co_dialect = (if ''name'' \<in> set names \<and> ''url'' \<in> set names then ''Chrome'' else ''Generic''),
        co_title = find [''name'', ''title'', ''account''], co_username = username, co_password = password,
        co_url = url, co_notes = find [''note'', ''notes'', ''comments''],
        co_totp = find [''totp'', ''otp'', ''otpauth'', ''login_totp''],
        co_group = find [''folder'', ''group'', ''collection'']\<rparr>)"

definition detectColumns :: "string list \<Rightarrow> columns option" where
  "detectColumns header =
     (let names = map (\<lambda>x. js_lower (js_trim x)) header; find = find_column names in
      if list_all (\<lambda>x. x \<in> set names) BITWARDEN_MARKERS then
        Some \<lparr>co_dialect = ''Bitwarden'', co_title = find [''name''], co_username = find [''login_username''],
          co_password = find [''login_password''], co_url = find [''login_uri''], co_notes = find [''notes''],
          co_totp = find [''login_totp''], co_group = find [''folder'']\<rparr>
      else if list_ex (\<lambda>x. x \<in> set names) FIREFOX_MARKERS then
        Some \<lparr>co_dialect = ''Firefox'', co_title = find [''url''], co_username = find [''username''],
          co_password = find [''password''], co_url = find [''url''], co_notes = find [''httprealm''],
          co_totp = None, co_group = None\<rparr>
      else if list_all (\<lambda>x. x \<in> set names) SAFARI_MARKERS then
        Some \<lparr>co_dialect = ''Safari'', co_title = find [''title'', ''name''], co_username = find [''username''],
          co_password = find [''password''], co_url = find [''url''], co_notes = find [''notes''],
          co_totp = find [''otpauth''], co_group = None\<rparr>
      else if list_all (\<lambda>x. x \<in> set names) KEEPASS_MARKERS then
        Some \<lparr>co_dialect = ''KeePass'', co_title = find [''account''], co_username = find [''login name''],
          co_password = find [''password''], co_url = find [''web site''], co_notes = find [''comments''],
          co_totp = None, co_group = None\<rparr>
      else generic_columns names)"

definition cell :: "string list \<Rightarrow> nat option \<Rightarrow> string" where
  "cell row i = (case i of None \<Rightarrow> [] | Some n \<Rightarrow> if n < length row then js_trim (row ! n) else [])"

section \<open>Logins\<close>

definition strip_www :: "string \<Rightarrow> string" where
  "strip_www h = (if take 4 h = ''www.'' then drop 4 h else h)"

definition hostnameTitle :: "(string \<Rightarrow> string option) \<Rightarrow> string \<Rightarrow> string" where
  "hostnameTitle host_of url =
     (case host_of (if js_index_of ''://'' url 0 \<noteq> None then url else ''https://'' @ url) of
        None \<Rightarrow> [] | Some host \<Rightarrow> strip_www host)"

definition csv_title :: "(string \<Rightarrow> string option) \<Rightarrow> columns \<Rightarrow> string list \<Rightarrow> string" where
  "csv_title host_of co row =
     str_or (cell row (co_title co)) (str_or (hostnameTitle host_of (cell row (co_url co)))
       (str_or (cell row (co_username co)) ''Imported''))"

definition empty_row :: "columns \<Rightarrow> string list \<Rightarrow> bool" where
  "empty_row co row \<longleftrightarrow> cell row (co_password co) = [] \<and> cell row (co_username co) = [] \<and>
     cell row (co_url co) = [] \<and> cell row (co_totp co) = []"

definition read_login :: "(string \<Rightarrow> string option) \<Rightarrow> columns \<Rightarrow> string list \<Rightarrow> csv_login" where
  "read_login host_of co row = \<lparr>cl_title = csv_title host_of co row, cl_username = cell row (co_username co),
     cl_password = cell row (co_password co), cl_url = cell row (co_url co), cl_notes = cell row (co_notes co),
     cl_totp = cell row (co_totp co), cl_group = cell row (co_group co)\<rparr>"

text \<open>The loop over the rows after the first, \<open>n\<close> the number of the row as the user counts.\<close>

fun read_rows :: "(string \<Rightarrow> string option) \<Rightarrow> columns \<Rightarrow> nat \<Rightarrow> string list list \<Rightarrow> csv_login list \<times> string list" where
  "read_rows host_of co n [] = ([], [])"
| "read_rows host_of co n (row # rows) =
     (case read_rows host_of co (Suc n) rows of (logins, problems) \<Rightarrow>
        if empty_row co row then (logins, (''row '' @ show_nat n @ '' is empty'') # problems)
        else (read_login host_of co row # logins, problems))"

definition parsePasswordCsv :: "(string \<Rightarrow> string option) \<Rightarrow> string \<Rightarrow> csv_login list \<times> string list" where
  "parsePasswordCsv host_of text =
     (case parseCsv text of
        [] \<Rightarrow> ([], [''the file is empty''])
      | header # rows \<Rightarrow>
          (case detectColumns header of
             None \<Rightarrow> ([], [''not a password export: the first row reads '' @ js_join '', '' (take 8 header)])
           | Some co \<Rightarrow> read_rows host_of co 2 rows))"

section \<open>Writing CSV\<close>

text \<open>
  The specification side: a cell is written quoted, its quotes doubled, or bare when it holds no
  delimiter and does not begin with a quote; a row ends with a line feed or with both line ends.
\<close>

type_synonym csv_cell = "bool \<times> string"  \<comment> \<open>quoted, value\<close>

fun double_quotes :: "string \<Rightarrow> string" where
  "double_quotes [] = []"
| "double_quotes (c # cs) = (if c = QUOTE then [QUOTE, QUOTE] else [c]) @ double_quotes cs"

definition print_cell :: "csv_cell \<Rightarrow> string" where
  "print_cell x = (case x of (True, v) \<Rightarrow> QUOTE # double_quotes v @ [QUOTE] | (False, v) \<Rightarrow> v)"

definition cell_ok :: "csv_cell \<Rightarrow> bool" where
  "cell_ok x = (case x of (True, v) \<Rightarrow> CR \<notin> set v
     | (False, v) \<Rightarrow> CR \<notin> set v \<and> LF \<notin> set v \<and> CHR '','' \<notin> set v \<and> take 1 v \<noteq> [QUOTE])"

definition row_ok :: "csv_cell list \<Rightarrow> bool" where
  "row_ok row \<longleftrightarrow> row \<noteq> [] \<and> row \<noteq> [(False, [])] \<and> list_all cell_ok row"

definition print_row :: "bool \<times> csv_cell list \<Rightarrow> string" where
  "print_row r = (case r of (crlf, row) \<Rightarrow> js_join '','' (map print_cell row) @ (if crlf then [CR, LF] else [LF]))"

definition print_csv :: "(bool \<times> csv_cell list) list \<Rightarrow> string" where
  "print_csv rows = concat (map print_row rows)"

section \<open>Reading back\<close>

lemma add_chars [simp]: "add_char c s\<lparr>cv_rowQuoted := b\<rparr> = add_char c (s\<lparr>cv_rowQuoted := b\<rparr>)"
  by (simp add: add_char_def)

definition add_text :: "string \<Rightarrow> csv_state \<Rightarrow> csv_state" where
  "add_text v s = s\<lparr>cv_field := cv_field s @ v\<rparr>"

lemma add_text_simps [simp]: "add_text [] s = s" "add_text (c # v) s = add_text v (add_char c s)"
  "cv_field (add_text v s) = cv_field s @ v" "cv_field (add_char c s) = cv_field s @ [c]"
  "cv_rowQuoted (add_text v s) = cv_rowQuoted s" "cv_cells (add_text v s) = cv_cells s" "cv_rows (add_text v s) = cv_rows s"
  by (simp_all add: add_text_def add_char_def)

text \<open>What can follow a quoted cell: nothing, a comma or a line end.\<close>

definition ends_cell :: "string \<Rightarrow> bool" where
  "ends_cell cs \<longleftrightarrow> (case cs of [] \<Rightarrow> True | c # _ \<Rightarrow> c = CHR '','' \<or> c = LF \<or> c = CR)"

lemma quoted_cell:
  assumes "CR \<notin> set v" and "ends_cell cs"
  shows "csv_loop s True (double_quotes v @ QUOTE # cs) = csv_loop (add_text v s) False cs"
  using assms(1)
proof (induction v arbitrary: s)
  case Nil
  from assms(2) show ?case by (cases cs) (auto simp: ends_cell_def)
next
  case (Cons c v)
  show ?case
  proof (cases "c = QUOTE")
    case True
    with Cons show ?thesis by simp
  next
    case False
    obtain d ds where d: "double_quotes v @ QUOTE # cs = d # ds"
      by (cases "double_quotes v @ QUOTE # cs") auto
    have "csv_loop s True (double_quotes (c # v) @ QUOTE # cs) = csv_loop (add_char c s) True (d # ds)"
      using False Cons.prems d by auto
    with Cons d show ?thesis by simp
  qed
qed

lemma bare_cell:
  assumes "CR \<notin> set v" "LF \<notin> set v" "CHR '','' \<notin> set v" and "cv_field s \<noteq> [] \<or> take 1 v \<noteq> [QUOTE]"
  shows "csv_loop s False (v @ cs) = csv_loop (add_text v s) False cs"
  using assms
proof (induction v arbitrary: s)
  case (Cons c v)
  then have "csv_loop s False ((c # v) @ cs) = csv_loop (add_char c s) False (v @ cs)" by auto
  also have "\<dots> = csv_loop (add_text v (add_char c s)) False cs" using Cons by (intro Cons.IH) auto
  finally show ?case by simp
qed simp

definition mark :: "csv_cell \<Rightarrow> csv_state \<Rightarrow> csv_state" where
  "mark x s = s\<lparr>cv_rowQuoted := (cv_rowQuoted s \<or> fst x)\<rparr>"

lemma printed_cell:
  assumes "cell_ok x" and "ends_cell cs" and "cv_field s = []"
  shows "csv_loop s False (print_cell x @ cs) = csv_loop (add_text (snd x) (mark x s)) False cs"
proof (cases x)
  case (Pair q v)
  show ?thesis
  proof (cases q)
    case True
    with assms Pair show ?thesis
      by (simp add: print_cell_def cell_ok_def mark_def quoted_cell)
  next
    case False
    have "mark x s = s" using Pair False by (simp add: mark_def)
    moreover have "csv_loop s False (v @ cs) = csv_loop (add_text v s) False cs"
      using assms Pair False by (intro bare_cell) (auto simp: cell_ok_def)
    ultimately show ?thesis using Pair False by (simp add: print_cell_def)
  qed
qed

text \<open>A row up to its line end: all cells but the last are ended.\<close>

lemma printed_cells:
  assumes "row \<noteq> []" and "list_all cell_ok row" and "ends_cell cs" and "cv_field s = []"
  shows "csv_loop s False (js_join '','' (map print_cell row) @ cs) =
    csv_loop (s\<lparr>cv_cells := cv_cells s @ map snd (butlast row), cv_field := snd (last row),
      cv_rowQuoted := (cv_rowQuoted s \<or> list_ex fst row)\<rparr>) False cs"
  using assms
proof (induction row arbitrary: s rule: list_nonempty_induct)
  case (single x)
  then show ?case by (cases s) (simp add: printed_cell mark_def add_text_def)
next
  case (cons x xs)
  obtain y ys where xs: "xs = y # ys" using cons.hyps by (cases xs) auto
  let ?rest = "js_join '','' (map print_cell xs) @ cs"
  have join: "js_join '','' (print_cell x # map print_cell xs) = print_cell x @ CHR '','' # js_join '','' (map print_cell xs)"
    by (simp add: xs)
  let ?t = "add_text (snd x) (mark x s)"
  have "csv_loop s False (print_cell x @ CHR '','' # ?rest) = csv_loop ?t False (CHR '','' # ?rest)"
    using cons.prems by (intro printed_cell) (simp_all add: ends_cell_def)
  also have "\<dots> = csv_loop (end_cell ?t) False ?rest" by simp
  also have "\<dots> = csv_loop ((end_cell ?t)\<lparr>cv_cells := cv_cells (end_cell ?t) @ map snd (butlast xs),
      cv_field := snd (last xs), cv_rowQuoted := (cv_rowQuoted (end_cell ?t) \<or> list_ex fst xs)\<rparr>) False cs"
    using cons.prems by (intro cons.IH) (simp_all add: end_cell_def)
  finally show ?case using cons.prems cons.hyps
    by (simp add: join end_cell_def mark_def add_text_def disj_assoc)
qed

lemma butlast_last_cells: "row \<noteq> [] \<Longrightarrow> map snd (butlast row) @ [snd (last row)] = map snd row"
  by (induction row rule: list_nonempty_induct) auto

lemma printed_row:
  assumes "row_ok row" and "cv_field s = []" "cv_cells s = []" "cv_rowQuoted s = False"
  shows "csv_loop s False (print_row (crlf, row) @ cs) =
    csv_loop (s\<lparr>cv_rows := cv_rows s @ [map snd row]\<rparr>) False cs"
proof -
  let ?e = "(if crlf then [CR, LF] else [LF]) @ cs"
  let ?t = "s\<lparr>cv_cells := map snd (butlast row), cv_field := snd (last row), cv_rowQuoted := list_ex fst row\<rparr>"
  have "csv_loop s False (print_row (crlf, row) @ cs) = csv_loop ?t False ?e"
    using printed_cells [of row ?e s] assms by (simp add: print_row_def row_ok_def ends_cell_def)
  also have "\<dots> = csv_loop (endRow ?t) False cs" by (cases crlf) (simp_all add: after_newline_def)
  also have "endRow ?t = s\<lparr>cv_rows := cv_rows s @ [map snd row]\<rparr>"
  proof -
    have "\<not> (map snd row = [[]] \<and> \<not> list_ex fst row)"
    proof
      assume a: "map snd row = [[]] \<and> \<not> list_ex fst row"
      then obtain x where "row = [x]" by (cases row) auto
      with a assms(1) show False by (cases x) (auto simp: row_ok_def)
    qed
    then show ?thesis using assms butlast_last_cells [of row] by (cases s) (simp add: endRow_def row_ok_def Let_def)
  qed
  finally show ?thesis .
qed

lemma printed_rows:
  assumes "list_all (row_ok \<circ> snd) rows" and "cv_field s = []" "cv_cells s = []" "cv_rowQuoted s = False"
  shows "csv_loop s False (print_csv rows) = s\<lparr>cv_rows := cv_rows s @ map (map snd \<circ> snd) rows\<rparr>"
  using assms
proof (induction rows arbitrary: s)
  case (Cons r rows)
  obtain crlf row where r: "r = (crlf, row)" by (cases r)
  have "print_csv (r # rows) = print_row (crlf, row) @ print_csv rows" by (simp add: print_csv_def r)
  with Cons r show ?case by (simp add: printed_row)
qed (simp add: print_csv_def)

lemma parse_print_csv:
  assumes "list_all (row_ok \<circ> snd) rows"
  shows "parseCsv (print_csv rows) = map (map snd \<circ> snd) rows"
  using printed_rows [OF assms, of csv_start] by (simp add: parseCsv_def csv_start_def endRow_def)

section \<open>Properties\<close>


definition demo_cells :: "(bool \<times> csv_cell list) list" where
  "demo_cells = [(False, [(False, ''name''), (True, ''password'')]), (True, [(True, [QUOTE, CHR '','', LF]), (False, [])])]"


text \<open>
  Importing Chrome's own export (its header and one row for each login, in any correct CSV
  writing) gives exactly the logins, in order, without a problem, when their fields carry no white
  space at the ends, they have a title, and a password, user name or address.
\<close>

definition chrome_header :: "string list" where
  "chrome_header = [''name'', ''url'', ''username'', ''password'', ''note'']"

definition chrome_row :: "csv_login \<Rightarrow> string list" where
  "chrome_row l = [cl_title l, cl_url l, cl_username l, cl_password l, cl_notes l]"

definition chrome_login :: "csv_login \<Rightarrow> bool" where
  "chrome_login l \<longleftrightarrow> list_all (\<lambda>v. js_trim v = v) (chrome_row l) \<and> cl_title l \<noteq> [] \<and>
     (cl_password l \<noteq> [] \<or> cl_username l \<noteq> [] \<or> cl_url l \<noteq> []) \<and> cl_totp l = [] \<and> cl_group l = []"

definition chrome_columns :: columns where
  "chrome_columns = \<lparr>co_dialect = ''Chrome'', co_title = Some 0, co_username = Some 2, co_password = Some 3,
     co_url = Some 1, co_notes = Some 4, co_totp = None, co_group = None\<rparr>"

lemma detect_chrome: "detectColumns chrome_header = Some chrome_columns"
  by code_simp

lemma read_chrome_rows:
  "list_all chrome_login ls \<Longrightarrow> read_rows host_of chrome_columns n (map chrome_row ls) = (ls, [])"
  by (induction ls arbitrary: n)
    (auto simp: chrome_login_def empty_row_def read_login_def csv_title_def chrome_columns_def chrome_row_def
      cell_def str_or_def)

theorem chrome_import:
  assumes "list_all (row_ok \<circ> snd) rows" and "list_all chrome_login ls"
    and "map (\<lambda>r. map snd (snd r)) rows = chrome_header # map chrome_row ls"
  shows "parsePasswordCsv host_of (print_csv rows) = (ls, [])"
proof -
  have "parseCsv (print_csv rows) = chrome_header # map chrome_row ls"
    using parse_print_csv [OF assms(1)] assms(3) by (simp add: comp_def)
  then show ?thesis by (simp add: parsePasswordCsv_def detect_chrome read_chrome_rows [OF assms(2)])
qed

definition demo_login :: csv_login where
  "demo_login = \<lparr>cl_title = ''Mail'', cl_username = ''ann'', cl_password = ''a,b'', cl_url = ''https://m.io'',
     cl_notes = [], cl_totp = [], cl_group = []\<rparr>"

theorem chrome_import_witness:
  "parsePasswordCsv (\<lambda>_. None) (print_csv [(False, map (Pair False) chrome_header), (True, map (Pair True) (chrome_row demo_login))])
    = ([demo_login], [])"
  by (rule chrome_import)
    (simp_all add: demo_login_def chrome_header_def chrome_row_def chrome_login_def row_ok_def cell_ok_def
      js_trim_def is_js_space_def comp_def)

end
