(* ===== verification/LockerSession.thy ===== *)
theory LockerSession
  imports AgentTypes "HOL-Library.Word"
begin

text \<open>
  The password locker and its synchronisation: \<^verbatim>\<open>packages/locker/src/sync.ts\<close>, \<open>meta.ts\<close>,
  \<open>session.ts\<close>, \<open>checksum.ts\<close>, the cloud store of \<open>cloud.ts\<close> and the synchronisation of \<open>remote.ts\<close>.

  The KeePass database and its operations (\<open>vault.ts\<close> over \<open>kdbxweb\<close>) are the parameter
  \<open>vault\<close>, SHA-256 is \<open>sha256\<close>, \<open>Date.parse\<close> is \<open>date_parse\<close> (\<open>None\<close> for a value that is not
  finite) and the current time as text is \<open>now\<close>.  Base 64 is the transport form of a byte string and
  is left out: a blob carries its bytes.  An operation runs to its end before the next one begins.
\<close>

section \<open>Metadata and the plan\<close>

datatype vault_storage = StoreLocal | StoreAccount

record vault_meta =
  vm_revision :: int
  vm_updatedAt :: string
  vm_checksum :: string
  vm_dirty :: bool
  vm_lastSyncedAt :: "string option"
  vm_storage :: vault_storage

definition emptyMeta :: vault_meta where
  "emptyMeta = \<lparr>vm_revision = 0, vm_updatedAt = ''1970-01-01T00:00:00.000Z'', vm_checksum = [],
     vm_dirty = False, vm_lastSyncedAt = None, vm_storage = StoreAccount\<rparr>"

text \<open>A field of an object, \<open>None\<close> where it is undefined.\<close>

fun json_field :: "string \<Rightarrow> json \<Rightarrow> json option" where
  "json_field k (JObj kvs) = map_of kvs k"
| "json_field k _ = None"

definition parseVaultMeta :: "json \<Rightarrow> vault_meta option" where
  "parseVaultMeta v =
     (case v of JObj _ \<Rightarrow>
        (case (json_field ''revision'' v, json_field ''updatedAt'' v, json_field ''checksum'' v) of
           (Some (JNum r), Some (JStr u), Some (JStr c)) \<Rightarrow>
             if r \<noteq> of_int \<lfloor>r\<rfloor> \<or> r < 0 then None
             else Some \<lparr>vm_revision = \<lfloor>r\<rfloor>, vm_updatedAt = u, vm_checksum = c,
               vm_dirty = (json_field ''dirty'' v = Some (JBool True)),
               vm_lastSyncedAt = (case json_field ''lastSyncedAt'' v of Some (JStr t) \<Rightarrow> Some t | _ \<Rightarrow> None),
               vm_storage = (if json_field ''storage'' v = Some (JStr ''local'') then StoreLocal else StoreAccount)\<rparr>
         | _ \<Rightarrow> None)
      | _ \<Rightarrow> None)"

record vault_revision =
  vr_revision :: int
  vr_updatedAt :: string
  vr_checksum :: string
  vr_dirty :: bool
  vr_lastSyncedAt :: "string option"

datatype sync_action = Noop | PushUp | PullDown

definition timestamp :: "(string \<Rightarrow> int option) \<Rightarrow> string \<Rightarrow> int" where
  "timestamp date_parse v = (case date_parse v of Some t \<Rightarrow> t | None \<Rightarrow> 0)"

definition never_synced :: "vault_revision \<Rightarrow> bool" where
  "never_synced l \<longleftrightarrow> (case vr_lastSyncedAt l of None \<Rightarrow> True | Some t \<Rightarrow> t = [])"

definition planSync :: "(string \<Rightarrow> int option) \<Rightarrow> vault_revision option \<Rightarrow> vault_revision option
    \<Rightarrow> sync_action \<times> string" where
  "planSync date_parse local remote =
     (case (local, remote) of
        (None, None) \<Rightarrow> (Noop, ''empty'')
      | (Some _, None) \<Rightarrow> (PushUp, ''cloud-empty'')
      | (None, Some _) \<Rightarrow> (PullDown, ''local-empty'')
      | (Some l, Some r) \<Rightarrow>
          if never_synced l then (PullDown, ''first-link'')
          else if vr_revision r > vr_revision l then
            (if \<not> vr_dirty l then (PullDown, ''remote-ahead'')
             else if timestamp date_parse (vr_updatedAt l) > timestamp date_parse (vr_updatedAt r)
             then (PushUp, ''local-newer-dirty'')
             else (PullDown, ''remote-ahead-conflict''))
          else if vr_revision l > vr_revision r then (PushUp, ''local-ahead'')
          else if vr_checksum l = vr_checksum r then (Noop, ''same'')
          else if vr_dirty l then (PushUp, ''same-revision-dirty'')
          else (PullDown, ''same-revision-remote''))"

section \<open>Checksums\<close>

type_synonym bytes = "8 word list"

definition hex_digit :: "nat \<Rightarrow> char" where
  "hex_digit n = (if n < 10 then char_of (48 + n) else char_of (87 + n))"

definition bytesToHex :: "bytes \<Rightarrow> string" where
  "bytesToHex bs = concat (map (\<lambda>b. [hex_digit (unat b div 16), hex_digit (unat b mod 16)]) bs)"

definition vaultChecksum :: "(bytes \<Rightarrow> bytes) \<Rightarrow> bytes \<Rightarrow> string" where
  "vaultChecksum sha256 b = bytesToHex (sha256 b)"

section \<open>The session\<close>

record ('db, 'item, 'input, 'secrets) vault =
  vt_create :: "string \<Rightarrow> 'db"
  vt_load :: "bytes \<Rightarrow> string \<Rightarrow> (string, 'db) result"
  vt_save :: "'db \<Rightarrow> bytes"
  vt_changePassword :: "string \<Rightarrow> 'db \<Rightarrow> 'db"
  vt_items :: "'db \<Rightarrow> 'item list"
  vt_item :: "'db \<Rightarrow> string \<Rightarrow> 'item option"
  vt_secrets :: "'db \<Rightarrow> string \<Rightarrow> (string, 'secrets) result"
  vt_upsert :: "'input \<Rightarrow> 'db \<Rightarrow> string \<times> 'db"
  vt_remove :: "string \<Rightarrow> 'db \<Rightarrow> 'db option"
  vt_restore :: "string \<Rightarrow> 'db \<Rightarrow> 'db option"
  vt_purge :: "string \<Rightarrow> 'db \<Rightarrow> 'db option"
  vt_emptyTrash :: "'db \<Rightarrow> 'db"
  vt_setPinned :: "string list \<Rightarrow> bool \<Rightarrow> 'db \<Rightarrow> nat \<times> 'db"
  vt_reorder :: "string list \<Rightarrow> 'db \<Rightarrow> 'db"

record 'db session =
  se_bytes :: "bytes option"
  se_meta :: vault_meta
  se_db :: "'db option"
  se_idle :: bool  \<comment> \<open>the idle timer is pending\<close>
  se_stored :: "(bytes \<times> vault_meta) option"  \<comment> \<open>the blob store\<close>

record session_status =
  ss_exists :: bool
  ss_unlocked :: bool
  ss_itemCount :: nat
  ss_storage :: vault_storage
  ss_revision :: int
  ss_lastSyncedAt :: "string option"

definition LOCKED :: string where "LOCKED = ''Locker is locked''"
definition NO_ITEM :: string where "NO_ITEM = ''That item is not in the locker''"

definition new_session :: "(bytes \<times> vault_meta) option \<Rightarrow> 'db session" where
  "new_session stored = \<lparr>se_bytes = None, se_meta = emptyMeta, se_db = None, se_idle = False, se_stored = stored\<rparr>"

definition hydrate :: "'db session \<Rightarrow> 'db session" where
  "hydrate s = (case se_stored s of
     Some (b, m) \<Rightarrow> s\<lparr>se_bytes := Some b, se_meta := m\<rparr>
   | None \<Rightarrow> s\<lparr>se_bytes := None, se_meta := emptyMeta\<rparr>)"

definition status :: "('db, 'i, 'p, 's) vault \<Rightarrow> 'db session \<Rightarrow> session_status" where
  "status vault s = \<lparr>ss_exists = (se_bytes s \<noteq> None), ss_unlocked = (se_db s \<noteq> None),
     ss_itemCount = (case se_db s of None \<Rightarrow> 0 | Some d \<Rightarrow> length (vt_items vault d)),
     ss_storage = vm_storage (se_meta s), ss_revision = vm_revision (se_meta s),
     ss_lastSyncedAt = vm_lastSyncedAt (se_meta s)\<rparr>"

definition armIdle :: "'db session \<Rightarrow> 'db session" where "armIdle s = s\<lparr>se_idle := True\<rparr>"

definition lock :: "'db session \<Rightarrow> 'db session" where "lock s = s\<lparr>se_idle := False, se_db := None\<rparr>"

text \<open>\<open>store.save\<close>.\<close>

definition store_save :: "bytes \<Rightarrow> 'db session \<Rightarrow> 'db session" where
  "store_save b s = s\<lparr>se_stored := Some (b, se_meta s)\<rparr>"

definition save_if_any :: "'db session \<Rightarrow> 'db session" where
  "save_if_any s = (case se_bytes s of Some b \<Rightarrow> store_save b s | None \<Rightarrow> s)"

definition session_persist :: "('db, 'i, 'p, 's) vault \<Rightarrow> (bytes \<Rightarrow> bytes) \<Rightarrow> string \<Rightarrow> 'db session \<Rightarrow> 'db session" where
  "session_persist vault sha256 now s = (case se_db s of
     None \<Rightarrow> s
   | Some d \<Rightarrow>
       let b = vt_save vault d in
       store_save b (s\<lparr>se_bytes := Some b,
         se_meta := (se_meta s)\<lparr>vm_revision := vm_revision (se_meta s) + 1, vm_updatedAt := now,
           vm_checksum := vaultChecksum sha256 b, vm_dirty := True\<rparr>\<rparr>))"

definition create_locker :: "('db, 'i, 'p, 's) vault \<Rightarrow> (bytes \<Rightarrow> bytes) \<Rightarrow> string \<Rightarrow> string \<Rightarrow> 'db session
    \<Rightarrow> (string, unit) result \<times> 'db session" where
  "create_locker vault sha256 now password s =
     (if se_bytes s \<noteq> None then (Inl ''A locker already exists on this device'', s)
      else if length password < 8 then (Inl ''Use at least 8 characters'', s)
      else (Inr (), armIdle (session_persist vault sha256 now (s\<lparr>se_db := Some (vt_create vault password)\<rparr>))))"

definition unlock :: "('db, 'i, 'p, 's) vault \<Rightarrow> string \<Rightarrow> 'db session \<Rightarrow> (string, unit) result \<times> 'db session" where
  "unlock vault password s =
     (case se_bytes s of
        None \<Rightarrow> (Inl ''Create a locker first'', s)
      | Some b \<Rightarrow> (case vt_load vault b password of
          Inl e \<Rightarrow> (Inl e, s)
        | Inr d \<Rightarrow> (Inr (), armIdle (s\<lparr>se_db := Some d\<rparr>))))"

text \<open>The readers: \<open>list\<close>, \<open>reveal\<close> and \<open>fillFields\<close>; a reader rearms the timer before it reads.\<close>

definition list_vault :: "('db, 'i, 'p, 's) vault \<Rightarrow> 'db session \<Rightarrow> (string, 'i list) result \<times> 'db session" where
  "list_vault vault s = (case se_db s of None \<Rightarrow> (Inl LOCKED, s) | Some d \<Rightarrow> (Inr (vt_items vault d), armIdle s))"

definition reveal :: "('db, 'i, 'p, 's) vault \<Rightarrow> string \<Rightarrow> 'db session \<Rightarrow> (string, 's) result \<times> 'db session" where
  "reveal vault i s = (case se_db s of None \<Rightarrow> (Inl LOCKED, s) | Some d \<Rightarrow> (vt_secrets vault d i, armIdle s))"

definition fillFields :: "('db, 'i, 'p, 's) vault \<Rightarrow> string \<Rightarrow> 'db session \<Rightarrow> (string, 'i \<times> 's) result \<times> 'db session" where
  "fillFields vault i s = (case se_db s of
     None \<Rightarrow> (Inl LOCKED, s)
   | Some d \<Rightarrow> (case vt_item vault d i of
       None \<Rightarrow> (Inl NO_ITEM, armIdle s)
     | Some x \<Rightarrow> (bind_result (vt_secrets vault d i) (\<lambda>k. Inr (x, k)), armIdle s)))"

text \<open>The writers persist and rearm the timer; one that throws leaves the open database as it is by then.\<close>

definition after_change :: "('db, 'i, 'p, 's) vault \<Rightarrow> (bytes \<Rightarrow> bytes) \<Rightarrow> string \<Rightarrow> 'db \<Rightarrow> 'db session \<Rightarrow> 'db session" where
  "after_change vault sha256 now d s = armIdle (session_persist vault sha256 now (s\<lparr>se_db := Some d\<rparr>))"

definition save_item :: "('db, 'i, 'p, 's) vault \<Rightarrow> (bytes \<Rightarrow> bytes) \<Rightarrow> string \<Rightarrow> 'p \<Rightarrow> 'db session
    \<Rightarrow> (string, 'i) result \<times> 'db session" where
  "save_item vault sha256 now input s = (case se_db s of
     None \<Rightarrow> (Inl LOCKED, s)
   | Some d \<Rightarrow> (case vt_upsert vault input d of (i, d') \<Rightarrow>
       (case vt_item vault d' i of None \<Rightarrow> Inl ''The item could not be saved'' | Some x \<Rightarrow> Inr x,
        after_change vault sha256 now d' s)))"

definition remove_item :: "('db, 'i, 'p, 's) vault \<Rightarrow> (bytes \<Rightarrow> bytes) \<Rightarrow> string \<Rightarrow> string \<Rightarrow> 'db session
    \<Rightarrow> (string, unit) result \<times> 'db session" where
  "remove_item vault sha256 now i s = (case se_db s of
     None \<Rightarrow> (Inl LOCKED, s)
   | Some d \<Rightarrow> (case vt_remove vault i d of
       None \<Rightarrow> (Inl NO_ITEM, s)
     | Some d' \<Rightarrow> (Inr (), after_change vault sha256 now d' s)))"

text \<open>The loops of \<open>restore\<close> and \<open>purge\<close>: the database so far, and whether every identifier was found.\<close>

fun each_item :: "(string \<Rightarrow> 'db \<Rightarrow> 'db option) \<Rightarrow> string list \<Rightarrow> 'db \<Rightarrow> bool \<times> 'db" where
  "each_item f [] d = (True, d)"
| "each_item f (i # is) d = (case f i d of None \<Rightarrow> (False, d) | Some d' \<Rightarrow> each_item f is d')"

definition change_items :: "(string \<Rightarrow> 'db \<Rightarrow> 'db option) \<Rightarrow> ('db, 'i, 'p, 's) vault \<Rightarrow> (bytes \<Rightarrow> bytes) \<Rightarrow> string
    \<Rightarrow> string list \<Rightarrow> 'db session \<Rightarrow> (string, unit) result \<times> 'db session" where
  "change_items f vault sha256 now is s = (case se_db s of
     None \<Rightarrow> (Inl LOCKED, s)
   | Some d \<Rightarrow> (case each_item f is d of
       (False, d') \<Rightarrow> (Inl NO_ITEM, s\<lparr>se_db := Some d'\<rparr>)
     | (True, d') \<Rightarrow> (Inr (), after_change vault sha256 now d' s)))"

definition restore_items :: "('db, 'i, 'p, 's) vault \<Rightarrow> (bytes \<Rightarrow> bytes) \<Rightarrow> string \<Rightarrow> string list \<Rightarrow> 'db session
    \<Rightarrow> (string, unit) result \<times> 'db session" where
  "restore_items vault = change_items (vt_restore vault) vault"

definition purge_items :: "('db, 'i, 'p, 's) vault \<Rightarrow> (bytes \<Rightarrow> bytes) \<Rightarrow> string \<Rightarrow> string list \<Rightarrow> 'db session
    \<Rightarrow> (string, unit) result \<times> 'db session" where
  "purge_items vault = change_items (vt_purge vault) vault"

definition empty_trash :: "('db, 'i, 'p, 's) vault \<Rightarrow> (bytes \<Rightarrow> bytes) \<Rightarrow> string \<Rightarrow> 'db session
    \<Rightarrow> (string, unit) result \<times> 'db session" where
  "empty_trash vault sha256 now s = (case se_db s of
     None \<Rightarrow> (Inl LOCKED, s)
   | Some d \<Rightarrow> (Inr (), after_change vault sha256 now (vt_emptyTrash vault d) s))"

definition pin_items :: "('db, 'i, 'p, 's) vault \<Rightarrow> (bytes \<Rightarrow> bytes) \<Rightarrow> string \<Rightarrow> string list \<Rightarrow> bool \<Rightarrow> 'db session
    \<Rightarrow> (string, unit) result \<times> 'db session" where
  "pin_items vault sha256 now is pinned s = (case se_db s of
     None \<Rightarrow> (Inl LOCKED, s)
   | Some d \<Rightarrow> (case vt_setPinned vault is pinned d of (n, d') \<Rightarrow>
       if n \<noteq> length is then (Inl NO_ITEM, s\<lparr>se_db := Some d'\<rparr>)
       else (Inr (), after_change vault sha256 now d' s)))"

definition reorder_items :: "('db, 'i, 'p, 's) vault \<Rightarrow> (bytes \<Rightarrow> bytes) \<Rightarrow> string \<Rightarrow> string list \<Rightarrow> 'db session
    \<Rightarrow> (string, unit) result \<times> 'db session" where
  "reorder_items vault sha256 now is s = (case se_db s of
     None \<Rightarrow> (Inl LOCKED, s)
   | Some d \<Rightarrow> (Inr (), after_change vault sha256 now (vt_reorder vault is d) s))"

definition changePassword :: "('db, 'i, 'p, 's) vault \<Rightarrow> (bytes \<Rightarrow> bytes) \<Rightarrow> string \<Rightarrow> string \<Rightarrow> string \<Rightarrow> 'db session
    \<Rightarrow> (string, unit) result \<times> 'db session" where
  "changePassword vault sha256 now current new s =
     (if length new < 8 then (Inl ''Use at least 8 characters'', s)
      else case se_db s of
        None \<Rightarrow> (Inl LOCKED, s)
      | Some d \<Rightarrow> (case se_bytes s of
          None \<Rightarrow> (Inl LOCKED, s)
        | Some b \<Rightarrow> (case vt_load vault b current of
            Inl e \<Rightarrow> (Inl e, s)
          | Inr _ \<Rightarrow> (Inr (), after_change vault sha256 now (vt_changePassword vault new d) s))))"

definition setStorage :: "vault_storage \<Rightarrow> 'db session \<Rightarrow> 'db session" where
  "setStorage mode s = save_if_any (s\<lparr>se_meta := (se_meta s)\<lparr>vm_storage := mode\<rparr>\<rparr>)"

definition exportBlob :: "'db session \<Rightarrow> (bytes \<times> vault_meta) option" where
  "exportBlob s = map_option (\<lambda>b. (b, se_meta s)) (se_bytes s)"

text \<open>\<open>importBlob\<close> of a blob whose metadata has been parsed, \<open>None\<close> where that failed.\<close>

definition importBlob :: "(bytes \<Rightarrow> bytes) \<Rightarrow> bytes \<Rightarrow> vault_meta option \<Rightarrow> 'db session
    \<Rightarrow> (string, unit) result \<times> 'db session" where
  "importBlob sha256 b parsed s =
     (let m = (case parsed of Some x \<Rightarrow> x | None \<Rightarrow> emptyMeta) in
      if b = [] then (Inl ''That locker copy is empty'', s)
      else (Inr (), store_save b ((lock s)\<lparr>se_bytes := Some b,
        se_meta := m\<lparr>vm_checksum := str_or (vm_checksum m) (vaultChecksum sha256 b)\<rparr>\<rparr>)))"

record cloud_blob =
  cb_bytes :: bytes
  cb_revision :: int
  cb_updatedAt :: string
  cb_checksum :: string

text \<open>The metadata \<open>importCloud\<close> makes is parsed again: a negative revision is refused there.\<close>

definition importCloud :: "(bytes \<Rightarrow> bytes) \<Rightarrow> string \<Rightarrow> cloud_blob \<Rightarrow> 'db session \<Rightarrow> (string, unit) result \<times> 'db session" where
  "importCloud sha256 now c s =
     importBlob sha256 (cb_bytes c)
       (if cb_revision c < 0 then None
        else Some \<lparr>vm_revision = cb_revision c, vm_updatedAt = cb_updatedAt c,
          vm_checksum = str_or (cb_checksum c) (vaultChecksum sha256 (cb_bytes c)), vm_dirty = False,
          vm_lastSyncedAt = Some now, vm_storage = StoreAccount\<rparr>) s"

definition acknowledgePush :: "string \<Rightarrow> 'db session \<Rightarrow> 'db session" where
  "acknowledgePush now s = (case se_bytes s of
     None \<Rightarrow> s
   | Some b \<Rightarrow> store_save b (s\<lparr>se_meta := (se_meta s)\<lparr>vm_dirty := False, vm_lastSyncedAt := Some now\<rparr>\<rparr>))"

text \<open>The idle timer fires.\<close>

definition idle_fires :: "'db session \<Rightarrow> 'db session" where
  "idle_fires s = (if se_idle s then lock s else s)"

datatype 'p session_op =
    OpHydrate | OpCreate string | OpUnlock string | OpLock | OpList | OpReveal string | OpFill string
  | OpSave 'p | OpRemove string | OpRestore "string list" | OpPurge "string list" | OpEmptyTrash
  | OpPin "string list" bool | OpReorder "string list" | OpChangePassword string string
  | OpSetStorage vault_storage | OpImport bytes "vault_meta option" | OpImportCloud cloud_blob | OpAcknowledge | OpIdle

fun session_step :: "('db, 'i, 'p, 's) vault \<Rightarrow> (bytes \<Rightarrow> bytes) \<Rightarrow> string \<times> 'p session_op \<Rightarrow> 'db session \<Rightarrow> 'db session" where
  "session_step vault sha (now, OpHydrate) s = hydrate s"
| "session_step vault sha (now, OpCreate p) s = snd (create_locker vault sha now p s)"
| "session_step vault sha (now, OpUnlock p) s = snd (unlock vault p s)"
| "session_step vault sha (now, OpLock) s = lock s"
| "session_step vault sha (now, OpList) s = snd (list_vault vault s)"
| "session_step vault sha (now, OpReveal i) s = snd (reveal vault i s)"
| "session_step vault sha (now, OpFill i) s = snd (fillFields vault i s)"
| "session_step vault sha (now, OpSave p) s = snd (save_item vault sha now p s)"
| "session_step vault sha (now, OpRemove i) s = snd (remove_item vault sha now i s)"
| "session_step vault sha (now, OpRestore is) s = snd (restore_items vault sha now is s)"
| "session_step vault sha (now, OpPurge is) s = snd (purge_items vault sha now is s)"
| "session_step vault sha (now, OpEmptyTrash) s = snd (empty_trash vault sha now s)"
| "session_step vault sha (now, OpPin is b) s = snd (pin_items vault sha now is b s)"
| "session_step vault sha (now, OpReorder is) s = snd (reorder_items vault sha now is s)"
| "session_step vault sha (now, OpChangePassword a b) s = snd (changePassword vault sha now a b s)"
| "session_step vault sha (now, OpSetStorage m) s = setStorage m s"
| "session_step vault sha (now, OpImport b m) s = snd (importBlob sha b m s)"
| "session_step vault sha (now, OpImportCloud c) s = snd (importCloud sha now c s)"
| "session_step vault sha (now, OpAcknowledge) s = acknowledgePush now s"
| "session_step vault sha (now, OpIdle) s = idle_fires s"

definition session_run :: "('db, 'i, 'p, 's) vault \<Rightarrow> (bytes \<Rightarrow> bytes) \<Rightarrow> (string \<times> 'p session_op) list
    \<Rightarrow> 'db session \<Rightarrow> 'db session" where
  "session_run vault sha ops s = fold (session_step vault sha) ops s"

section \<open>The session invariant\<close>

text \<open>What is stored is what is held; an open locker has a blob and a pending idle timer.\<close>

definition session_ok :: "'db session \<Rightarrow> bool" where
  "session_ok s \<longleftrightarrow> se_stored s = exportBlob s \<and> (se_bytes s = None \<longrightarrow> vm_lastSyncedAt (se_meta s) = None) \<and>
     (se_db s \<noteq> None \<longrightarrow> se_bytes s \<noteq> None \<and> se_idle s)"

lemma hydrate_ok: "session_ok (hydrate (new_session stored))"
  by (auto simp: session_ok_def hydrate_def new_session_def exportBlob_def emptyMeta_def split: option.splits)

lemmas session_defs = exportBlob_def store_save_def save_if_any_def armIdle_def lock_def

lemma session_persist_ok: "se_db s = Some d \<Longrightarrow>
  session_ok (armIdle (session_persist vault sha now s))"
  by (simp add: session_persist_def session_ok_def session_defs Let_def)

lemma after_change_ok: "session_ok (after_change vault sha now d s)"
  unfolding after_change_def by (rule session_persist_ok) simp

lemma armIdle_ok: "session_ok s \<Longrightarrow> session_ok (armIdle s)"
  by (simp add: session_ok_def session_defs)

lemma open_db_ok: "session_ok s \<Longrightarrow> se_db s = Some d \<Longrightarrow> session_ok (s\<lparr>se_db := Some d'\<rparr>)"
  by (simp add: session_ok_def exportBlob_def)

lemma session_step_ok: "session_ok s \<Longrightarrow> session_ok (session_step vault sha x s)"
proof (induction vault sha x s rule: session_step.induct)
  case (1 vault sha now s)
  then show ?case by (auto simp: hydrate_def session_ok_def exportBlob_def emptyMeta_def split: option.splits)
next
  case (2 vault sha now p s)
  then show ?case by (auto simp: create_locker_def intro: session_persist_ok)
next
  case (16 vault sha now m s)
  then show ?case by (auto simp: setStorage_def session_ok_def session_defs split: option.splits)
next
  case (17 vault sha now b m s)
  then show ?case by (auto simp: importBlob_def session_ok_def session_defs Let_def)
next
  case (18 vault sha now c s)
  then show ?case by (auto simp: importCloud_def importBlob_def session_ok_def session_defs Let_def)
qed (auto simp: unlock_def list_vault_def reveal_def fillFields_def save_item_def remove_item_def restore_items_def
    purge_items_def change_items_def empty_trash_def pin_items_def reorder_items_def changePassword_def
    acknowledgePush_def idle_fires_def
    intro: after_change_ok armIdle_ok open_db_ok split: option.splits sum.splits prod.splits bool.splits
    | (auto simp: session_ok_def session_defs acknowledgePush_def split: option.splits)[1])+

section \<open>Synchronising with the cloud\<close>

text \<open>
  \<open>LockerCloudStore\<close>, over a state \<open>'c\<close> of the other side; a call that fails gives its message.  The
  flag tells whether the account is signed in.
\<close>

record 'c cloud_store =
  cs_signedIn :: "'c \<Rightarrow> bool"
  cs_pull :: "'c \<Rightarrow> (string, cloud_blob option) result"
  cs_push :: "cloud_blob \<Rightarrow> 'c \<Rightarrow> (string, unit) result \<times> 'c"

record sync_options =
  so_allowPull :: bool
  so_force :: "sync_action option"

definition shouldUseCloudSync :: "vault_storage \<Rightarrow> bool \<Rightarrow> bool" where
  "shouldUseCloudSync storage signedIn \<longleftrightarrow> signedIn \<and> storage \<noteq> StoreLocal"

definition revision_of_meta :: "vault_meta \<Rightarrow> vault_revision" where
  "revision_of_meta m = \<lparr>vr_revision = vm_revision m, vr_updatedAt = vm_updatedAt m, vr_checksum = vm_checksum m,
     vr_dirty = vm_dirty m, vr_lastSyncedAt = vm_lastSyncedAt m\<rparr>"

text \<open>A cloud blob as a revision: it has no \<open>dirty\<close> and no \<open>lastSyncedAt\<close>.\<close>

definition revision_of_cloud :: "cloud_blob \<Rightarrow> vault_revision" where
  "revision_of_cloud c = \<lparr>vr_revision = cb_revision c, vr_updatedAt = cb_updatedAt c, vr_checksum = cb_checksum c,
     vr_dirty = False, vr_lastSyncedAt = None\<rparr>"

definition push_blob :: "(bytes \<Rightarrow> bytes) \<Rightarrow> bytes \<Rightarrow> vault_meta \<Rightarrow> cloud_blob" where
  "push_blob sha256 b m = \<lparr>cb_bytes = b, cb_revision = vm_revision m, cb_updatedAt = vm_updatedAt m,
     cb_checksum = str_or (vm_checksum m) (vaultChecksum sha256 b)\<rparr>"

text \<open>The result is whether the locker is missing on both sides.\<close>

definition sync_pull :: "(bytes \<Rightarrow> bytes) \<Rightarrow> string \<Rightarrow> sync_options \<Rightarrow> cloud_blob option \<Rightarrow> 'db session \<Rightarrow> 'c
    \<Rightarrow> (string, bool) result \<times> 'db session \<times> 'c" where
  "sync_pull sha256 now opt remote s c =
     (if \<not> so_allowPull opt then (Inr (remote = None \<and> se_bytes s = None), s, c)
      else case remote of
        None \<Rightarrow> (Inr (se_bytes s = None), s, c)
      | Some r \<Rightarrow> (case importCloud sha256 now r s of
          (Inl e, s') \<Rightarrow> (Inl e, s', c)
        | (Inr _, s') \<Rightarrow> (Inr (se_bytes s' = None), s', c)))"

definition sync_push :: "(bytes \<Rightarrow> bytes) \<Rightarrow> string \<Rightarrow> 'c cloud_store \<Rightarrow> cloud_blob option \<Rightarrow> 'db session \<Rightarrow> 'c
    \<Rightarrow> (string, bool) result \<times> 'db session \<times> 'c" where
  "sync_push sha256 now cloud remote s c =
     (case exportBlob s of
        None \<Rightarrow> (Inr (remote = None), s, c)
      | Some (b, m) \<Rightarrow> (case cs_push cloud (push_blob sha256 b m) c of
          (Inl e, c') \<Rightarrow> (Inl e, s, c')
        | (Inr _, c') \<Rightarrow> let s' = acknowledgePush now s in (Inr (se_bytes s' = None), s', c')))"

definition syncSessionWithCloud :: "(string \<Rightarrow> int option) \<Rightarrow> (bytes \<Rightarrow> bytes) \<Rightarrow> string \<Rightarrow> sync_options \<Rightarrow> 'c cloud_store
    \<Rightarrow> 'db session \<Rightarrow> 'c \<Rightarrow> (string, bool) result \<times> 'db session \<times> 'c" where
  "syncSessionWithCloud date_parse sha256 now opt cloud s c =
     (if \<not> shouldUseCloudSync (vm_storage (se_meta s)) (cs_signedIn cloud c) then (Inr False, s, c)
      else case cs_pull cloud c of
        Inl e \<Rightarrow> (Inl e, s, c)
      | Inr remote \<Rightarrow>
          let local = map_option (revision_of_meta \<circ> snd) (exportBlob s);
              action = (case so_force opt of Some a \<Rightarrow> a
                | None \<Rightarrow> fst (planSync date_parse local (map_option revision_of_cloud remote))) in
          case action of
            PullDown \<Rightarrow> sync_pull sha256 now opt remote s c
          | PushUp \<Rightarrow> sync_push sha256 now cloud remote s c
          | Noop \<Rightarrow> (Inr (se_bytes s = None), s, c))"

text \<open>Both sides hold the same revision, bytes and checksum, and the session knows it has synchronised.\<close>

definition agree :: "'c cloud_store \<Rightarrow> 'db session \<Rightarrow> 'c \<Rightarrow> bool" where
  "agree cloud s c \<longleftrightarrow> (case cs_pull cloud c of
     Inr (Some b) \<Rightarrow> se_bytes s = Some (cb_bytes b) \<and>
       vm_revision (se_meta s) = cb_revision b \<and> vm_checksum (se_meta s) = cb_checksum b \<and>
       vm_lastSyncedAt (se_meta s) \<noteq> None \<and> vm_lastSyncedAt (se_meta s) \<noteq> Some []
   | _ \<Rightarrow> False)"

section \<open>What the synchronisation needs of a cloud\<close>

text \<open>A push that succeeds is what the next pull returns, and signs nobody out.\<close>

locale cloud_laws =
  fixes cloud :: "'c cloud_store" and valid :: "cloud_blob \<Rightarrow> bool"
  assumes push_pull: "cs_push cloud b c = (Inr u, c') \<Longrightarrow> cs_pull cloud c' = Inr (Some b)"
    and push_signed: "cs_push cloud b c = (Inr u, c') \<Longrightarrow> cs_signedIn cloud c' = cs_signedIn cloud c"
    and pull_valid: "cs_pull cloud c = Inr (Some b) \<Longrightarrow> valid b"
begin

lemma sync_pull_agrees:
  assumes "sync_pull sha now opt (Some r) s c = (Inr missing, s', c')" and "so_allowPull opt"
    and "cs_pull cloud c = Inr (Some r)" and "now \<noteq> []" and "0 \<le> cb_revision r" and "cb_checksum r \<noteq> []"
  shows "agree cloud s' c'"
  using assms
  by (auto simp: sync_pull_def importCloud_def importBlob_def store_save_def lock_def agree_def Let_def str_or_def
      split: sum.splits prod.splits if_splits)

lemma sync_push_agrees:
  assumes "sync_push sha now cloud remote s c = (Inr missing, s', c')"
    and "se_bytes s \<noteq> None" and "now \<noteq> []" and "vm_checksum (se_meta s) \<noteq> []"
  shows "agree cloud s' c'"
  using assms push_pull
  by (auto simp: sync_push_def exportBlob_def acknowledgePush_def store_save_def push_blob_def agree_def Let_def str_or_def
      split: sum.splits prod.splits)

end

end
