(* ===== verification/LockerCloud.thy ===== *)
theory LockerCloud
  imports LockerSession
begin

text \<open>
  The locker's cloud store, \<open>FetchLockerCloud\<close> of \<^verbatim>\<open>packages/locker/src/cloud.ts\<close>, and the properties
  of the locker session and its synchronisation.

  The account's server is the parameter \<open>server\<close>: its answers to the requests the class makes, over a
  state \<open>'c\<close>.  A metadata row has the fields the class reads, a revision that is no safe integer
  being \<open>None\<close>; a request that fails carries the message \<open>readError\<close> finds in its body.
\<close>

section \<open>Names and errors\<close>

definition contains_ci :: "string \<Rightarrow> string \<Rightarrow> bool" where
  "contains_ci pat s \<longleftrightarrow> js_index_of pat (js_lower s) 0 \<noteq> None"

definition MAX_SAFE_INTEGER :: int where "MAX_SAFE_INTEGER = 9007199254740991"

definition hex64 :: "string \<Rightarrow> bool" where
  "hex64 s \<longleftrightarrow> length s = 64 \<and> list_all (\<lambda>c. is_digit c \<or> (97 \<le> (of_char c :: nat) \<and> (of_char c :: nat) \<le> 102)) s"

definition BAD_METADATA :: string where "BAD_METADATA = ''The locker cloud metadata is invalid.''"

definition vaultObjectName :: "int \<Rightarrow> string \<Rightarrow> (string, string) result" where
  "vaultObjectName revision checksum =
     (if revision < 1 \<or> revision > MAX_SAFE_INTEGER \<or> \<not> hex64 checksum then Inl BAD_METADATA
      else Inr (show_int revision @ ''-'' @ checksum @ ''.kdbx''))"

text \<open>The prefix is cut with the white space after it.\<close>

definition cut_prefix :: "string \<Rightarrow> string \<Rightarrow> string option" where
  "cut_prefix p s = (if js_lower (take (length p) s) = js_lower p then Some (dropWhile is_js_space (drop (length p) s)) else None)"

definition cloudError :: "string \<Rightarrow> string \<Rightarrow> string" where
  "cloudError message fallback =
     (if contains_ci ''not found'' message then ''Locker cloud storage is not set up on this account yet.''
      else
        let cleaned = (case cut_prefix ''StorageApiError:'' message of Some r \<Rightarrow> r
          | None \<Rightarrow> (case cut_prefix ''PostgrestError:'' message of Some r \<Rightarrow> r | None \<Rightarrow> message)) in
        str_or cleaned (str_or fallback ''The locker could not be synced.''))"

section \<open>The store\<close>

record vault_row =
  rw_revision :: "int option"
  rw_updatedAt :: "string option"
  rw_checksum :: string
  rw_objectName :: string
  rw_byteSize :: int

datatype upload_answer = Uploaded | Refused int string  \<comment> \<open>status, message\<close>

record 'c server =
  sv_userId :: "'c \<Rightarrow> string option"  \<comment> \<open>the signed-in account\<close>
  sv_rows :: "'c \<Rightarrow> string \<Rightarrow> (string, vault_row list) result"
  sv_download :: "'c \<Rightarrow> string \<times> string \<Rightarrow> (string, bytes) result"
  sv_upload :: "string \<times> string \<Rightarrow> bytes \<Rightarrow> 'c \<Rightarrow> upload_answer \<times> 'c"
  sv_upsert :: "string \<Rightarrow> vault_row \<Rightarrow> 'c \<Rightarrow> (string, unit) result \<times> 'c"

definition cloud_signedIn :: "'c server \<Rightarrow> 'c \<Rightarrow> bool" where
  "cloud_signedIn sv c \<longleftrightarrow> sv_userId sv c \<noteq> None"

definition row_valid :: "vault_row \<Rightarrow> bool" where
  "row_valid row = (case rw_revision row of None \<Rightarrow> False | Some r \<Rightarrow>
     vaultObjectName r (rw_checksum row) = Inr (rw_objectName row))"

definition fetch_row :: "'c server \<Rightarrow> (bytes \<Rightarrow> bytes) \<Rightarrow> string \<Rightarrow> 'c \<Rightarrow> string \<Rightarrow> vault_row
    \<Rightarrow> (string, cloud_blob option) result" where
  "fetch_row sv sha256 now c user row =
     (case sv_download sv c (user, rw_objectName row) of
        Inl e \<Rightarrow> Inl (cloudError e ''The locker could not be downloaded.'')
      | Inr b \<Rightarrow>
          if vaultChecksum sha256 b \<noteq> rw_checksum row \<or> rw_byteSize row \<noteq> int (length b)
          then Inl ''The locker cloud copy does not match its metadata.''
          else Inr (Some \<lparr>cb_bytes = b, cb_revision = the (rw_revision row),
            cb_updatedAt = (case rw_updatedAt row of Some t \<Rightarrow> t | None \<Rightarrow> now), cb_checksum = rw_checksum row\<rparr>))"

definition cloud_pull :: "'c server \<Rightarrow> (bytes \<Rightarrow> bytes) \<Rightarrow> string \<Rightarrow> 'c \<Rightarrow> (string, cloud_blob option) result" where
  "cloud_pull sv sha256 now c =
     (case sv_userId sv c of
        None \<Rightarrow> Inr None
      | Some user \<Rightarrow> (case sv_rows sv c user of
          Inl e \<Rightarrow> Inl (cloudError e [])
        | Inr [] \<Rightarrow> Inr None
        | Inr (row # _) \<Rightarrow> if \<not> row_valid row then Inl BAD_METADATA else fetch_row sv sha256 now c user row))"

definition validateObject :: "'c server \<Rightarrow> (bytes \<Rightarrow> bytes) \<Rightarrow> string \<times> string \<Rightarrow> string \<Rightarrow> nat \<Rightarrow> 'c
    \<Rightarrow> (string, unit) result" where
  "validateObject sv sha256 path checksum sz c =
     (case sv_download sv c path of
        Inl e \<Rightarrow> Inl (cloudError e ''The locker could not be downloaded.'')
      | Inr b \<Rightarrow> if length b \<noteq> sz \<or> vaultChecksum sha256 b \<noteq> checksum
          then Inl ''The existing locker cloud object does not match the upload.'' else Inr ())"

definition upload_object :: "'c server \<Rightarrow> (bytes \<Rightarrow> bytes) \<Rightarrow> string \<times> string \<Rightarrow> cloud_blob \<Rightarrow> 'c
    \<Rightarrow> (string, unit) result \<times> 'c" where
  "upload_object sv sha256 path blob c =
     (case sv_upload sv path (cb_bytes blob) c of
        (Uploaded, c') \<Rightarrow> (Inr (), c')
      | (Refused st msg, c') \<Rightarrow>
          if st \<noteq> 409 \<and> \<not> contains_ci ''already exists'' msg \<and> \<not> contains_ci ''duplicate'' msg
          then (Inl (cloudError msg ''The locker could not be uploaded.''), c')
          else (validateObject sv sha256 path (cb_checksum blob) (length (cb_bytes blob)) c', c'))"

definition row_of_blob :: "string \<Rightarrow> cloud_blob \<Rightarrow> vault_row" where
  "row_of_blob name blob = \<lparr>rw_revision = Some (cb_revision blob), rw_updatedAt = Some (cb_updatedAt blob),
     rw_checksum = cb_checksum blob, rw_objectName = name, rw_byteSize = int (length (cb_bytes blob))\<rparr>"

definition cloud_push :: "'c server \<Rightarrow> (bytes \<Rightarrow> bytes) \<Rightarrow> cloud_blob \<Rightarrow> 'c \<Rightarrow> (string, unit) result \<times> 'c" where
  "cloud_push sv sha256 blob c =
     (case sv_userId sv c of
        None \<Rightarrow> (Inl ''Sign in to sync this locker.'', c)
      | Some user \<Rightarrow>
          if vaultChecksum sha256 (cb_bytes blob) \<noteq> cb_checksum blob
          then (Inl ''The locker checksum does not match its contents.'', c)
          else (case vaultObjectName (cb_revision blob) (cb_checksum blob) of
              Inl e \<Rightarrow> (Inl e, c)
            | Inr name \<Rightarrow> (case upload_object sv sha256 (user, name) blob c of
                (Inl e, c') \<Rightarrow> (Inl e, c')
              | (Inr _, c') \<Rightarrow> (case sv_upsert sv user (row_of_blob name blob) c' of
                  (Inl e, c'') \<Rightarrow> (Inl (cloudError e []), c'')
                | (Inr _, c'') \<Rightarrow> (Inr (), c'')))))"

definition fetch_cloud :: "'c server \<Rightarrow> (bytes \<Rightarrow> bytes) \<Rightarrow> string \<Rightarrow> 'c cloud_store" where
  "fetch_cloud sv sha256 now = \<lparr>cs_signedIn = cloud_signedIn sv, cs_pull = cloud_pull sv sha256 now,
     cs_push = cloud_push sv sha256\<rparr>"

section \<open>What the store needs of the server\<close>

text \<open>
  The server keeps one row for each user and its objects: an upsert that succeeds is what is read next,
  an upload that succeeds is what is downloaded, neither changes the other kind or the session, and a
  refused upload changes nothing.  Equal checksums mean equal bytes, as far as SHA-256 is concerned.
\<close>

locale supabase =
  fixes sv :: "'c server" and sha256 :: "bytes \<Rightarrow> bytes"
  assumes upload_ok: "sv_upload sv p b c = (Uploaded, c') \<Longrightarrow> sv_download sv c' p = Inr b"
    and upload_user: "sv_upload sv p b c = (a, c') \<Longrightarrow> sv_userId sv c' = sv_userId sv c"
    and upsert_row: "sv_upsert sv u r c = (Inr x, c') \<Longrightarrow> sv_rows sv c' u = Inr [r]"
    and upsert_object: "sv_upsert sv u r c = (y, c') \<Longrightarrow> sv_download sv c' p = sv_download sv c p"
    and upsert_user: "sv_upsert sv u r c = (y, c') \<Longrightarrow> sv_userId sv c' = sv_userId sv c"
    and sha_inj: "sha256 b = sha256 b' \<Longrightarrow> b = b'"
begin

lemma unat_bound: "unat (z :: 8 word) < 256"
  using unsigned_less [where 'a = nat, of z] by simp

lemma checksum_inj:
  assumes "vaultChecksum sha256 b = vaultChecksum sha256 b'"
  shows "b = b'"
proof -
  have hex: "hex_digit m = hex_digit n \<Longrightarrow> m < 16 \<Longrightarrow> n < 16 \<Longrightarrow> m = n" for m n
    by (drule arg_cong [where f = "of_char :: char \<Rightarrow> nat"]) (auto simp: hex_digit_def split: if_splits)
  have "bytesToHex xs = bytesToHex ys \<Longrightarrow> xs = ys" for xs ys
  proof (induction xs arbitrary: ys)
    case Nil
    then show ?case by (cases ys) (auto simp: bytesToHex_def)
  next
    case (Cons x xs)
    then obtain y zs where ys: "ys = y # zs" by (cases ys) (auto simp: bytesToHex_def)
    have lt: "unat z div 16 < 16" for z :: "8 word" using unat_bound [of z] by simp
    from Cons.prems have "hex_digit (unat x div 16) = hex_digit (unat y div 16)"
      "hex_digit (unat x mod 16) = hex_digit (unat y mod 16)" "bytesToHex xs = bytesToHex zs"
      by (auto simp: bytesToHex_def ys)
    then have "unat x div 16 = unat y div 16" "unat x mod 16 = unat y mod 16" "xs = zs"
      using hex lt Cons.IH by auto
    moreover from this have "unat x = unat y" by (metis div_mult_mod_eq)
    ultimately show ?case by (simp add: ys unsigned_word_eqI)
  qed
  with assms sha_inj show ?thesis by (simp add: vaultChecksum_def)
qed

lemma upload_object_ok:
  assumes "upload_object sv sha256 path blob c = (Inr x, c')" and "vaultChecksum sha256 (cb_bytes blob) = cb_checksum blob"
  shows "sv_download sv c' path = Inr (cb_bytes blob) \<and> sv_userId sv c' = sv_userId sv c"
proof (cases "sv_upload sv path (cb_bytes blob) c")
  case (Pair a c1)
  show ?thesis
  proof (cases a)
    case Uploaded
    with assms Pair show ?thesis using upload_ok upload_user by (auto simp: upload_object_def)
  next
    case (Refused st msg)
    with assms(1) Pair have c': "c' = c1" and
      v: "validateObject sv sha256 path (cb_checksum blob) (length (cb_bytes blob)) c1 = Inr ()"
      by (auto simp: upload_object_def split: if_splits)
    from v obtain b where "sv_download sv c1 path = Inr b" "vaultChecksum sha256 b = cb_checksum blob"
      by (auto simp: validateObject_def split: sum.splits if_splits)
    moreover from this assms(2) have "b = cb_bytes blob" by (intro checksum_inj) simp
    ultimately show ?thesis using upload_user [OF Pair] c' by simp
  qed
qed

lemma push_pull:
  assumes "cloud_push sv sha256 b c = (Inr x, c')"
  shows "cloud_pull sv sha256 now c' = Inr (Some b)" and "sv_userId sv c' = sv_userId sv c"
proof -
  from assms obtain user name c1 y z where u: "sv_userId sv c = Some user"
    and chk: "vaultChecksum sha256 (cb_bytes b) = cb_checksum b"
    and name: "vaultObjectName (cb_revision b) (cb_checksum b) = Inr name"
    and up: "upload_object sv sha256 (user, name) b c = (Inr y, c1)"
    and row: "sv_upsert sv user (row_of_blob name b) c1 = (Inr z, c')"
    by (auto simp: cloud_push_def split: option.splits if_splits sum.splits prod.splits)
  note obj = upload_object_ok [OF up chk]
  show user: "sv_userId sv c' = sv_userId sv c" using obj upsert_user [OF row] by simp
  have "sv_download sv c' (user, name) = Inr (cb_bytes b)" using obj upsert_object [OF row] by simp
  with upsert_row [OF row] user u chk name show "cloud_pull sv sha256 now c' = Inr (Some b)"
    by (simp add: cloud_pull_def row_valid_def fetch_row_def row_of_blob_def)
qed

end

text \<open>What a pull returns has valid metadata and the checksum of its bytes.\<close>

definition blob_valid :: "(bytes \<Rightarrow> bytes) \<Rightarrow> cloud_blob \<Rightarrow> bool" where
  "blob_valid sha256 b \<longleftrightarrow> 1 \<le> cb_revision b \<and> hex64 (cb_checksum b) \<and> vaultChecksum sha256 (cb_bytes b) = cb_checksum b"

lemma cloud_pull_valid: "cloud_pull sv sha256 now c = Inr (Some b) \<Longrightarrow> blob_valid sha256 b"
  by (auto simp: cloud_pull_def fetch_row_def row_valid_def blob_valid_def vaultObjectName_def
      split: option.splits sum.splits list.splits if_splits)

sublocale supabase \<subseteq> store: cloud_laws "fetch_cloud sv sha256 now" "blob_valid sha256" for now
  by unfold_locales (auto simp: fetch_cloud_def cloud_signedIn_def push_pull dest: cloud_pull_valid)

text \<open>A server kept in two maps, one account signed in.\<close>

record mem_server =
  ms_user :: "string option"
  ms_rows :: "string \<rightharpoonup> vault_row"
  ms_objects :: "string \<times> string \<rightharpoonup> bytes"

definition mem_sv :: "mem_server server" where
  "mem_sv = \<lparr>sv_userId = ms_user,
     sv_rows = (\<lambda>c u. Inr (case ms_rows c u of None \<Rightarrow> [] | Some r \<Rightarrow> [r])),
     sv_download = (\<lambda>c p. case ms_objects c p of None \<Rightarrow> Inl ''Object not found'' | Some b \<Rightarrow> Inr b),
     sv_upload = (\<lambda>p b c. if ms_objects c p \<noteq> None then (Refused 409 ''Duplicate'', c)
        else (Uploaded, c\<lparr>ms_objects := (ms_objects c)(p \<mapsto> b)\<rparr>)),
     sv_upsert = (\<lambda>u r c. (Inr (), c\<lparr>ms_rows := (ms_rows c)(u \<mapsto> r)\<rparr>))\<rparr>"

interpretation mem: supabase mem_sv id
  by unfold_locales (auto simp: mem_sv_def split: if_splits)

section \<open>Properties\<close>

text \<open>
  C29: through any sequence of operations on a session read from its store, throwing ones included,
  the store holds exactly the blob and metadata of the session, and an open locker has a blob and a
  pending idle timer.
\<close>

lemma session_run_ok: "session_ok s \<Longrightarrow> session_ok (session_run vault sha ops s)"
  by (induction ops arbitrary: s) (simp_all add: session_run_def session_step_ok)


text \<open>A vault whose database is its list of items.\<close>

definition demo_vault :: "(string list, string, string, string) vault" where
  "demo_vault = \<lparr>vt_create = (\<lambda>_. []), vt_load = (\<lambda>b pw. if pw = ''correct horse'' then Inr [''mail''] else Inl ''Wrong password''),
     vt_save = (\<lambda>d. map (\<lambda>i. of_nat (length i)) d @ [1]), vt_changePassword = (\<lambda>_ d. d), vt_items = id,
     vt_item = (\<lambda>d i. if i \<in> set d then Some i else None), vt_secrets = (\<lambda>d i. Inr i),
     vt_upsert = (\<lambda>i d. (i, d @ [i])), vt_remove = (\<lambda>i d. if i \<in> set d then Some (removeAll i d) else None),
     vt_restore = (\<lambda>i d. Some d), vt_purge = (\<lambda>i d. None), vt_emptyTrash = id, vt_setPinned = (\<lambda>is b d. (length is, d)),
     vt_reorder = (\<lambda>is d. d)\<rparr>"

definition demo_ops :: "(string \<times> string session_op) list" where
  "demo_ops = [(''t1'', OpCreate ''correct horse''), (''t2'', OpSave ''mail''), (''t3'', OpIdle)]"

lemma demo_saved: "se_bytes (session_run demo_vault id demo_ops (hydrate (new_session None))) = Some [4, 1]"
  by (simp add: session_run_def demo_ops_def hydrate_def new_session_def create_locker_def session_persist_def demo_vault_def
      store_save_def armIdle_def save_item_def after_change_def idle_fires_def lock_def Let_def)


text \<open>
  C30: once locked, by hand or by the idle timer, a locker gives out no item and no secret and takes no
  change until it is unlocked again or a new one is created, whatever else is asked of it meanwhile.
\<close>

definition opens :: "'p session_op \<Rightarrow> bool" where
  "opens x = (case x of OpUnlock _ \<Rightarrow> True | OpCreate _ \<Rightarrow> True | _ \<Rightarrow> False)"

lemma locked_step:
  assumes "se_db s = None" and "\<not> opens (snd x)"
  shows "se_db (session_step vault sha x s) = None"
  using assms
  by (cases x; cases "snd x")
    (auto simp: opens_def hydrate_def lock_def list_vault_def reveal_def fillFields_def save_item_def remove_item_def
      restore_items_def purge_items_def change_items_def empty_trash_def pin_items_def reorder_items_def changePassword_def
      setStorage_def save_if_any_def store_save_def importBlob_def importCloud_def acknowledgePush_def idle_fires_def Let_def
      split: option.splits)

lemma locked_run: "se_db s = None \<Longrightarrow> list_all (\<lambda>x. \<not> opens (snd x)) ops \<Longrightarrow> se_db (session_run vault sha ops s) = None"
  by (induction ops arbitrary: s) (auto simp: session_run_def locked_step)



text \<open>
  C31: an unforced synchronisation that succeeds, for a signed-in account locker whose checksum is that
  of its bytes, leaves the session and the cloud with the same revision, bytes and checksum, or finds
  both empty; done again right away it changes nothing.
\<close>

definition unforced :: sync_options where "unforced = \<lparr>so_allowPull = True, so_force = None\<rparr>"

lemma unforced_simps [simp]: "so_allowPull unforced" "so_force unforced = None"
  by (simp_all add: unforced_def)

context supabase
begin

lemma sync_agrees:
  assumes sync: "syncSessionWithCloud dp sha256 now unforced (fetch_cloud sv sha256 now) s c = (Inr missing, s', c')"
    and acct: "vm_storage (se_meta s) = StoreAccount" "cloud_signedIn sv c" and now: "now \<noteq> []"
    and chk: "\<And>b. se_bytes s = Some b \<Longrightarrow> b \<noteq> [] \<and> vm_checksum (se_meta s) = vaultChecksum sha256 b"
  shows "missing \<and> s' = s \<and> c' = c \<and> se_bytes s = None \<and> cloud_pull sv sha256 now c = Inr None \<or>
    agree (fetch_cloud sv sha256 now) s' c' \<and> vm_storage (se_meta s') = StoreAccount \<and> cloud_signedIn sv c' \<and> \<not> missing"
proof -
  let ?cloud = "fetch_cloud sv sha256 now"
  have cs [simp]: "cs_signedIn ?cloud = cloud_signedIn sv" "cs_pull ?cloud = cloud_pull sv sha256 now"
    "cs_push ?cloud = cloud_push sv sha256" by (simp_all add: fetch_cloud_def)
  obtain remote where remote: "cloud_pull sv sha256 now c = Inr remote"
    using sync acct by (auto simp: syncSessionWithCloud_def shouldUseCloudSync_def split: sum.splits)
  let ?local = "map_option (revision_of_meta \<circ> snd) (exportBlob s)"
  let ?plan = "planSync dp ?local (map_option revision_of_cloud remote)"
  have step: "(case fst ?plan of
      PullDown \<Rightarrow> sync_pull sha256 now unforced remote s c
    | PushUp \<Rightarrow> sync_push sha256 now ?cloud remote s c
    | Noop \<Rightarrow> (Inr (se_bytes s = None), s, c)) = (Inr missing, s', c')"
    using sync acct remote by (simp add: syncSessionWithCloud_def shouldUseCloudSync_def Let_def)
  have hex: "hex64 cs \<Longrightarrow> cs \<noteq> []" for cs by (auto simp: hex64_def)
  show ?thesis
  proof (cases "fst ?plan")
    case PullDown
    then obtain r where r: "remote = Some r"
      by (cases remote) (auto simp: planSync_def split: option.splits)
    have "blob_valid sha256 r" using cloud_pull_valid [of sv sha256 now c r] remote r by simp
    then have valid: "0 \<le> cb_revision r" "cb_checksum r \<noteq> []" using hex by (auto simp: blob_valid_def)
    have pull: "sync_pull sha256 now unforced (Some r) s c = (Inr missing, s', c')" using step PullDown r by simp
    have "agree (fetch_cloud sv sha256 now) s' c'"
      using store.sync_pull_agrees [OF pull _ _ now valid] remote r by simp
    moreover have "vm_storage (se_meta s') = StoreAccount \<and> c' = c \<and> \<not> missing"
      using pull valid by (auto simp: sync_pull_def importCloud_def importBlob_def store_save_def lock_def Let_def
          split: sum.splits prod.splits if_splits)
    ultimately show ?thesis using acct by simp
  next
    case PushUp
    then obtain b where b: "se_bytes s = Some b"
      by (cases "se_bytes s") (auto simp: planSync_def exportBlob_def split: option.splits if_splits)
    have push: "sync_push sha256 now ?cloud remote s c = (Inr missing, s', c')" using step PushUp by simp
    obtain u where u: "cloud_push sv sha256 (push_blob sha256 b (se_meta s)) c = (Inr u, c')"
      using push b by (auto simp: sync_push_def exportBlob_def Let_def split: sum.splits prod.splits)
    have "blob_valid sha256 (push_blob sha256 b (se_meta s))" using u push_pull(1) by (intro cloud_pull_valid) simp
    then have "cb_checksum (push_blob sha256 b (se_meta s)) \<noteq> []"
      using hex [of "cb_checksum (push_blob sha256 b (se_meta s))"] by (simp add: blob_valid_def)
    then have "vm_checksum (se_meta s) \<noteq> []" using chk [OF b] by (auto simp: push_blob_def str_or_def)
    with store.sync_push_agrees [OF push _ now] b have "agree (fetch_cloud sv sha256 now) s' c'" by simp
    moreover have "vm_storage (se_meta s') = StoreAccount \<and> \<not> missing"
      using push b acct by (auto simp: sync_push_def exportBlob_def acknowledgePush_def store_save_def Let_def split: sum.splits prod.splits)
    moreover have "cloud_signedIn sv c'" using push_pull(2) [OF u] acct by (simp add: cloud_signedIn_def)
    ultimately show ?thesis by blast
  next
    case Noop
    with step have same: "s' = s" "c' = c" "missing = (se_bytes s = None)" by auto
    show ?thesis
    proof (cases "se_bytes s")
      case None
      with Noop have "remote = None" by (cases remote) (auto simp: planSync_def exportBlob_def)
      with None same remote show ?thesis by simp
    next
      case (Some b)
      with Noop obtain r where r: "remote = Some r" and eq: "vm_revision (se_meta s) = cb_revision r"
        "vm_checksum (se_meta s) = cb_checksum r" "\<not> never_synced (revision_of_meta (se_meta s))"
        by (cases remote) (auto simp: planSync_def exportBlob_def revision_of_meta_def revision_of_cloud_def split: if_splits)
      have "blob_valid sha256 r" using cloud_pull_valid [of sv sha256 now c r] remote r by simp
      with chk [OF Some] eq(2) have "cb_bytes r = b" by (intro checksum_inj) (simp add: blob_valid_def)
      with Some r eq remote same acct show ?thesis
        by (auto simp: agree_def never_synced_def revision_of_meta_def split: option.splits)
    qed
  qed
qed

lemma agreed_sync_noop:
  assumes "agree (fetch_cloud sv sha256 now) s c" and "vm_storage (se_meta s) = StoreAccount" and "cloud_signedIn sv c"
  shows "syncSessionWithCloud dp sha256 now unforced (fetch_cloud sv sha256 now) s c = (Inr False, s, c)"
  using assms unfolding agree_def
  by (auto simp: agree_def syncSessionWithCloud_def shouldUseCloudSync_def Let_def exportBlob_def
      planSync_def never_synced_def revision_of_meta_def revision_of_cloud_def fetch_cloud_def
      split: option.splits sum.splits)

end


text \<open>An empty session and a server that has a locker.\<close>

definition demo_blob :: cloud_blob where
  "demo_blob = \<lparr>cb_bytes = replicate 32 0, cb_revision = 1, cb_updatedAt = ''t'', cb_checksum = replicate 64 (CHR ''0'')\<rparr>"

definition demo_name :: string where "demo_name = ''1-'' @ replicate 64 (CHR ''0'') @ ''.kdbx''"

definition demo_server :: mem_server where
  "demo_server = \<lparr>ms_user = Some ''u'', ms_rows = [''u'' \<mapsto> row_of_blob demo_name demo_blob],
     ms_objects = [(''u'', demo_name) \<mapsto> replicate 32 0]\<rparr>"

lemma demo_checksum: "vaultChecksum id (replicate 32 0) = replicate 64 (CHR ''0'')"
  by code_simp

lemma demo_object: "vaultObjectName 1 (replicate 64 (CHR ''0'')) = Inr demo_name"
  by code_simp

lemma demo_pull: "cloud_pull mem_sv id ''now'' demo_server = Inr (Some demo_blob)"
  by (simp add: cloud_pull_def mem_sv_def demo_server_def row_valid_def row_of_blob_def demo_blob_def demo_object
      fetch_row_def demo_checksum)

definition demo_empty :: "string list session" where "demo_empty = hydrate (new_session None)"

definition demo_synced :: "string list session" where
  "demo_synced = snd (importCloud id ''now'' demo_blob demo_empty)"

lemma demo_sync: "syncSessionWithCloud (\<lambda>_. None) id ''now'' unforced (fetch_cloud mem_sv id ''now'') demo_empty demo_server
    = (Inr False, demo_synced, demo_server)"
proof -
  have "cloud_signedIn mem_sv demo_server" by (simp add: cloud_signedIn_def mem_sv_def demo_server_def)
  then show ?thesis
    by (simp add: syncSessionWithCloud_def fetch_cloud_def demo_pull shouldUseCloudSync_def Let_def planSync_def
        sync_pull_def demo_synced_def importCloud_def importBlob_def demo_empty_def hydrate_def new_session_def
        exportBlob_def emptyMeta_def lock_def store_save_def) (simp add: demo_blob_def)
qed


text \<open>
  A change can be lost.  A device whose changed copy is older by revision and newer by its clock
  pushes it, which sets the cloud's revision back; the next device that was in step with the cloud before
  then counts as ahead, and its synchronisation puts the replaced copy back over the change.
\<close>

theorem newer_change_lost:
  assumes "cloud_laws cloud valid"
    and "planSync dp (Some (revision_of_meta m)) (Some (revision_of_cloud r)) = (PushUp, ''local-newer-dirty'')"
    and "cs_push cloud (push_blob sha256 b m) c = (Inr (), c1)"
    and "exportBlob s = Some (cb_bytes r, se_meta s)" and "vm_revision (se_meta s) = cb_revision r"
    and "vm_checksum (se_meta s) = cb_checksum r" and "cb_checksum r \<noteq> []"
    and "\<not> never_synced (revision_of_meta (se_meta s))" and "vm_storage (se_meta s) = StoreAccount" and "cs_signedIn cloud c1"
    and "syncSessionWithCloud dp sha256 now unforced cloud s c1 = (Inr missing, s', c2)"
  shows "\<exists>x. cs_pull cloud c1 = Inr (Some (push_blob sha256 b m)) \<and> cs_pull cloud c2 = Inr (Some x) \<and>
    cb_bytes x = cb_bytes r \<and> cb_checksum x = cb_checksum r"
proof -
  have pulled: "cs_pull cloud c1 = Inr (Some (push_blob sha256 b m))"
    using cloud_laws.push_pull [OF assms(1,3)] .
  have behind: "vm_revision m < cb_revision r"
    using assms(2) by (auto simp: planSync_def revision_of_meta_def revision_of_cloud_def split: if_splits)
  have "fst (planSync dp (Some (revision_of_meta (se_meta s))) (Some (revision_of_cloud (push_blob sha256 b m)))) = PushUp"
    using behind assms(5,8) by (simp add: planSync_def revision_of_meta_def revision_of_cloud_def push_blob_def)
  then have push: "sync_push sha256 now cloud (Some (push_blob sha256 b m)) s c1 = (Inr missing, s', c2)"
    using assms(4,9,10,11) pulled by (simp add: syncSessionWithCloud_def shouldUseCloudSync_def Let_def)
  then have "cs_push cloud (push_blob sha256 (cb_bytes r) (se_meta s)) c1 = (Inr (), c2)"
    using assms(4) by (auto simp: sync_push_def Let_def split: sum.splits prod.splits)
  with cloud_laws.push_pull [OF assms(1) this] pulled assms(6,7) show ?thesis
    by (auto simp: push_blob_def str_or_def)
qed

text \<open>Device A changed revision 3 while the cloud and device B are at revision 5.\<close>

definition one_slot :: "cloud_blob option cloud_store" where
  "one_slot = \<lparr>cs_signedIn = (\<lambda>_. True), cs_pull = Inr, cs_push = (\<lambda>b _. (Inr (), Some b))\<rparr>"

definition meta_at :: "int \<Rightarrow> string \<Rightarrow> string \<Rightarrow> bool \<Rightarrow> vault_meta" where
  "meta_at n t k d = \<lparr>vm_revision = n, vm_updatedAt = t, vm_checksum = k, vm_dirty = d, vm_lastSyncedAt = Some ''s'',
     vm_storage = StoreAccount\<rparr>"

definition blob_at_5 :: cloud_blob where
  "blob_at_5 = \<lparr>cb_bytes = [5], cb_revision = 5, cb_updatedAt = ''1'', cb_checksum = ''k5''\<rparr>"

definition device_b :: "string list session" where
  "device_b = \<lparr>se_bytes = Some [5], se_meta = meta_at 5 ''1'' ''k5'' False, se_db = None, se_idle = False, se_stored = None\<rparr>"

definition b_synced :: "(string, bool) result \<times> string list session \<times> cloud_blob option" where
  "b_synced = syncSessionWithCloud (\<lambda>t. if t = ''2'' then Some 2 else Some 1) id ''now'' unforced one_slot device_b
     (Some (push_blob id [3] (meta_at 3 ''2'' ''k3'' True)))"

lemma b_synced_ok: "\<exists>missing s' c2. b_synced = (Inr missing, s', c2)"
  by (simp add: b_synced_def syncSessionWithCloud_def one_slot_def shouldUseCloudSync_def device_b_def meta_at_def
      planSync_def exportBlob_def revision_of_meta_def revision_of_cloud_def push_blob_def sync_push_def Let_def never_synced_def)

theorem newer_change_lost_witness:
  "\<exists>x. cs_pull one_slot (snd (snd b_synced)) = Inr (Some x) \<and> cb_bytes x = [5] \<and> cb_checksum x = ''k5''"
proof -
  obtain missing s' c2 where b: "b_synced = (Inr missing, s', c2)" using b_synced_ok by blast
  have laws: "cloud_laws one_slot (\<lambda>_. True)" by unfold_locales (auto simp: one_slot_def)
  have "\<exists>x. cs_pull one_slot (Some (push_blob id [3] (meta_at 3 ''2'' ''k3'' True))) = Inr (Some (push_blob id [3] (meta_at 3 ''2'' ''k3'' True))) \<and>
      cs_pull one_slot c2 = Inr (Some x) \<and> cb_bytes x = cb_bytes blob_at_5 \<and> cb_checksum x = cb_checksum blob_at_5"
  proof (rule newer_change_lost [OF laws])
    show "planSync (\<lambda>t. if t = ''2'' then Some 2 else Some 1) (Some (revision_of_meta (meta_at 3 ''2'' ''k3'' True)))
        (Some (revision_of_cloud blob_at_5)) = (PushUp, ''local-newer-dirty'')"
      by (simp add: planSync_def revision_of_meta_def revision_of_cloud_def meta_at_def blob_at_5_def never_synced_def timestamp_def)
    show "syncSessionWithCloud (\<lambda>t. if t = ''2'' then Some 2 else Some 1) id ''now'' unforced one_slot device_b
      (Some (push_blob id [3] (meta_at 3 ''2'' ''k3'' True))) = (Inr missing, s', c2)"
      using b by (simp add: b_synced_def)
  qed (simp_all add: one_slot_def device_b_def meta_at_def blob_at_5_def exportBlob_def never_synced_def revision_of_meta_def)
  then obtain x where "cs_pull one_slot c2 = Inr (Some x)" "cb_bytes x = [5]" "cb_checksum x = ''k5''"
    by (auto simp: blob_at_5_def)
  moreover have "snd (snd b_synced) = c2" unfolding b by simp
  ultimately show ?thesis by simp
qed

end
