(* ===== verification/Validation.thy ===== *)
theory Validation
  imports AgentTypes
begin

text \<open>
  What the application accepts from its clients: \<^verbatim>\<open>packages/protocol/src/validation.ts\<close>, the fixed
  tables (platforms, storage providers, mail presets) and the validators that turn a value of unknown
  shape into a typed request or an error.  The wording meant for the eye (the languages' own names,
  descriptions, hints, set-up fields) is left out of the tables.  An error that quotes the value it
  refuses keeps the value, since \<open>String(value)\<close> is only its rendering.
\<close>

section \<open>Tables\<close>

datatype system_permission = FullDiskAccess | OtherPermission string

definition permissionPrompts :: "system_permission \<Rightarrow> bool" where
  "permissionPrompts kind \<longleftrightarrow> kind \<noteq> FullDiskAccess"

definition REASONING_EFFORTS :: "(string \<times> reasoning_effort) list" where
  "REASONING_EFFORTS = [(''off'', EffOff), (''minimal'', EffMinimal), (''low'', EffLow), (''medium'', EffMedium),
     (''high'', EffHigh), (''xhigh'', EffXhigh), (''max'', EffMax)]"

definition LOCAL_RUNTIMES :: "(string \<times> string \<times> string) list" where
  "LOCAL_RUNTIMES = [
    (''ollama'', ''Ollama'', ''http://localhost:11434/v1''),
    (''lm-studio'', ''LM Studio'', ''http://localhost:1234/v1''),
    (''vllm'', ''vLLM'', ''http://localhost:8000/v1''),
    (''llama-cpp'', ''Llama.cpp'', ''http://localhost:8080/v1'')]"

definition SUPPORTED_LANGUAGES :: "string list" where
  "SUPPORTED_LANGUAGES = [''system'', ''en'', ''es'', ''fr'', ''de'', ''pt'', ''it'', ''nl'', ''ja'', ''ko'', ''zh-Hans'', ''zh-Hant'', ''hi'', ''id'', ''ms'', ''th'', ''vi'', ''ar'', ''ru'']"

text \<open>Value, label, route and bot.\<close>

definition COMMS_PLATFORMS :: "(string \<times> string \<times> string option \<times> string option) list" where
  "COMMS_PLATFORMS = [
    (''whatsapp'', ''WhatsApp'', Some ''whatsapp'', Some ''whatsappbot''),
    (''telegram'', ''Telegram'', Some ''telegram'', Some ''telegrambot''),
    (''signal'', ''Signal'', Some ''signal'', Some ''signalbot''),
    (''messenger'', ''Messenger'', Some ''messenger'', Some ''messengerbot''),
    (''instagram'', ''Instagram'', Some ''instagram'', Some ''instagrambot''),
    (''slack'', ''Slack'', Some ''slack'', Some ''slackbot''),
    (''linkedin'', ''LinkedIn'', Some ''linkedin'', Some ''linkedinbot''),
    (''googlechat'', ''Google Chat'', Some ''googlechat'', Some ''googlechatbot''),
    (''gmessages'', ''Google Messages'', Some ''gmessages'', Some ''gmessagesbot''),
    (''twitter'', ''X'', Some ''twitter'', Some ''twitterbot''),
    (''bluesky'', ''Bluesky'', Some ''bluesky'', Some ''blueskybot''),
    (''gvoice'', ''Google Voice'', Some ''gvoice'', Some ''gvoicebot''),
    (''zulip'', ''Zulip'', Some ''zulip'', Some ''zulipbot''),
    (''imessage'', ''iMessage'', Some ''imessage'', Some ''imessagebot''),
    (''wechat'', ''WeChat'', None, Some ''wechatbot''),
    (''matrix'', ''Matrix'', None, None)]"

datatype drive_kind = KVirtual | KLocal | KNetwork | KOauth | KS3

definition DRIVE_PROVIDERS :: "(string \<times> string \<times> drive_kind) list" where
  "DRIVE_PROVIDERS = [
    (''all'', ''All storage'', KVirtual),
    (''local'', ''Local'', KLocal),
    (''network'', ''Network'', KNetwork),
    (''google-drive'', ''Google Drive'', KOauth),
    (''dropbox'', ''Dropbox'', KOauth),
    (''onedrive'', ''OneDrive'', KOauth),
    (''s3'', ''S3 storage'', KS3)]"

datatype encryption = Tls | StartTls | NoEncryption

record email_preset =
  ep_value :: string
  ep_imapHost :: string
  ep_imapPort :: int
  ep_imapEncryption :: encryption
  ep_smtpHost :: string
  ep_smtpPort :: int
  ep_smtpEncryption :: encryption
  ep_hidden :: bool

definition COMMS_EMAIL_PRESETS :: "email_preset list" where
  "COMMS_EMAIL_PRESETS = [
    \<lparr>ep_value = ''gmail'', ep_imapHost = ''imap.gmail.com'', ep_imapPort = 993, ep_imapEncryption = Tls,
      ep_smtpHost = ''smtp.gmail.com'', ep_smtpPort = 587, ep_smtpEncryption = StartTls, ep_hidden = False\<rparr>,
    \<lparr>ep_value = ''outlook'', ep_imapHost = ''outlook.office365.com'', ep_imapPort = 993, ep_imapEncryption = Tls,
      ep_smtpHost = ''smtp.office365.com'', ep_smtpPort = 587, ep_smtpEncryption = StartTls, ep_hidden = False\<rparr>,
    \<lparr>ep_value = ''icloud'', ep_imapHost = ''imap.mail.me.com'', ep_imapPort = 993, ep_imapEncryption = Tls,
      ep_smtpHost = ''smtp.mail.me.com'', ep_smtpPort = 587, ep_smtpEncryption = StartTls, ep_hidden = True\<rparr>,
    \<lparr>ep_value = ''lark'', ep_imapHost = ''imap.larksuite.com'', ep_imapPort = 993, ep_imapEncryption = Tls,
      ep_smtpHost = ''smtp.larksuite.com'', ep_smtpPort = 465, ep_smtpEncryption = Tls, ep_hidden = True\<rparr>,
    \<lparr>ep_value = ''fastmail'', ep_imapHost = ''imap.fastmail.com'', ep_imapPort = 993, ep_imapEncryption = Tls,
      ep_smtpHost = ''smtp.fastmail.com'', ep_smtpPort = 465, ep_smtpEncryption = Tls, ep_hidden = True\<rparr>,
    \<lparr>ep_value = ''custom'', ep_imapHost = [], ep_imapPort = 993, ep_imapEncryption = Tls,
      ep_smtpHost = [], ep_smtpPort = 587, ep_smtpEncryption = StartTls, ep_hidden = False\<rparr>]"

section \<open>Errors and fields\<close>

datatype invalid = Invalid string | Unsupported "json option" string

text \<open>A field of an object, \<open>None\<close> where it is undefined.\<close>

fun prop_of :: "json \<Rightarrow> string \<Rightarrow> json option" where
  "prop_of (JObj kvs) k = map_of kvs k"
| "prop_of _ k = None"

definition record_value :: "json option \<Rightarrow> string \<Rightarrow> (invalid, json) result" where
  "record_value v label = (case v of Some (JObj kvs) \<Rightarrow> Inr (JObj kvs)
     | _ \<Rightarrow> Inl (Invalid (label @ '' must be an object'')))"

definition text_value :: "json option \<Rightarrow> string \<Rightarrow> (invalid, string) result" where
  "text_value v label = (case v of
     Some (JStr s) \<Rightarrow> if js_trim s = [] then Inl (Invalid (label @ '' must be a non-empty string'')) else Inr s
   | _ \<Rightarrow> Inl (Invalid (label @ '' must be a non-empty string'')))"

fun strings_of :: "json list \<Rightarrow> string list option" where
  "strings_of [] = Some []"
| "strings_of (JStr s # vs) = map_option ((#) s) (strings_of vs)"
| "strings_of (v # vs) = None"

definition string_array :: "json option \<Rightarrow> string \<Rightarrow> (invalid, string list) result" where
  "string_array v label = (case v of
     Some (JArr vs) \<Rightarrow> (case strings_of vs of Some ss \<Rightarrow> Inr ss
       | None \<Rightarrow> Inl (Invalid (label @ '' must be an array of strings'')))
   | _ \<Rightarrow> Inl (Invalid (label @ '' must be an array of strings'')))"

definition bool_value :: "json option \<Rightarrow> string \<Rightarrow> (invalid, bool) result" where
  "bool_value v label = (case v of Some (JBool b) \<Rightarrow> Inr b | _ \<Rightarrow> Inl (Invalid (label @ '' must be a boolean'')))"

definition port_value :: "json option \<Rightarrow> string \<Rightarrow> (invalid, int) result" where
  "port_value v label = (case v of
     Some (JNum r) \<Rightarrow> if r \<noteq> of_int \<lfloor>r\<rfloor> \<or> r < 1 \<or> r > 65535 then Inl (Invalid (label @ '' must be a port number''))
       else Inr \<lfloor>r\<rfloor>
   | _ \<Rightarrow> Inl (Invalid (label @ '' must be a port number'')))"

definition encryption_value :: "json option \<Rightarrow> string \<Rightarrow> (invalid, encryption) result" where
  "encryption_value v label =
     (if v = Some (JStr ''tls'') then Inr Tls
      else if v = Some (JStr ''start-tls'') then Inr StartTls
      else if v = Some (JStr ''none'') then Inr NoEncryption
      else Inl (Invalid (label @ '' must be tls, start-tls, or none'')))"

definition effort_value :: "json option \<Rightarrow> (invalid, reasoning_effort) result" where
  "effort_value v = (case v of
     Some (JStr s) \<Rightarrow> (case map_of REASONING_EFFORTS s of Some e \<Rightarrow> Inr e
       | None \<Rightarrow> Inl (Unsupported v ''is not a supported reasoning effort''))
   | _ \<Rightarrow> Inl (Unsupported v ''is not a supported reasoning effort''))"

text \<open>\<open>x === undefined ? undefined : read(x)\<close>, and the same with the empty string.\<close>

definition opt_value :: "(json option \<Rightarrow> (invalid, 'a) result) \<Rightarrow> json option \<Rightarrow> (invalid, 'a option) result" where
  "opt_value read v = (if v = None then Inr None else bind_result (read v) (\<lambda>x. Inr (Some x)))"

definition opt_text :: "json option \<Rightarrow> string \<Rightarrow> (invalid, string option) result" where
  "opt_text v label = (if v = None \<or> v = Some (JStr []) then Inr None
     else bind_result (text_value v label) (\<lambda>x. Inr (Some x)))"

section \<open>Platforms, languages and storage\<close>

definition supportedLanguage :: "json option \<Rightarrow> string option" where
  "supportedLanguage v = (case v of Some (JStr s) \<Rightarrow> if s \<in> set SUPPORTED_LANGUAGES then Some s else None | _ \<Rightarrow> None)"

definition commsPlatform :: "json option \<Rightarrow> (invalid, string) result" where
  "commsPlatform v = (case v of
     Some (JStr s) \<Rightarrow> if s \<in> fst ` set COMMS_PLATFORMS then Inr s
       else Inl (Unsupported v ''is not a supported messaging platform'')
   | _ \<Rightarrow> Inl (Unsupported v ''is not a supported messaging platform''))"

definition commsPlatformLabel :: "string \<Rightarrow> string" where
  "commsPlatformLabel v = (case map_of COMMS_PLATFORMS v of Some (l, _) \<Rightarrow> l | None \<Rightarrow> v)"

definition mailProvider :: "json option \<Rightarrow> (invalid, string) result" where
  "mailProvider v = (if v = Some (JStr ''google'') then Inr ''google''
     else if v = Some (JStr ''microsoft'') then Inr ''microsoft''
     else Inl (Unsupported v ''is not a mail provider Polymux can sign in to''))"

definition presetForHost :: "string \<Rightarrow> email_preset option" where
  "presetForHost host =
     (let name = js_lower (js_trim host) in
      if name = [] then None
      else List.find (\<lambda>p. (ep_imapHost p \<noteq> [] \<and> js_lower (ep_imapHost p) = name) \<or>
        (ep_smtpHost p \<noteq> [] \<and> js_lower (ep_smtpHost p) = name)) COMMS_EMAIL_PRESETS)"

definition driveProvider :: "json option \<Rightarrow> (invalid, string) result" where
  "driveProvider v = (case v of
     Some (JStr s) \<Rightarrow> if s \<in> fst ` set DRIVE_PROVIDERS then Inr s
       else Inl (Unsupported v ''is not a supported storage provider'')
   | _ \<Rightarrow> Inl (Unsupported v ''is not a supported storage provider''))"

definition DRIVE_CONNECTABLE :: "(string \<times> string \<times> drive_kind) list" where
  "DRIVE_CONNECTABLE = filter (\<lambda>x. snd (snd x) \<noteq> KVirtual) DRIVE_PROVIDERS"

definition driveSourceId :: "string \<Rightarrow> string \<Rightarrow> string" where
  "driveSourceId provider accountId = provider @ ''#'' @ accountId"

definition parseDriveSourceId :: "string \<Rightarrow> string \<times> string" where
  "parseDriveSourceId i = (case js_index_of ''#'' i 0 of
     None \<Rightarrow> (i, []) | Some h \<Rightarrow> (take h i, drop (Suc h) i))"

definition driveSource :: "json option \<Rightarrow> (invalid, string) result" where
  "driveSource v = (case v of
     Some (JStr s) \<Rightarrow> if s = [] then Inl (Unsupported v ''is not a storage location'')
       else bind_result (driveProvider (Some (JStr (case js_index_of ''#'' s 0 of None \<Rightarrow> s | Some h \<Rightarrow> take h s)))) (\<lambda>_. Inr s)
   | _ \<Rightarrow> Inl (Unsupported v ''is not a storage location''))"

definition driveProviderLabel :: "string \<Rightarrow> string" where
  "driveProviderLabel v = (case map_of DRIVE_PROVIDERS v of Some (l, _) \<Rightarrow> l | None \<Rightarrow> v)"

definition driveProviderKind :: "string \<Rightarrow> drive_kind" where
  "driveProviderKind v = (case map_of DRIVE_PROVIDERS v of Some (_, k) \<Rightarrow> k | None \<Rightarrow> KOauth)"

text \<open>\<open>Set.add\<close>, in insertion order.\<close>

definition add_once :: "'a \<Rightarrow> 'a list \<Rightarrow> 'a list" where
  "add_once x xs = (if x \<in> set xs then xs else xs @ [x])"

definition known_entries :: "json list \<Rightarrow> string list" where
  "known_entries vs = List.map_filter (\<lambda>v. case v of JStr s \<Rightarrow>
     if s \<in> fst ` set DRIVE_CONNECTABLE then Some s else None | _ \<Rightarrow> None) vs"

definition driveSaveOrder :: "json option \<Rightarrow> string list" where
  "driveSaveOrder v = (case v of
     Some (JArr vs) \<Rightarrow> fold add_once (map fst DRIVE_CONNECTABLE) (fold add_once (known_entries vs) [])
   | _ \<Rightarrow> map fst DRIVE_CONNECTABLE)"

record s3_config =
  s3_bucket :: string
  s3_region :: string
  s3_endpoint :: "string option"
  s3_accessKeyId :: string
  s3_secretAccessKey :: "string option"
  s3_prefix :: "string option"
  s3_forcePathStyle :: bool

definition s3_text :: "json \<Rightarrow> string \<Rightarrow> string \<Rightarrow> (invalid, string) result" where
  "s3_text r key label = (case prop_of r key of
     Some (JStr s) \<Rightarrow> if js_trim s = [] then Inl (Invalid (label @ '' is required'')) else Inr (js_trim s)
   | _ \<Rightarrow> Inl (Invalid (label @ '' is required'')))"

definition s3_optional :: "json \<Rightarrow> string \<Rightarrow> string option" where
  "s3_optional r key = (case prop_of r key of
     Some (JStr s) \<Rightarrow> if js_trim s = [] then None else Some (js_trim s) | _ \<Rightarrow> None)"

text \<open>An array passes the first test too, and has none of the fields.\<close>

definition driveS3Config :: "json option \<Rightarrow> (invalid, s3_config) result" where
  "driveS3Config v = (case v of
     Some r \<Rightarrow>
       if (case r of JObj _ \<Rightarrow> False | JArr _ \<Rightarrow> False | _ \<Rightarrow> True) then Inl (Invalid ''S3 settings are required'')
       else
         bind_result (s3_text r ''bucket'' ''Bucket'') (\<lambda>bucket.
         bind_result (s3_text r ''region'' ''Region'') (\<lambda>region.
         bind_result (s3_text r ''accessKeyId'' ''Access key ID'') (\<lambda>key.
         Inr \<lparr>s3_bucket = bucket, s3_region = region, s3_endpoint = s3_optional r ''endpoint'', s3_accessKeyId = key,
           s3_secretAccessKey = (case prop_of r ''secretAccessKey'' of Some (JStr s) \<Rightarrow> if s = [] then None else Some s | _ \<Rightarrow> None),
           s3_prefix = s3_optional r ''prefix'', s3_forcePathStyle = (prop_of r ''forcePathStyle'' = Some (JBool True))\<rparr>)))
   | None \<Rightarrow> Inl (Invalid ''S3 settings are required''))"

section \<open>Mail accounts\<close>

text \<open>\<open>/^[a-z0-9][a-z0-9_-]*$/i\<close> and \<open>\w\<close>.\<close>

definition is_alnum :: "char \<Rightarrow> bool" where
  "is_alnum c \<longleftrightarrow> is_digit c \<or> (let n = of_char (js_lower_char c) :: nat in 97 \<le> n \<and> n \<le> 122)"

definition is_word :: "char \<Rightarrow> bool" where
  "is_word c \<longleftrightarrow> is_alnum c \<or> c = CHR ''_''"

definition account_name :: "string \<Rightarrow> bool" where
  "account_name s = (case s of [] \<Rightarrow> False | c # cs \<Rightarrow> is_alnum c \<and> list_all (\<lambda>x. is_word x \<or> x = CHR ''-'') cs)"

record email_account =
  ea_originalId :: "string option"
  ea_id :: string
  ea_displayName :: "string option"
  ea_email :: string
  ea_preset :: string
  ea_imapHost :: string
  ea_imapPort :: int
  ea_imapEncryption :: encryption
  ea_imapLogin :: "string option"
  ea_smtpHost :: string
  ea_smtpPort :: int
  ea_smtpEncryption :: encryption
  ea_smtpLogin :: "string option"
  ea_password :: "string option"

definition email_fields :: "json \<Rightarrow> string \<Rightarrow> string \<Rightarrow> string \<Rightarrow> (invalid, email_account) result" where
  "email_fields input i email preset =
     bind_result (opt_value (\<lambda>v. text_value v ''originalId'') (prop_of input ''originalId'')) (\<lambda>original.
     bind_result (opt_text (prop_of input ''displayName'') ''displayName'') (\<lambda>displayName.
     bind_result (text_value (prop_of input ''imapHost'') ''imapHost'') (\<lambda>imapHost.
     bind_result (port_value (prop_of input ''imapPort'') ''imapPort'') (\<lambda>imapPort.
     bind_result (encryption_value (prop_of input ''imapEncryption'') ''imapEncryption'') (\<lambda>imapEncryption.
     bind_result (opt_text (prop_of input ''imapLogin'') ''imapLogin'') (\<lambda>imapLogin.
     bind_result (text_value (prop_of input ''smtpHost'') ''smtpHost'') (\<lambda>smtpHost.
     bind_result (port_value (prop_of input ''smtpPort'') ''smtpPort'') (\<lambda>smtpPort.
     bind_result (encryption_value (prop_of input ''smtpEncryption'') ''smtpEncryption'') (\<lambda>smtpEncryption.
     bind_result (opt_text (prop_of input ''smtpLogin'') ''smtpLogin'') (\<lambda>smtpLogin.
     bind_result (opt_text (prop_of input ''password'') ''password'') (\<lambda>password.
     Inr \<lparr>ea_originalId = original, ea_id = i, ea_displayName = displayName, ea_email = email, ea_preset = preset,
       ea_imapHost = imapHost, ea_imapPort = imapPort, ea_imapEncryption = imapEncryption, ea_imapLogin = imapLogin,
       ea_smtpHost = smtpHost, ea_smtpPort = smtpPort, ea_smtpEncryption = smtpEncryption, ea_smtpLogin = smtpLogin,
       ea_password = password\<rparr>)))))))))))"

definition validateSaveEmailAccount :: "json option \<Rightarrow> (invalid, email_account) result" where
  "validateSaveEmailAccount value =
     bind_result (record_value value ''email account'') (\<lambda>input.
     bind_result (text_value (prop_of input ''id'') ''id'') (\<lambda>i.
     if \<not> account_name i then Inl (Invalid ''Account name may only contain letters, numbers, dashes, and underscores'')
     else bind_result (text_value (prop_of input ''email'') ''email'') (\<lambda>email.
     if CHR ''@'' \<notin> set email then Inl (Invalid ''email must be an address'')
     else bind_result (text_value (prop_of input ''preset'') ''preset'') (\<lambda>preset.
     if preset \<notin> ep_value ` set COMMS_EMAIL_PRESETS
     then Inl (Unsupported (Some (JStr preset)) ''is not a supported email provider'')
     else email_fields input i email preset))))"

section \<open>Mail signatures\<close>

record mail_signature =
  mg_id :: string
  mg_name :: string
  mg_body :: string
  mg_html :: "string option"

record mail_signatures =
  ms_account :: string
  ms_signatures :: "mail_signature list"
  ms_default :: "string option"

text \<open>The markup a signature must not hold, at the front of a text whose character before is given.\<close>

definition FORBIDDEN_TAGS :: "string list" where
  "FORBIDDEN_TAGS = [''script'', ''style'', ''iframe'', ''frame'', ''object'', ''embed'', ''form'', ''base'', ''link'', ''meta'']"

definition starts_ci :: "string \<Rightarrow> string \<Rightarrow> bool" where
  "starts_ci p s \<longleftrightarrow> js_lower (take (length p) s) = p"

definition ends_word :: "string \<Rightarrow> bool" where
  "ends_word s = (case s of [] \<Rightarrow> True | c # _ \<Rightarrow> \<not> is_word c)"

definition skip_spaces :: "string \<Rightarrow> string" where
  "skip_spaces s = dropWhile is_js_space s"

definition forbidden_at :: "bool \<Rightarrow> string \<Rightarrow> bool" where
  "forbidden_at after_word s \<longleftrightarrow>
     (take 1 s = ''<'' \<and> list_ex (\<lambda>t. let r = skip_spaces (drop 1 s) in starts_ci t r \<and> ends_word (drop (length t) r)) FORBIDDEN_TAGS) \<or>
     (\<not> after_word \<and> starts_ci ''on'' s \<and> \<not> ends_word (drop 2 s) \<and> take 1 (skip_spaces (dropWhile is_word (drop 2 s))) = ''='') \<or>
     (starts_ci ''javascript'' s \<and> take 1 (skip_spaces (drop 10 s)) = '':'') \<or>
     (starts_ci ''url'' s \<and> take 1 (skip_spaces (drop 3 s)) = ''('') \<or>
     (starts_ci ''expression'' s \<and> take 1 (skip_spaces (drop 10 s)) = ''('')"

fun forbidden_markup :: "bool \<Rightarrow> string \<Rightarrow> bool" where
  "forbidden_markup after_word [] = False"
| "forbidden_markup after_word (c # cs) = (forbidden_at after_word (c # cs) \<or> forbidden_markup (is_word c) cs)"

text \<open>\<open>replace(/\r\n?/g, "\n")\<close>.\<close>

fun unix_lines :: "string \<Rightarrow> string" where
  "unix_lines [] = []"
| "unix_lines [c] = (if c = CHR 0x0D then [CHR 0x0A] else [c])"
| "unix_lines (c # d # cs) =
     (if c = CHR 0x0D then CHR 0x0A # (if d = CHR 0x0A then unix_lines cs else unix_lines (d # cs))
      else c # unix_lines (d # cs))"

definition signature_html :: "json option \<Rightarrow> (invalid, string option) result" where
  "signature_html v =
     (if v = None \<or> v = Some JNull \<or> v = Some (JStr []) then Inr None
      else bind_result (text_value v ''signature html'') (\<lambda>html.
        if length html > 100000 then Inl (Invalid ''Formatted signatures may be at most 100,000 characters'')
        else if forbidden_markup False html then Inl (Invalid ''Formatted signatures contain unsupported markup'')
        else Inr (Some html)))"

definition signature_body :: "json option \<Rightarrow> (invalid, string) result" where
  "signature_body v = (case v of
     Some (JStr b) \<Rightarrow> if length b > 50000 then Inl (Invalid ''Signature bodies may be at most 50,000 characters'')
       else Inr (unix_lines b)
   | _ \<Rightarrow> Inl (Invalid ''signature body must be text''))"

text \<open>One signature, \<open>n\<close> its number and \<open>seen\<close> the identifiers before it.\<close>

definition read_signature :: "nat \<Rightarrow> string list \<Rightarrow> json \<Rightarrow> (invalid, mail_signature) result" where
  "read_signature n seen v =
     bind_result (record_value (Some v) (''signature '' @ show_nat n)) (\<lambda>sig.
     bind_result (text_value (prop_of sig ''id'') ''signature id'') (\<lambda>i.
     if \<not> account_name i \<or> length i > 128
     then Inl (Invalid ''Signature ids may contain letters, numbers, dashes, and underscores'')
     else if i \<in> set seen then Inl (Invalid (''Duplicate signature id: '' @ i))
     else bind_result (text_value (prop_of sig ''name'') ''signature name'') (\<lambda>name.
     if length (js_trim name) > 80 then Inl (Invalid ''Signature names may be at most 80 characters'')
     else bind_result (signature_body (prop_of sig ''body'')) (\<lambda>body.
     bind_result (signature_html (prop_of sig ''html'')) (\<lambda>html.
     Inr \<lparr>mg_id = i, mg_name = js_trim name, mg_body = body, mg_html = html\<rparr>)))))"

fun read_signatures :: "nat \<Rightarrow> string list \<Rightarrow> json list \<Rightarrow> (invalid, mail_signature list) result" where
  "read_signatures n seen [] = Inr []"
| "read_signatures n seen (v # vs) =
     bind_result (read_signature n seen v) (\<lambda>x.
     bind_result (read_signatures (Suc n) (seen @ [mg_id x]) vs) (\<lambda>xs. Inr (x # xs)))"

definition default_signature :: "json option \<Rightarrow> mail_signature list \<Rightarrow> (invalid, string option) result" where
  "default_signature v xs =
     (if v = None \<or> v = Some JNull then Inr None
      else bind_result (text_value v ''default signature id'') (\<lambda>i.
        if i \<notin> mg_id ` set xs then Inl (Invalid ''The default signature must belong to this account'') else Inr (Some i)))"

definition validateSaveMailSignatures :: "json option \<Rightarrow> (invalid, mail_signatures) result" where
  "validateSaveMailSignatures value =
     bind_result (record_value value ''mail signatures'') (\<lambda>input.
     bind_result (text_value (prop_of input ''account'') ''account'') (\<lambda>account.
     case prop_of input ''signatures'' of
       Some (JArr vs) \<Rightarrow>
         if length vs > 50 then Inl (Invalid ''An account may have at most 50 signatures'')
         else bind_result (read_signatures 1 [] vs) (\<lambda>xs.
           bind_result (default_signature (prop_of input ''defaultSignatureId'') xs) (\<lambda>d.
           Inr \<lparr>ms_account = account, ms_signatures = xs, ms_default = d\<rparr>))
     | _ \<Rightarrow> Inl (Invalid ''signatures must be a list'')))"

section \<open>Runs and goals\<close>

record start_run =
  rn_deviceId :: "string option"
  rn_conversationId :: string
  rn_text :: string
  rn_messageId :: "string option"
  rn_attachments :: "string list option"
  rn_asGoal :: "bool option"
  rn_reasoning :: "reasoning_effort option"
  rn_speechMode :: "bool option"
  rn_reuseUserMessage :: "bool option"
  rn_rewind :: "bool option"

definition validateStartRun :: "json option \<Rightarrow> (invalid, start_run) result" where
  "validateStartRun value =
     bind_result (record_value value ''start run'') (\<lambda>input.
     bind_result (opt_value (\<lambda>v. text_value v ''messageId'') (prop_of input ''messageId'')) (\<lambda>messageId.
     bind_result (opt_value (\<lambda>v. bool_value v ''rewind'') (prop_of input ''rewind'')) (\<lambda>rewind.
     if rewind = Some True \<and> messageId = None
     then Inl (Invalid ''messageId is required to resend from a previous message'')
     else
     bind_result (opt_value (\<lambda>v. text_value v ''deviceId'') (prop_of input ''deviceId'')) (\<lambda>deviceId.
     bind_result (text_value (prop_of input ''conversationId'') ''conversationId'') (\<lambda>conversationId.
     bind_result (text_value (prop_of input ''text'') ''text'') (\<lambda>txt.
     bind_result (opt_value (\<lambda>v. string_array v ''attachments'') (prop_of input ''attachments'')) (\<lambda>attachments.
     bind_result (opt_value (\<lambda>v. bool_value v ''asGoal'') (prop_of input ''asGoal'')) (\<lambda>asGoal.
     bind_result (opt_value effort_value (prop_of input ''reasoning'')) (\<lambda>reasoning.
     bind_result (opt_value (\<lambda>v. bool_value v ''speechMode'') (prop_of input ''speechMode'')) (\<lambda>speechMode.
     bind_result (opt_value (\<lambda>v. bool_value v ''reuseUserMessage'') (prop_of input ''reuseUserMessage'')) (\<lambda>reuse.
     Inr \<lparr>rn_deviceId = deviceId, rn_conversationId = conversationId, rn_text = txt, rn_messageId = messageId,
       rn_attachments = attachments, rn_asGoal = asGoal, rn_reasoning = reasoning, rn_speechMode = speechMode,
       rn_reuseUserMessage = reuse, rn_rewind = rewind\<rparr>)))))))))))"

record goal_command =
  gc_conversationId :: string
  gc_action :: string
  gc_objective :: "string option"

definition GOAL_ACTIONS :: "string list" where
  "GOAL_ACTIONS = [''view'', ''create'', ''update'', ''pause'', ''resume'', ''clear'']"

definition validateGoalCommand :: "json option \<Rightarrow> (invalid, goal_command) result" where
  "validateGoalCommand value =
     bind_result (record_value value ''goal command'') (\<lambda>input.
     bind_result (text_value (prop_of input ''action'') ''action'') (\<lambda>action.
     if action \<notin> set GOAL_ACTIONS then Inl (Invalid ''Invalid goal action'')
     else
     bind_result (opt_value (\<lambda>v. text_value v ''objective'') (prop_of input ''objective'')) (\<lambda>objective.
     if (action = ''create'' \<or> action = ''update'') \<and> (case objective of None \<Rightarrow> True | Some t \<Rightarrow> js_trim t = [])
     then Inl (Invalid ''Goal objective is required'')
     else
     bind_result (text_value (prop_of input ''conversationId'') ''conversationId'') (\<lambda>conversationId.
     Inr \<lparr>gc_conversationId = conversationId, gc_action = action, gc_objective = objective\<rparr>))))"

section \<open>Lemmas\<close>

lemma text_value_Inr: "text_value v l = Inr s \<longleftrightarrow> v = Some (JStr s) \<and> js_trim s \<noteq> []"
  by (auto simp: text_value_def split: option.splits json.splits if_splits)

lemma opt_value_Inr: "opt_value r v = Inr x \<longleftrightarrow> (v = None \<and> x = None) \<or> (v \<noteq> None \<and> (\<exists>y. r v = Inr y \<and> x = Some y))"
  by (auto simp: opt_value_def bind_result_eq_Inr)

lemma port_value_Inr: "port_value v l = Inr p \<Longrightarrow> 1 \<le> p \<and> p \<le> 65535"
  by (auto simp: port_value_def le_floor_iff floor_le_iff split: option.splits json.splits if_splits)

lemma record_value_Inr: "record_value v l = Inr r \<longleftrightarrow> v = Some r \<and> (\<exists>kvs. r = JObj kvs)"
  by (auto simp: record_value_def split: option.splits json.splits)

lemmas bind_Inr = bind_result_eq_Inr text_value_Inr opt_value_Inr record_value_Inr

lemma add_once_simps [simp]: "set (add_once x xs) = insert x (set xs)" "distinct (add_once x xs) = distinct xs"
  by (auto simp: add_once_def)

lemma fold_add_once: "set (fold add_once ys xs) = set ys \<union> set xs \<and> (distinct xs \<longrightarrow> distinct (fold add_once ys xs))
    \<and> (\<exists>zs. fold add_once ys xs = xs @ zs)"
  by (induction ys arbitrary: xs) (auto simp: add_once_def, metis append.assoc)

lemma signature_html_Inr: "signature_html v = Inr h \<Longrightarrow>
    (case h of None \<Rightarrow> True | Some t \<Rightarrow> length t \<le> 100000 \<and> \<not> forbidden_markup False t)"
  by (auto simp: signature_html_def bind_result_eq_Inr split: if_splits)

lemma signature_body_Inr:
  assumes "signature_body v = Inr b"
  shows "CHR 0x0D \<notin> set b"
proof -
  have "CHR 0x0D \<notin> set (unix_lines t)" for t by (induction t rule: unix_lines.induct) auto
  with assms show ?thesis by (auto simp: signature_body_def split: option.splits json.splits if_splits)
qed

definition signature_ok :: "mail_signature \<Rightarrow> bool" where
  "signature_ok x \<longleftrightarrow> account_name (mg_id x) \<and> length (mg_id x) \<le> 128 \<and> length (mg_name x) \<le> 80 \<and>
     CHR 0x0D \<notin> set (mg_body x) \<and>
     (case mg_html x of None \<Rightarrow> True | Some h \<Rightarrow> length h \<le> 100000 \<and> \<not> forbidden_markup False h)"

lemma read_signature_ok:
  assumes "read_signature n seen v = Inr x"
  shows "mg_id x \<notin> set seen \<and> signature_ok x"
proof -
  from assms obtain sig i where i: "(if \<not> account_name i \<or> length i > 128
      then Inl (Invalid ''Signature ids may contain letters, numbers, dashes, and underscores'')
      else if i \<in> set seen then Inl (Invalid (''Duplicate signature id: '' @ i))
      else bind_result (text_value (prop_of sig ''name'') ''signature name'') (\<lambda>name.
      if length (js_trim name) > 80 then Inl (Invalid ''Signature names may be at most 80 characters'')
      else bind_result (signature_body (prop_of sig ''body'')) (\<lambda>body.
      bind_result (signature_html (prop_of sig ''html'')) (\<lambda>html.
      Inr \<lparr>mg_id = i, mg_name = js_trim name, mg_body = body, mg_html = html\<rparr>)))) = Inr x"
    unfolding read_signature_def bind_result_eq_Inr [of _ _ x] by blast
  then have ids: "account_name i" "length i \<le> 128" "i \<notin> set seen" by (simp_all split: if_splits)
  with i obtain name where name: "(if length (js_trim name) > 80 then Inl (Invalid ''Signature names may be at most 80 characters'')
      else bind_result (signature_body (prop_of sig ''body'')) (\<lambda>body.
      bind_result (signature_html (prop_of sig ''html'')) (\<lambda>html.
      Inr \<lparr>mg_id = i, mg_name = js_trim name, mg_body = body, mg_html = html\<rparr>))) = Inr x"
    by (simp add: bind_result_eq_Inr [of "text_value _ _"]) blast
  then have len: "length (js_trim name) \<le> 80" by (simp split: if_splits)
  with name obtain body html where body: "signature_body (prop_of sig ''body'') = Inr body"
    and html: "signature_html (prop_of sig ''html'') = Inr html"
    and x: "x = \<lparr>mg_id = i, mg_name = js_trim name, mg_body = body, mg_html = html\<rparr>"
    by (simp add: bind_result_eq_Inr) blast
  from x ids len signature_body_Inr [OF body] signature_html_Inr [OF html] show ?thesis by (simp add: signature_ok_def)
qed

lemma read_signatures_ok:
  assumes "read_signatures n seen vs = Inr xs"
  shows "length xs = length vs \<and> distinct (map mg_id xs) \<and> mg_id ` set xs \<inter> set seen = {} \<and>
    list_all signature_ok xs"
  using assms
proof (induction n seen vs arbitrary: xs rule: read_signatures.induct)
  case (2 n seen v vs)
  then obtain x ys where x: "read_signature n seen v = Inr x"
    and ys: "read_signatures (Suc n) (seen @ [mg_id x]) vs = Inr ys" and xs: "xs = x # ys"
    by (auto simp: bind_result_eq_Inr)
  from "2.IH" [OF ys] read_signature_ok [OF x] xs show ?case by auto
qed simp

section \<open>Properties\<close>


definition demo_signatures :: json where
  "demo_signatures = JObj [(''account'', JStr ''work''), (''signatures'', JArr [JObj [(''id'', JStr ''s1''),
     (''name'', JStr '' Ann ''), (''body'', JStr ''Best''), (''html'', JStr ''<b>A'')]]), (''defaultSignatureId'', JStr ''s1'')]"

lemma demo_signatures_valid: "validateSaveMailSignatures (Some demo_signatures) =
  Inr \<lparr>ms_account = ''work'', ms_signatures = [\<lparr>mg_id = ''s1'', mg_name = ''Ann'', mg_body = ''Best'',
    mg_html = Some ''<b>A''\<rparr>], ms_default = Some ''s1''\<rparr>"
  by (simp add: validateSaveMailSignatures_def demo_signatures_def record_value_def text_value_def js_trim_def
      is_js_space_def read_signature_def account_name_def is_alnum_def is_word_def is_digit_def js_lower_char_def
      signature_body_def signature_html_def forbidden_at_def FORBIDDEN_TAGS_def starts_ci_def ends_word_def
      skip_spaces_def default_signature_def js_lower_def Let_def)


text \<open>
  Whatever is stored as the save order, the order used lists every storage that can be connected
  exactly once and never the virtual drive, begins with the stored entries it knows, in their order,
  and is stable when stored and read again.
\<close>

lemma fold_add_once_distinct: "distinct (xs @ ys) \<Longrightarrow> fold add_once ys xs = xs @ ys"
proof (induction ys arbitrary: xs)
  case (Cons y ys)
  then have "fold add_once (y # ys) xs = fold add_once ys (xs @ [y])" by (simp add: add_once_def)
  also have "\<dots> = (xs @ [y]) @ ys" using Cons.prems by (intro Cons.IH) simp
  finally show ?case by simp
qed simp

lemma fold_add_once_known: "set ys \<subseteq> set xs \<Longrightarrow> fold add_once ys xs = xs"
  by (induction ys) (auto simp: add_once_def)

lemma connectable: "map fst DRIVE_CONNECTABLE = [''local'', ''network'', ''google-drive'', ''dropbox'', ''onedrive'', ''s3'']"
  by code_simp

lemma known_entries_strings: "set xs \<subseteq> fst ` set DRIVE_CONNECTABLE \<Longrightarrow> known_entries (map JStr xs) = xs"
  by (induction xs) (auto simp: known_entries_def List.map_filter_simps)

theorem driveSaveOrder_total:
  "distinct (driveSaveOrder v) \<and> set (driveSaveOrder v) = set [''local'', ''network'', ''google-drive'', ''dropbox'', ''onedrive'', ''s3''] \<and>
   (\<exists>rest. driveSaveOrder (Some (JArr vs)) = fold add_once (known_entries vs) [] @ rest) \<and>
   driveSaveOrder (Some (JArr (map JStr (driveSaveOrder v)))) = driveSaveOrder v"
proof -
  let ?c = "map fst DRIVE_CONNECTABLE"
  have known: "set (known_entries vs) \<subseteq> set ?c" for vs
    by (auto simp: known_entries_def List.map_filter_def split: json.splits if_splits)
  have dist: "distinct ?c" by (simp add: connectable)
  have all: "distinct (driveSaveOrder v) \<and> set (driveSaveOrder v) = set ?c" for v
  proof (cases "\<exists>vs. v = Some (JArr vs)")
    case True
    then obtain vs where v: "v = Some (JArr vs)" by blast
    from fold_add_once [of ?c "fold add_once (known_entries vs) []"] fold_add_once [of "known_entries vs" "[]"] known [of vs]
    show ?thesis unfolding v driveSaveOrder_def by auto
  next
    case False
    with dist show ?thesis by (auto simp: driveSaveOrder_def split: option.splits json.splits)
  qed
  have again: "driveSaveOrder (Some (JArr (map JStr xs))) = xs" if "distinct xs" "set xs = set ?c" for xs
  proof -
    have "known_entries (map JStr xs) = xs" using that by (intro known_entries_strings) simp
    moreover have "fold add_once xs [] = xs" using fold_add_once_distinct [of "[]" xs] that by simp
    ultimately show ?thesis using fold_add_once_known [of ?c xs] that by (simp add: driveSaveOrder_def)
  qed
  have "\<exists>rest. driveSaveOrder (Some (JArr vs)) = fold add_once (known_entries vs) [] @ rest"
    using fold_add_once [of ?c "fold add_once (known_entries vs) []"] by (auto simp: driveSaveOrder_def)
  with all [of v] again [of "driveSaveOrder v"] connectable show ?thesis by metis
qed

end
