(* ===== verification/Pairing.thy ===== *)
theory Pairing
  imports Validation
begin

text \<open>
  Pairing a desktop with its host: the code and message checks of \<^verbatim>\<open>packages/protocol/src/relay.ts\<close>
  and the device types of \<open>device-pairing.ts\<close>.  The addresses, which are built with the platform's URL
  class, are not modelled.
\<close>

section \<open>Pairing codes\<close>

definition HOST_PAIRING_CODE_LENGTH :: nat where "HOST_PAIRING_CODE_LENGTH = 9"

definition HOST_PAIRING_CODE_ALPHABET :: string where
  "HOST_PAIRING_CODE_ALPHABET = ''0123456789ABCDEFGHJKMNPQRSTVWXYZ''"

definition HOST_PAIRING_CODE :: "string \<Rightarrow> bool" where
  "HOST_PAIRING_CODE s \<longleftrightarrow> length s = HOST_PAIRING_CODE_LENGTH \<and> list_all (\<lambda>c. c \<in> set HOST_PAIRING_CODE_ALPHABET) s"

text \<open>
  \<open>toUpperCase\<close> of one character; the sharp s becomes two letters.  The micro sign and the y with
  diaeresis, whose capitals are no characters of the model, are left: they are no code characters either way.
\<close>

definition upper_char :: "char \<Rightarrow> string" where
  "upper_char c =
     (let n = of_char c :: nat in
      if n = 223 then ''SS''
      else if (97 \<le> n \<and> n \<le> 122) \<or> (224 \<le> n \<and> n \<le> 254 \<and> n \<noteq> 247) then [char_of (n - 32)] else [c])"

definition js_upper :: "string \<Rightarrow> string" where
  "js_upper s = concat (map upper_char s)"

definition lookalike :: "char \<Rightarrow> char" where
  "lookalike c = (if c = CHR ''I'' \<or> c = CHR ''L'' then CHR ''1'' else if c = CHR ''O'' then CHR ''0'' else c)"

definition normalizeHostPairingCode :: "string \<Rightarrow> string" where
  "normalizeHostPairingCode v = map lookalike (js_upper (filter (\<lambda>c. \<not> (is_js_space c \<or> c = CHR ''-'')) v))"

definition isHostPairingCode :: "string \<Rightarrow> bool" where
  "isHostPairingCode v \<longleftrightarrow> HOST_PAIRING_CODE (normalizeHostPairingCode v)"

definition sanitizeHostPairingCodeInput :: "string \<Rightarrow> string" where
  "sanitizeHostPairingCodeInput v =
     take HOST_PAIRING_CODE_LENGTH (filter (\<lambda>c. c \<in> set HOST_PAIRING_CODE_ALPHABET) (normalizeHostPairingCode v))"

text \<open>
  The characters of one attempt, from the indices the generator draws; an index outside the alphabet is
  an error.  The draws are \<open>rand 0\<close>, \<open>rand 1\<close> and so on.
\<close>

fun draw_code :: "(nat \<Rightarrow> nat) \<Rightarrow> nat \<Rightarrow> nat \<Rightarrow> (string, string) result" where
  "draw_code rand k 0 = Inr []"
| "draw_code rand k (Suc n) =
     (if rand k \<ge> length HOST_PAIRING_CODE_ALPHABET then Inl ''Pairing code generator returned an invalid index''
      else bind_result (draw_code rand (Suc k) n) (\<lambda>s. Inr (HOST_PAIRING_CODE_ALPHABET ! rand k # s)))"

definition mixed_code :: "string \<Rightarrow> bool" where
  "mixed_code s \<longleftrightarrow> list_ex is_digit s \<and> list_ex (\<lambda>c. \<not> is_digit c) s"

fun try_codes :: "(nat \<Rightarrow> nat) \<Rightarrow> nat \<Rightarrow> nat \<Rightarrow> string \<Rightarrow> (string, string) result" where
  "try_codes rand k 0 code = Inr code"
| "try_codes rand k (Suc attempts) code =
     bind_result (draw_code rand k HOST_PAIRING_CODE_LENGTH) (\<lambda>s.
       if mixed_code s then Inr s else try_codes rand (k + HOST_PAIRING_CODE_LENGTH) attempts s)"

definition createHostPairingCode :: "(nat \<Rightarrow> nat) \<Rightarrow> (string, string) result" where
  "createHostPairingCode rand = try_codes rand 0 32 []"

section \<open>Relay messages\<close>

definition HOST_RELAY_PROTOCOL_VERSION :: rat where "HOST_RELAY_PROTOCOL_VERSION = 1"

definition shortId :: "json option \<Rightarrow> bool" where
  "shortId v \<longleftrightarrow> (case v of Some (JStr s) \<Rightarrow> 0 < length s \<and> length s \<le> 120 | _ \<Rightarrow> False)"

definition stringRecord :: "json option \<Rightarrow> bool" where
  "stringRecord v \<longleftrightarrow> (case v of
     Some (JObj kvs) \<Rightarrow> length kvs \<le> 24 \<and>
       list_all (\<lambda>(k, x). length k \<le> 120 \<and> (case x of JStr s \<Rightarrow> length s \<le> 8192 | _ \<Rightarrow> False)) kvs
   | _ \<Rightarrow> False)"

definition string_field :: "json \<Rightarrow> string \<Rightarrow> bool" where
  "string_field v k \<longleftrightarrow> (case prop_of v k of Some (JStr _) \<Rightarrow> True | _ \<Rightarrow> False)"

definition isHostRelayRequest :: "json \<Rightarrow> bool" where
  "isHostRelayRequest v \<longleftrightarrow> (case v of JObj _ \<Rightarrow> True | _ \<Rightarrow> False) \<and>
     prop_of v ''type'' = Some (JStr ''request'') \<and> prop_of v ''version'' = Some (JNum HOST_RELAY_PROTOCOL_VERSION) \<and>
     shortId (prop_of v ''id'') \<and>
     prop_of v ''method'' \<in> {Some (JStr ''GET''), Some (JStr ''POST''), Some (JStr ''OPTIONS'')} \<and>
     (case prop_of v ''path'' of
        Some (JStr p) \<Rightarrow> take 17 p = ''/polymux-host/v1/'' \<and> length p \<le> 2048 | _ \<Rightarrow> False) \<and>
     stringRecord (prop_of v ''headers'') \<and> string_field v ''bodyBase64''"

definition isHostRelayConnectConfig :: "json \<Rightarrow> bool" where
  "isHostRelayConnectConfig v \<longleftrightarrow> (case v of JObj _ \<Rightarrow> True | _ \<Rightarrow> False) \<and>
     prop_of v ''version'' = Some (JNum HOST_RELAY_PROTOCOL_VERSION) \<and>
     (case prop_of v ''webSocketOrigin'' of Some (JStr s) \<Rightarrow> 0 < length s \<and> length s \<le> 2048 | _ \<Rightarrow> False)"

definition isHostRelayResponse :: "json \<Rightarrow> bool" where
  "isHostRelayResponse v \<longleftrightarrow> (case v of JObj _ \<Rightarrow> True | _ \<Rightarrow> False) \<and>
     prop_of v ''type'' = Some (JStr ''response'') \<and> prop_of v ''version'' = Some (JNum HOST_RELAY_PROTOCOL_VERSION) \<and>
     shortId (prop_of v ''id'') \<and>
     (case prop_of v ''status'' of Some (JNum r) \<Rightarrow> r = of_int \<lfloor>r\<rfloor> \<and> 100 \<le> r \<and> r \<le> 599 | _ \<Rightarrow> False) \<and>
     stringRecord (prop_of v ''headers'') \<and> string_field v ''bodyBase64''"

definition deviceType :: "json option \<Rightarrow> string option" where
  "deviceType v = (case v of
     Some (JStr s) \<Rightarrow> if s \<in> set [''tablet'', ''phone'', ''pc'', ''laptop'', ''server''] then Some s else None
   | _ \<Rightarrow> None)"

section \<open>Lemmas\<close>

text \<open>The characters of the alphabet are their own normal form.\<close>

lemma alphabet_normal:
  "c \<in> set HOST_PAIRING_CODE_ALPHABET \<Longrightarrow>
    \<not> is_js_space c \<and> c \<noteq> CHR ''-'' \<and> upper_char c = [c] \<and> lookalike c = c"
proof -
  have "list_all (\<lambda>c. \<not> is_js_space c \<and> c \<noteq> CHR ''-'' \<and> upper_char c = [c] \<and> lookalike c = c) HOST_PAIRING_CODE_ALPHABET"
    by code_simp
  then show "c \<in> set HOST_PAIRING_CODE_ALPHABET \<Longrightarrow>
    \<not> is_js_space c \<and> c \<noteq> CHR ''-'' \<and> upper_char c = [c] \<and> lookalike c = c"
    by (simp add: list_all_iff)
qed

lemma normalize_fixed:
  "list_all (\<lambda>c. c \<in> set HOST_PAIRING_CODE_ALPHABET) s \<Longrightarrow> normalizeHostPairingCode s = s"
  by (induction s) (simp_all add: normalizeHostPairingCode_def js_upper_def alphabet_normal)

lemma draw_code_alphabet:
  "draw_code rand k n = Inr s \<Longrightarrow> length s = n \<and> list_all (\<lambda>c. c \<in> set HOST_PAIRING_CODE_ALPHABET) s"
  by (induction rand k n arbitrary: s rule: draw_code.induct) (auto simp: bind_result_eq_Inr split: if_splits)

lemma draw_code_in_range:
  assumes "\<And>k. rand k < length HOST_PAIRING_CODE_ALPHABET"
  shows "\<exists>s. draw_code rand k n = Inr s"
proof (induction n arbitrary: k)
  case (Suc n)
  from Suc.IH [of "Suc k"] assms [of k] show ?case by auto
qed simp

lemma try_codes_ok:
  assumes "\<And>k. rand k < length HOST_PAIRING_CODE_ALPHABET"
  shows "\<exists>s. try_codes rand k n code = Inr s \<and> (n > 0 \<or> HOST_PAIRING_CODE code \<longrightarrow> HOST_PAIRING_CODE s) \<and>
    ((\<exists>i<n. \<exists>t. draw_code rand (k + i * HOST_PAIRING_CODE_LENGTH) HOST_PAIRING_CODE_LENGTH = Inr t \<and> mixed_code t) \<longrightarrow> mixed_code s)"
proof (induction n arbitrary: k code)
  case (Suc n)
  obtain t where t: "draw_code rand k HOST_PAIRING_CODE_LENGTH = Inr t" using draw_code_in_range [of rand, OF assms] by blast
  then have ok: "HOST_PAIRING_CODE t" using draw_code_alphabet by (auto simp: HOST_PAIRING_CODE_def)
  show ?case
  proof (cases "mixed_code t")
    case True
    with t ok show ?thesis by simp
  next
    case False
    obtain s where s: "try_codes rand (k + HOST_PAIRING_CODE_LENGTH) n t = Inr s" "HOST_PAIRING_CODE s"
      and mix: "(\<exists>i<n. \<exists>t. draw_code rand (k + HOST_PAIRING_CODE_LENGTH + i * HOST_PAIRING_CODE_LENGTH) HOST_PAIRING_CODE_LENGTH = Inr t \<and>
        mixed_code t) \<longrightarrow> mixed_code s"
      using Suc.IH [of "k + HOST_PAIRING_CODE_LENGTH" t] ok by auto
    have "mixed_code s" if i: "i < Suc n" "draw_code rand (k + i * HOST_PAIRING_CODE_LENGTH) HOST_PAIRING_CODE_LENGTH = Inr t'" "mixed_code t'" for i t'
    proof (cases i)
      case 0
      with i t False show ?thesis by simp
    next
      case (Suc j)
      with i mix show ?thesis by (auto simp: algebra_simps)
    qed
    with t False s show ?thesis by auto
  qed
qed simp

section \<open>Properties\<close>

text \<open>
  With a generator that draws indices of the alphabet a pairing code is always made; it is a valid
  code that reads as itself, and typed in with any white space and dashes put in; and it has a letter
  and a digit as soon as one of the 32 attempts drew both.
\<close>

definition spaced :: "string \<Rightarrow> string \<Rightarrow> bool" where
  "spaced s t \<longleftrightarrow> filter (\<lambda>c. \<not> (is_js_space c \<or> c = CHR ''-'')) t = s"

theorem pairing_code_valid:
  assumes "\<And>k. rand k < length HOST_PAIRING_CODE_ALPHABET"
  shows "\<exists>code. createHostPairingCode rand = Inr code \<and> HOST_PAIRING_CODE code \<and>
    (\<forall>typed. spaced code typed \<longrightarrow> normalizeHostPairingCode typed = code \<and> isHostPairingCode typed \<and>
      sanitizeHostPairingCodeInput typed = code) \<and>
    ((\<exists>i<32. \<exists>t. draw_code rand (i * 9) 9 = Inr t \<and> mixed_code t) \<longrightarrow> mixed_code code)"
proof -
  from try_codes_ok [where rand = rand and k = 0 and n = 32 and code = "[]", OF assms] obtain code where code: "createHostPairingCode rand = Inr code"
    "HOST_PAIRING_CODE code" and mixed: "(\<exists>i<32. \<exists>t. draw_code rand (i * 9) 9 = Inr t \<and> mixed_code t) \<longrightarrow> mixed_code code"
    by (auto simp: createHostPairingCode_def HOST_PAIRING_CODE_LENGTH_def)
  then have alpha: "list_all (\<lambda>c. c \<in> set HOST_PAIRING_CODE_ALPHABET) code" "length code = HOST_PAIRING_CODE_LENGTH"
    by (simp_all add: HOST_PAIRING_CODE_def)
  have fixed: "normalizeHostPairingCode code = code" by (rule normalize_fixed [OF alpha(1)])
  have "normalizeHostPairingCode typed = normalizeHostPairingCode code" if "spaced code typed" for typed
    using that by (auto simp: spaced_def normalizeHostPairingCode_def)
  moreover have "filter (\<lambda>c. c \<in> set HOST_PAIRING_CODE_ALPHABET) code = code"
    using alpha(1) by (simp add: list_all_iff)
  ultimately show ?thesis
    using code mixed fixed alpha(2) by (auto simp: isHostPairingCode_def sanitizeHostPairingCodeInput_def)
qed

theorem pairing_code_valid_witness:
  "\<exists>code. createHostPairingCode (\<lambda>k. k mod 32) = Inr code \<and> HOST_PAIRING_CODE code"
proof -
  have "\<And>k. k mod 32 < length HOST_PAIRING_CODE_ALPHABET" by (simp add: HOST_PAIRING_CODE_ALPHABET_def)
  from pairing_code_valid [of "\<lambda>k. k mod 32", OF this] show ?thesis by blast
qed

end
