(* ===== verification/Goals.thy ===== *)
theory Goals
  imports AgentTypes "HOL-Library.List_Lexorder" "HOL-Library.Char_ord"
begin

text \<open>
  Standing goals: the goal rows of \<^verbatim>\<open>packages/storage/src/sqlite/sqlite-storage.ts\<close>, and
  \<^verbatim>\<open>manager.ts\<close>, \<open>judge.ts\<close>, \<open>loop.ts\<close> and \<open>progress-receipts.ts\<close> of \<^verbatim>\<open>packages/agent/src/goals\<close>.

  The table has one row for each conversation, so it is a map.  The judge's model is a parameter, the
  events its stream yields and the exception that may end it; \<open>JSON.parse\<close> is \<open>parse_json\<close>, \<open>None\<close> where
  it throws.  \<open>afterRun\<close> is split at the \<open>await\<close> of the judge, since the goal can change meanwhile.
  The horizontal ellipsis and the long dash have no code unit below 256; the model writes \<open>ELLIPSIS\<close>
  and \<open>DASH\<close> for them.  Receipts are kept as they are recorded: the check that drops a malformed entry of
  the stored preference (\<open>isReceipt\<close>) has nothing to drop there.
\<close>

section \<open>The stored goal\<close>

datatype goal_status = GActive | GPaused | GCompleted | GBlocked

record goal =
  go_id :: string
  go_conversationId :: string
  go_objective :: string
  go_status :: goal_status
  go_createdAt :: string
  go_updatedAt :: string
  go_completedAt :: "string option"

type_synonym goals = "string \<rightharpoonup> goal"

definition getGoal :: "string \<Rightarrow> goals \<Rightarrow> goal option" where "getGoal c gs = gs c"

definition createGoal :: "string \<Rightarrow> string \<Rightarrow> string \<Rightarrow> string \<Rightarrow> goals \<Rightarrow> (string, goal) result \<times> goals" where
  "createGoal now i c objective gs =
     (let text = js_trim objective in
      if text = [] then (Inl ''Goal objective cannot be empty'', gs)
      else if (case getGoal c gs of Some g \<Rightarrow> go_status g \<noteq> GCompleted | None \<Rightarrow> False)
      then (Inl ''Conversation already has an unfinished goal'', gs)
      else
        let g = \<lparr>go_id = i, go_conversationId = c, go_objective = text, go_status = GActive,
              go_createdAt = now, go_updatedAt = now, go_completedAt = None\<rparr> in
        (Inr g, gs(c \<mapsto> g)))"

definition updateGoal :: "string \<Rightarrow> string \<Rightarrow> string option \<Rightarrow> goal_status option \<Rightarrow> goals
    \<Rightarrow> (string, goal option) result \<times> goals" where
  "updateGoal now c objective st gs =
     (case getGoal c gs of
        None \<Rightarrow> (Inr None, gs)
      | Some g \<Rightarrow>
          let text = (case objective of Some t \<Rightarrow> js_trim t | None \<Rightarrow> go_objective g);
              st' = (case st of Some x \<Rightarrow> x | None \<Rightarrow> go_status g) in
          if text = [] then (Inl ''Goal objective cannot be empty'', gs)
          else
            let g' = g\<lparr>go_objective := text, go_status := st', go_updatedAt := now,
                  go_completedAt := (if st' = GCompleted
                    then Some (case go_completedAt g of Some t \<Rightarrow> t | None \<Rightarrow> now) else None)\<rparr> in
            (Inr (Some g'), gs(c \<mapsto> g')))"

definition clearGoal :: "string \<Rightarrow> goals \<Rightarrow> bool \<times> goals" where
  "clearGoal c gs = (gs c \<noteq> None, gs(c := None))"

section \<open>The manager\<close>

datatype goal_action = GView | GClear | GPause | GResume | GCreate string

definition NO_GOAL :: string where "NO_GOAL = ''No goal exists for this conversation''"

definition execute_goal :: "string \<Rightarrow> string \<Rightarrow> string \<Rightarrow> goal_action \<Rightarrow> goals \<Rightarrow> (string, goal option) result \<times> goals" where
  "execute_goal now fresh c command gs =
     (case command of
        GView \<Rightarrow> (Inr (getGoal c gs), gs)
      | GClear \<Rightarrow> (Inr None, snd (clearGoal c gs))
      | GCreate objective \<Rightarrow> (case createGoal now fresh c objective gs of
          (Inl e, gs') \<Rightarrow> (Inl e, gs') | (Inr g, gs') \<Rightarrow> (Inr (Some g), gs'))
      | _ \<Rightarrow>
          if getGoal c gs = None then (Inl NO_GOAL, gs)
          else updateGoal now c None (Some (if command = GPause then GPaused else GActive)) gs)"

definition set_goal_status :: "string \<Rightarrow> string \<Rightarrow> goal_status \<Rightarrow> goals \<Rightarrow> (string, goal option) result \<times> goals" where
  "set_goal_status now c st gs = updateGoal now c None (Some st) gs"

text \<open>The agent's \<open>update_goal\<close> tool; the argument is the \<open>status\<close> it passes.\<close>

definition update_goal_tool :: "string \<Rightarrow> string \<Rightarrow> json option \<Rightarrow> goals \<Rightarrow> (string, goal) result \<times> goals" where
  "update_goal_tool now c st gs =
     (if st \<noteq> Some (JStr ''active'') \<and> st \<noteq> Some (JStr ''paused'') then (Inl ''Invalid goal status'', gs)
      else case updateGoal now c None (Some (if st = Some (JStr ''active'') then GActive else GPaused)) gs of
        (Inl e, gs') \<Rightarrow> (Inl e, gs')
      | (Inr None, gs') \<Rightarrow> (Inl NO_GOAL, gs')
      | (Inr (Some g), gs') \<Rightarrow> (Inr g, gs'))"

section \<open>The judge\<close>

datatype verdict = Done | Continue | Wait

record judgement =
  jd_verdict :: verdict
  jd_reason :: string

definition wait_because :: "string \<Rightarrow> judgement" where
  "wait_because r = \<lparr>jd_verdict = Wait, jd_reason = r\<rparr>"

definition last_index_of :: "char \<Rightarrow> string \<Rightarrow> nat option" where
  "last_index_of c s = (if c \<in> set s then Some (length s - 1 - length (takeWhile (\<lambda>x. x \<noteq> c) (rev s))) else None)"

definition extractJson :: "string \<Rightarrow> string option" where
  "extractJson answer = (case (js_index_of ''{'' answer 0, last_index_of (CHR ''}'') answer) of
     (Some start, Some stop) \<Rightarrow> if stop \<le> start then None else Some (drop start (take (Suc stop) answer))
   | _ \<Rightarrow> None)"

fun json_prop :: "json \<Rightarrow> string \<Rightarrow> json option" where
  "json_prop (JObj kvs) k = map_of kvs k"
| "json_prop _ k = None"

definition verdict_of :: "json option \<Rightarrow> verdict option" where
  "verdict_of v = (if v = Some (JStr ''done'') then Some Done else if v = Some (JStr ''continue'') then Some Continue
     else if v = Some (JStr ''wait'') then Some Wait else None)"

text \<open>\<open>shown\<close> is JavaScript's \<open>String(value)\<close>; \<open>null\<close>, \<open>false\<close>, \<open>0\<close> and the empty string are falsy.\<close>

definition parseJudgement :: "(string \<Rightarrow> json option) \<Rightarrow> (json option \<Rightarrow> string) \<Rightarrow> string \<Rightarrow> judgement" where
  "parseJudgement parse_json shown answer =
     (case extractJson answer of
        None \<Rightarrow> wait_because ''Goal judge returned no verdict.''
      | Some j \<Rightarrow>
          (case parse_json j of
             Some r \<Rightarrow>
               if (case r of JObj _ \<Rightarrow> False | JArr _ \<Rightarrow> False | _ \<Rightarrow> True)
               then wait_because ''Goal judge returned malformed JSON.''
               else (case verdict_of (json_prop r ''verdict'') of
                  None \<Rightarrow> wait_because (''Goal judge returned an unknown verdict: '' @ shown (json_prop r ''verdict''))
                | Some v \<Rightarrow> \<lparr>jd_verdict = v, jd_reason = (case json_prop r ''reason'' of
                    Some (JStr t) \<Rightarrow> str_or (js_trim t) ''No reason given.'' | _ \<Rightarrow> ''No reason given.'')\<rparr>)
           | None \<Rightarrow> wait_because ''Goal judge returned malformed JSON.''))"

definition RESPONSE_LIMIT :: nat where "RESPONSE_LIMIT = 4096"

text \<open>The user message the judge sends.\<close>

definition judge_question :: "string \<Rightarrow> string \<Rightarrow> string" where
  "judge_question objective response =
     ''Goal: '' @ objective @ [CHR 0x0A, CHR 0x0A] @ ''Agent'' @ [CHR 0x27] @ ''s most recent response:'' @ [CHR 0x0A] @
     take RESPONSE_LIMIT response"

text \<open>Reading the stream: its events, then the exception that ends it if one does.\<close>

fun judge_stream :: "(string \<Rightarrow> json option) \<Rightarrow> (json option \<Rightarrow> string) \<Rightarrow> inference_event list \<Rightarrow> string option \<Rightarrow> string \<Rightarrow> judgement" where
  "judge_stream parse_json shown [] raised answer = (case raised of
     Some e \<Rightarrow> wait_because (''Goal judge failed: '' @ e) | None \<Rightarrow> parseJudgement parse_json shown answer)"
| "judge_stream parse_json shown (EvDone r m # evs) raised answer = judge_stream parse_json shown evs raised (text_of m)"
| "judge_stream parse_json shown (EvError e # evs) raised answer = wait_because (''Goal judge failed: '' @ ie_message e)"
| "judge_stream parse_json shown (ev # evs) raised answer = judge_stream parse_json shown evs raised answer"

definition judge :: "(string \<Rightarrow> json option) \<Rightarrow> (json option \<Rightarrow> string) \<Rightarrow> (string \<Rightarrow> inference_event list \<times> string option)
    \<Rightarrow> string \<Rightarrow> string \<Rightarrow> judgement" where
  "judge parse_json shown model objective lastAgentMessage =
     (let response = js_trim lastAgentMessage in
      if response = [] then wait_because ''The agent ended its turn without a closing message.''
      else case model (judge_question objective response) of (evs, raised) \<Rightarrow> judge_stream parse_json shown evs raised [])"

section \<open>The loop\<close>

definition DASH :: string where "DASH = [CHR 0x97]"

record loop_settings =
  ls_enabled :: bool
  ls_maxTurns :: nat

definition defaultGoalLoopSettings :: loop_settings where
  "defaultGoalLoopSettings = \<lparr>ls_enabled = True, ls_maxTurns = 20\<rparr>"

datatype loop_action = LContinue string | LCompleted | LPaused | LInactive  \<comment> \<open>a continuation carries its prompt\<close>

record loop_decision =
  ld_action :: loop_action
  ld_reason :: "string option"
  ld_turnsUsed :: nat

record loop_state =
  lp_goals :: goals
  lp_spent :: "string \<rightharpoonup> nat"

definition turnsUsed :: "string \<Rightarrow> loop_state \<Rightarrow> nat" where
  "turnsUsed c s = (case lp_spent s c of Some n \<Rightarrow> n | None \<Rightarrow> 0)"

definition resetBudget :: "string \<Rightarrow> loop_state \<Rightarrow> loop_state" where
  "resetBudget c s = s\<lparr>lp_spent := (lp_spent s)(c := None)\<rparr>"

definition isDriveable :: "goal option \<Rightarrow> bool" where
  "isDriveable g \<longleftrightarrow> (case g of Some x \<Rightarrow> go_status x = GActive | None \<Rightarrow> False)"

definition continuationPrompt :: "string \<Rightarrow> string \<Rightarrow> string" where
  "continuationPrompt objective reason = js_join [CHR 0x0A, CHR 0x0A]
     [''Continue working toward the standing goal: '' @ objective,
      ''The goal is not yet satisfied: '' @ reason,
      ''Take the next concrete step yourself rather than reporting a plan. If the goal is genuinely finished, say so explicitly and state what verifies it. If you are at a real impasse, say what is blocking you.'']"

definition pause_goal :: "string \<Rightarrow> string \<Rightarrow> loop_state \<Rightarrow> (string, unit) result \<times> loop_state" where
  "pause_goal now c s = (case execute_goal now [] c GPause (lp_goals s) of
     (Inl e, gs) \<Rightarrow> (Inl e, s\<lparr>lp_goals := gs\<rparr>) | (Inr _, gs) \<Rightarrow> (Inr (), s\<lparr>lp_goals := gs\<rparr>))"

text \<open>
  \<open>afterRun\<close> up to the judge: a decision (\<open>Inl\<close>), or the turns used and the objective to judge
  (\<open>Inr\<close>).  Pausing cannot fail here, the goal has just been read.
\<close>

definition afterRun_begin :: "loop_settings \<Rightarrow> string \<Rightarrow> string \<Rightarrow> loop_state \<Rightarrow> (loop_decision, nat \<times> string) result \<times> loop_state" where
  "afterRun_begin st now c s =
     (let used = turnsUsed c s; g = getGoal c (lp_goals s) in
      if \<not> ls_enabled st \<or> \<not> isDriveable g
      then (Inl \<lparr>ld_action = LInactive, ld_reason = None, ld_turnsUsed = used\<rparr>, s)
      else if used \<ge> ls_maxTurns st
      then (Inl \<lparr>ld_action = LPaused, ld_reason = Some (''Goal paused '' @ DASH @ '' '' @ show_nat used @ ''/'' @ show_nat (ls_maxTurns st) @ '' turns used.''),
              ld_turnsUsed = used\<rparr>, snd (pause_goal now c s))
      else (Inr (used, go_objective (the g)), s))"

text \<open>
  The rest, on the state the judgement finds.  The error is the exception \<open>execute\<close> throws when the goal
  has been cleared meanwhile.
\<close>

definition afterRun_end :: "string \<Rightarrow> string \<Rightarrow> nat \<Rightarrow> string \<Rightarrow> judgement \<Rightarrow> loop_state \<Rightarrow> (string, loop_decision) result \<times> loop_state" where
  "afterRun_end now c used objective j s =
     (case jd_verdict j of
        Done \<Rightarrow>
          (Inr \<lparr>ld_action = LCompleted, ld_reason = Some (jd_reason j), ld_turnsUsed = used\<rparr>,
           resetBudget c (s\<lparr>lp_goals := snd (set_goal_status now c GCompleted (lp_goals s))\<rparr>))
      | Wait \<Rightarrow>
          (case pause_goal now c s of
             (Inl e, s') \<Rightarrow> (Inl e, s')
           | (Inr _, s') \<Rightarrow> (Inr \<lparr>ld_action = LPaused, ld_reason = Some (jd_reason j), ld_turnsUsed = used\<rparr>, s'))
      | Continue \<Rightarrow>
          (Inr \<lparr>ld_action = LContinue (continuationPrompt objective (jd_reason j)), ld_reason = Some (jd_reason j),
             ld_turnsUsed = Suc used\<rparr>,
           s\<lparr>lp_spent := (lp_spent s)(c \<mapsto> Suc used)\<rparr>))"

definition afterRun :: "loop_settings \<Rightarrow> string \<Rightarrow> string \<Rightarrow> judgement \<Rightarrow> loop_state \<Rightarrow> (string, loop_decision) result \<times> loop_state" where
  "afterRun st now c j s = (case afterRun_begin st now c s of
     (Inl d, s') \<Rightarrow> (Inr d, s')
   | (Inr (used, objective), s') \<Rightarrow> afterRun_end now c used objective j s')"

section \<open>Progress receipts\<close>

record receipt =
  rc_id :: string
  rc_goalId :: string
  rc_description :: string
  rc_result :: string
  rc_evidence :: "string list"
  rc_completedAt :: string

definition MAX_RECEIPTS :: nat where "MAX_RECEIPTS = 8"
definition MAX_RESULT :: nat where "MAX_RESULT = 900"
definition MAX_EVIDENCE :: nat where "MAX_EVIDENCE = 10"

definition SAFE_FIELDS :: "string list" where
  "SAFE_FIELDS = [''account'', ''before'', ''chat'', ''date'', ''domain'', ''folder'', ''from'', ''location'', ''path'',
     ''platform'', ''query'', ''room'', ''source'', ''to'', ''url'']"

definition ELLIPSIS :: string where "ELLIPSIS = [CHR 0x85]"

definition trim_end :: "string \<Rightarrow> string" where
  "trim_end s = rev (dropWhile is_js_space (rev s))"

definition compact :: "string \<Rightarrow> nat \<Rightarrow> string" where
  "compact v limit = (let text = js_trim (squeeze v) in
     if length text \<le> limit then text else trim_end (take (limit - 1) text) @ ELLIPSIS)"

definition internalTool :: "string \<Rightarrow> bool" where
  "internalTool name \<longleftrightarrow> name \<in> set [''subagent'', ''check_subagents'', ''cancel_subagents'', ''get_goal'', ''update_goal''] \<or>
     (take 5 name = ''wait_'' \<and> CHR 0x0A \<notin> set name \<and> CHR 0x0D \<notin> set name)"

text \<open>\<open>quoted\<close> is \<open>JSON.stringify\<close> of a string, \<open>shown\<close> is \<open>String(value)\<close>.\<close>

definition scope_field :: "(string \<Rightarrow> string) \<Rightarrow> (json option \<Rightarrow> string) \<Rightarrow> string \<times> json \<Rightarrow> string option" where
  "scope_field quoted shown kv = (case kv of (k, v) \<Rightarrow>
     if js_lower k \<notin> set SAFE_FIELDS then None
     else (case v of
        JStr t \<Rightarrow> if js_trim t = [] then None else Some (k @ ''='' @ quoted (compact t 120))
      | JNum _ \<Rightarrow> Some (k @ ''='' @ shown (Some v))
      | JBool _ \<Rightarrow> Some (k @ ''='' @ shown (Some v))
      | _ \<Rightarrow> None))"

definition safeScope :: "(string \<Rightarrow> string) \<Rightarrow> (json option \<Rightarrow> string) \<Rightarrow> json \<Rightarrow> string" where
  "safeScope quoted shown input = (case input of
     JObj kvs \<Rightarrow> js_join '', '' (take 4 (List.map_filter (scope_field quoted shown)
       (List.map_filter (\<lambda>k. map_option (Pair k) (map_of kvs k)) (sort (map fst kvs)))))
   | _ \<Rightarrow> [])"

definition call_label :: "(string \<Rightarrow> string) \<Rightarrow> (json option \<Rightarrow> string) \<Rightarrow> tool_call \<Rightarrow> string" where
  "call_label quoted shown c = (let scope = safeScope quoted shown (tc_arguments c) in
     if scope = [] then tc_name c else tc_name c @ ''('' @ scope @ '')'')"

definition evidence_labels :: "(string \<Rightarrow> string) \<Rightarrow> (json option \<Rightarrow> string) \<Rightarrow> inference_message list \<Rightarrow> string list" where
  "evidence_labels quoted shown ms = concat (map (\<lambda>m. case m of
     AssistantMsg a \<Rightarrow> map (call_label quoted shown) (filter (\<lambda>c. \<not> internalTool (tc_name c)) (tool_calls_of a)) | _ \<Rightarrow> []) ms)"

text \<open>The labels with their counts, sorted by the host's collation \<open>collate\<close> (a sort key).\<close>

definition evidenceCalls :: "(string \<Rightarrow> nat) \<Rightarrow> (string \<Rightarrow> string) \<Rightarrow> (json option \<Rightarrow> string) \<Rightarrow> inference_message list \<Rightarrow> string list" where
  "evidenceCalls collate quoted shown ms =
     (let ls = evidence_labels quoted shown ms in
      map (\<lambda>l. let n = length (filter (\<lambda>x. x = l) ls) in if n > 1 then l @ '' x'' @ show_nat n else l)
        (sort_key collate (rev (remdups (rev ls)))))"

definition receipt_identity :: "receipt \<Rightarrow> string \<times> string list" where
  "receipt_identity r = (js_lower (rc_description r), sort (rc_evidence r))"

definition last_n :: "nat \<Rightarrow> 'a list \<Rightarrow> 'a list" where "last_n n xs = drop (length xs - n) xs"

definition recordGoalProgress :: "(string \<Rightarrow> nat) \<Rightarrow> (string \<Rightarrow> string) \<Rightarrow> (json option \<Rightarrow> string) \<Rightarrow> string \<Rightarrow> string \<Rightarrow> string \<Rightarrow> string
    \<Rightarrow> string \<Rightarrow> inference_message list \<Rightarrow> (string \<Rightarrow> receipt list) \<Rightarrow> receipt \<times> (string \<Rightarrow> receipt list)" where
  "recordGoalProgress collate quoted shown now fresh goalId description res ms store =
     (let r = \<lparr>rc_id = fresh, rc_goalId = goalId, rc_description = compact description 160, rc_result = compact res MAX_RESULT,
            rc_evidence = take MAX_EVIDENCE (evidenceCalls collate quoted shown ms), rc_completedAt = now\<rparr>;
          previous = last_n MAX_RECEIPTS (store goalId) in
      (r, store(goalId := last_n MAX_RECEIPTS (filter (\<lambda>x. receipt_identity x \<noteq> receipt_identity r) previous @ [r]))))"

definition readGoalProgress :: "string \<Rightarrow> (string \<Rightarrow> receipt list) \<Rightarrow> receipt list" where
  "readGoalProgress goalId store = last_n MAX_RECEIPTS (store goalId)"

definition receipt_row :: "receipt \<Rightarrow> string" where
  "receipt_row r = ''- '' @ rc_description r @ '' ('' @ rc_completedAt r @ ''): '' @ rc_result r @
     (if rc_evidence r = [] then [] else [CHR 0x0A] @ ''  Evidence already read: '' @ js_join ''; '' (rc_evidence r))"

definition goalProgressPrompt :: "receipt list \<Rightarrow> string" where
  "goalProgressPrompt rs = (if rs = [] then [] else js_join [CHR 0x0A]
     ([''<goal_progress>'',
       ''These are receipts from completed delegated work on this durable goal. Use them to identify the unresolved delta. Do not repeat the same source and scope merely to reconfirm it; revisit only when freshness matters, the prior result was incomplete, or a distinct action/source can advance the goal. Receipts are context, not authorization for an external action.''] @
      map receipt_row rs @ [''</goal_progress>'']))"

section \<open>The budget\<close>

text \<open>A conversation left to the loop: a run after each continuation, judged as given.\<close>

fun goal_rounds :: "loop_settings \<Rightarrow> string \<Rightarrow> string \<Rightarrow> judgement list \<Rightarrow> loop_state
    \<Rightarrow> (string, loop_decision) result list \<times> loop_state" where
  "goal_rounds st now c [] s = ([], s)"
| "goal_rounds st now c (j # js) s =
     (case afterRun st now c j s of (d, s') \<Rightarrow> (case goal_rounds st now c js s' of (ds, s'') \<Rightarrow> (d # ds, s'')))"

definition continues :: "(string, loop_decision) result \<Rightarrow> bool" where
  "continues r = (case r of Inr d \<Rightarrow> (case ld_action d of LContinue _ \<Rightarrow> True | _ \<Rightarrow> False) | Inl _ \<Rightarrow> False)"

definition goals_ok :: "goals \<Rightarrow> bool" where
  "goals_ok gs \<longleftrightarrow> (\<forall>c g. gs c = Some g \<longrightarrow> go_objective g \<noteq> [])"

lemma updateGoal_ok: "goals_ok gs \<Longrightarrow> goals_ok (snd (updateGoal now c t st gs))"
  by (auto simp: goals_ok_def updateGoal_def getGoal_def Let_def split: option.splits)

lemma createGoal_ok: "goals_ok gs \<Longrightarrow> goals_ok (snd (createGoal now i c t gs))"
  by (auto simp: goals_ok_def createGoal_def Let_def)

text \<open>One round: the goal stays driveable only if the run continues, and that costs a turn.\<close>

lemma afterRun_round:
  assumes "goals_ok (lp_goals s)" and "afterRun st now c j s = (d, s')"
  shows "goals_ok (lp_goals s')"
    and "continues d \<Longrightarrow> turnsUsed c s' = Suc (turnsUsed c s) \<and> turnsUsed c s < ls_maxTurns st"
    and "\<not> continues d \<Longrightarrow> ls_enabled st \<Longrightarrow> \<not> isDriveable (getGoal c (lp_goals s'))"
proof -
  have driveable: "\<exists>g. lp_goals s c = Some g \<and> go_objective g \<noteq> []" if "isDriveable (getGoal c (lp_goals s))"
    using that assms(1) by (auto simp: isDriveable_def getGoal_def goals_ok_def split: option.splits)
  show "goals_ok (lp_goals s')"
    using assms
    by (auto simp: afterRun_def afterRun_begin_def afterRun_end_def pause_goal_def execute_goal_def set_goal_status_def resetBudget_def
        updateGoal_def getGoal_def goals_ok_def Let_def split: if_splits option.splits verdict.splits)
  show "continues d \<Longrightarrow> turnsUsed c s' = Suc (turnsUsed c s) \<and> turnsUsed c s < ls_maxTurns st"
    using assms(2)
    by (auto simp: afterRun_def afterRun_begin_def afterRun_end_def continues_def turnsUsed_def Let_def
        split: if_splits verdict.splits prod.splits sum.splits)
  show "\<not> continues d \<Longrightarrow> ls_enabled st \<Longrightarrow> \<not> isDriveable (getGoal c (lp_goals s'))"
    using assms(2) driveable
    by (auto simp: afterRun_def afterRun_begin_def afterRun_end_def pause_goal_def execute_goal_def set_goal_status_def
        updateGoal_def resetBudget_def continues_def getGoal_def isDriveable_def Let_def
        split: if_splits verdict.splits option.splits)
qed

lemma afterRun_inactive:
  assumes "\<not> isDriveable (getGoal c (lp_goals s))"
  shows "afterRun st now c j s = (Inr \<lparr>ld_action = LInactive, ld_reason = None, ld_turnsUsed = turnsUsed c s\<rparr>, s)"
  using assms by (simp add: afterRun_def afterRun_begin_def Let_def)

lemma rounds_inactive:
  assumes "\<not> isDriveable (getGoal c (lp_goals s))"
  shows "snd (goal_rounds st now c js s) = s \<and> filter continues (fst (goal_rounds st now c js s)) = []"
  using assms by (induction js) (auto simp: afterRun_inactive continues_def split: prod.splits)

lemma rounds_bounded:
  assumes "goals_ok (lp_goals s)" and "goal_rounds st now c js s = (ds, s')" and "ls_enabled st"
  shows "length (filter continues ds) \<le> ls_maxTurns st - turnsUsed c s \<and>
    (ls_maxTurns st - turnsUsed c s < length js \<longrightarrow> \<not> isDriveable (getGoal c (lp_goals s')))"
  using assms
proof (induction js arbitrary: s ds)
  case (Cons j js)
  obtain d s1 where d: "afterRun st now c j s = (d, s1)" by (cases "afterRun st now c j s")
  with Cons.prems(2) obtain ds1 where rest: "goal_rounds st now c js s1 = (ds1, s')" and ds: "ds = d # ds1"
    by (auto split: prod.splits)
  note round = afterRun_round [OF Cons.prems(1) d]
  show ?case
  proof (cases "continues d")
    case True
    with Cons.IH [OF round(1) rest Cons.prems(3)] round(2) ds show ?thesis by (auto simp: Suc_diff_Suc)
  next
    case False
    from rounds_inactive [OF round(3) [OF False Cons.prems(3)], of st now js] rest False ds round(3) [OF False Cons.prems(3)]
    show ?thesis by auto
  qed
qed simp

section \<open>Properties\<close>

text \<open>
  C36: left to itself the goal loop continues at most as often as its budget has turns left, whatever
  the judge says, and after more judged runs than that the goal is not active any more.
\<close>

theorem goal_loop_bounded:
  assumes "goals_ok (lp_goals s)" and "ls_enabled st" and "goal_rounds st now c js s = (ds, s')"
  shows "length (filter continues ds) \<le> ls_maxTurns st - turnsUsed c s \<and>
    (ls_maxTurns st - turnsUsed c s < length js \<longrightarrow> \<not> isDriveable (getGoal c (lp_goals s')))"
  by (rule rounds_bounded [OF assms(1,3,2)])

definition demo_goals :: loop_state where
  "demo_goals = \<lparr>lp_goals = snd (createGoal ''t'' ''g'' ''c'' '' Ship it '' Map.empty), lp_spent = Map.empty\<rparr>"

definition keep_going :: judgement where "keep_going = \<lparr>jd_verdict = Continue, jd_reason = ''Not yet.''\<rparr>"

theorem goal_loop_bounded_witness:
  "\<not> isDriveable (getGoal ''c'' (lp_goals (snd (goal_rounds defaultGoalLoopSettings ''t'' ''c'' (replicate 21 keep_going) demo_goals))))"
proof -
  have "goals_ok (lp_goals demo_goals)"
    unfolding demo_goals_def by (simp add: createGoal_ok goals_ok_def [of Map.empty])
  from goal_loop_bounded [OF this, of defaultGoalLoopSettings "''t''" "''c''" "replicate 21 keep_going"]
  show ?thesis
    by (cases "goal_rounds defaultGoalLoopSettings ''t'' ''c'' (replicate 21 keep_going) demo_goals")
      (simp add: defaultGoalLoopSettings_def turnsUsed_def demo_goals_def)
qed

text \<open>A goal paused or cleared while the judge reads is continued all the same.\<close>

lemma paused_while_judging:
  assumes "afterRun_begin st now c s = (Inr (used, objective), s1)" and "jd_verdict j = Continue"
  shows "continues (fst (afterRun_end now c used objective j (s1\<lparr>lp_goals := snd (execute_goal now' [] c cmd (lp_goals s1))\<rparr>)))"
  using assms(2) by (simp add: afterRun_end_def continues_def)

text \<open>
  A goal's receipts are a window: recording one leaves at most eight of them, no two alike in
  description and evidence, the new one last and the others in their old order, and drops no receipt
  but the ones alike it and, when the window is full, the oldest.
\<close>

definition receipts_ok :: "receipt list \<Rightarrow> bool" where
  "receipts_ok rs \<longleftrightarrow> length rs \<le> MAX_RECEIPTS \<and> distinct (map receipt_identity rs)"

lemma last_n_facts: "length (last_n n xs) \<le> n" "set (last_n n xs) \<subseteq> set xs" "length xs \<le> n \<Longrightarrow> last_n n xs = xs"
  "distinct (map f xs) \<Longrightarrow> distinct (map f (last_n n xs))"
  by (auto simp: last_n_def dest: in_set_dropD) (metis distinct_drop drop_map)

theorem receipts_window:
  assumes "receipts_ok (store g)"
    and "recordGoalProgress collate quoted shown now fresh g description res ms store = (r, store')"
  shows "receipts_ok (store' g) \<and>
    store' g = last_n 8 (filter (\<lambda>x. receipt_identity x \<noteq> receipt_identity r) (store g) @ [r]) \<and>
    readGoalProgress g store' = store' g \<and> last (store' g) = r \<and> (\<forall>h. h \<noteq> g \<longrightarrow> store' h = store h)"
proof -
  let ?xs = "filter (\<lambda>x. receipt_identity x \<noteq> receipt_identity r) (store g) @ [r]"
  have len: "length (store g) \<le> MAX_RECEIPTS" and dist: "distinct (map receipt_identity (store g))"
    using assms(1) by (auto simp: receipts_ok_def)
  have store': "store' = store(g := last_n MAX_RECEIPTS ?xs)"
    using assms(2) last_n_facts(3) [OF len] by (auto simp: recordGoalProgress_def Let_def)
  have d: "distinct (map receipt_identity ?xs)" using dist by (auto simp: distinct_map_filter)
  have ok: "receipts_ok (last_n MAX_RECEIPTS ?xs)"
    unfolding receipts_ok_def by (intro conjI last_n_facts(1) last_n_facts(4) d)
  have "last (last_n MAX_RECEIPTS ?xs) = r"
    by (auto simp: last_n_def MAX_RECEIPTS_def last_drop)
  moreover have "readGoalProgress g store' = store' g"
    unfolding readGoalProgress_def using ok by (intro last_n_facts(3)) (simp add: store' receipts_ok_def)
  ultimately show ?thesis using ok by (simp add: store' MAX_RECEIPTS_def)
qed

theorem receipts_window_witness:
  "map rc_description (snd (recordGoalProgress (\<lambda>_. 0) id (\<lambda>_. []) ''now'' ''r1'' ''g'' ''Check  mail '' ''ok'' [] (\<lambda>_. [])) ''g'')
    = [''Check mail'']"
proof -
  obtain r store' where rec: "recordGoalProgress (\<lambda>_. 0) id (\<lambda>_. []) ''now'' ''r1'' ''g'' ''Check  mail '' ''ok'' [] (\<lambda>_. []) = (r, store')"
    by (cases "recordGoalProgress (\<lambda>_. 0) id (\<lambda>_. []) ''now'' ''r1'' ''g'' ''Check  mail '' ''ok'' [] (\<lambda>_. [])")
  have "receipts_ok ((\<lambda>_. []) ''g'')" by (simp add: receipts_ok_def)
  from receipts_window [OF this rec] have "store' ''g'' = [r]" by (simp add: last_n_def)
  moreover have "rc_description r = ''Check mail''"
    using rec by (auto simp: recordGoalProgress_def Let_def compact_def js_trim_def is_js_space_def)
  ultimately show ?thesis by (simp add: rec)
qed

end
