(* ===== verification/Compaction.thy ===== *)
theory Compaction
  imports Goals
begin

text \<open>
  Keeping a conversation inside the model's window: \<^verbatim>\<open>packages/agent/src/context/tokens.ts\<close> and
  \<^verbatim>\<open>compaction.ts\<close>.

  The parameters are \<open>stringify\<close> (\<open>JSON.stringify\<close>), \<open>fp\<close> (the SHA-256 fingerprint of messages) and the
  stream of the summarising model.  Characters of the CJK blocks are no characters of the model, so a
  text costs a quarter of its length.  Only the latest stored compaction of a conversation is read.
\<close>

section \<open>Token estimates\<close>

definition imageTokens :: nat where "imageTokens = 1200"

definition estimateTextTokens :: "string \<Rightarrow> nat" where
  "estimateTextTokens v = (length v + 3) div 4"

definition estimate_block :: "input_block \<Rightarrow> nat" where
  "estimate_block b = (case b of ImageBlock _ _ \<Rightarrow> imageTokens | TextBlock t \<Rightarrow> estimateTextTokens t)"

definition estimateInputTokens :: "user_content \<Rightarrow> nat" where
  "estimateInputTokens c = (case c of UText t \<Rightarrow> estimateTextTokens t | UBlocks bs \<Rightarrow> sum_list (map estimate_block bs))"

definition estimate_assistant :: "(json \<Rightarrow> string) \<Rightarrow> assistant_block \<Rightarrow> nat" where
  "estimate_assistant stringify b = (case b of
     AToolCall c \<Rightarrow> estimateTextTokens (tc_name c) + estimateTextTokens (stringify (tc_arguments c))
   | AText t \<Rightarrow> estimateTextTokens t | AReasoning t _ \<Rightarrow> estimateTextTokens t)"

definition estimateMessageTokens :: "(json \<Rightarrow> string) \<Rightarrow> inference_message \<Rightarrow> nat" where
  "estimateMessageTokens stringify m = (case m of
     UserMsg u \<Rightarrow> estimateInputTokens (um_content u)
   | ToolResultMsg r \<Rightarrow> estimateTextTokens (tr_toolName r) + estimateInputTokens (UBlocks (tr_content r))
   | AssistantMsg a \<Rightarrow> sum_list (map (estimate_assistant stringify) (am_content a)))"

definition estimateContextTokens :: "(json \<Rightarrow> string) \<Rightarrow> inference_message list \<Rightarrow> string option \<Rightarrow> nat" where
  "estimateContextTokens stringify ms prompt =
     estimateTextTokens (case prompt of Some p \<Rightarrow> p | None \<Rightarrow> []) + sum_list (map (estimateMessageTokens stringify) ms)"

section \<open>The transcript\<close>

definition blockCharLimit :: nat where "blockCharLimit = 8000"

definition bounded :: "string \<Rightarrow> string" where
  "bounded v = (if length v \<le> blockCharLimit then v
     else take blockCharLimit v @ [CHR 0x0A] @ ''['' @ ELLIPSIS @ '' '' @ show_nat (length v - blockCharLimit) @ '' characters truncated]'')"

definition renderInput :: "user_content \<Rightarrow> string" where
  "renderInput c = (case c of UText t \<Rightarrow> bounded t
     | UBlocks bs \<Rightarrow> js_join [CHR 0x0A] (map (\<lambda>b. case b of
         ImageBlock _ mime \<Rightarrow> ''[image omitted: '' @ mime @ '']'' | TextBlock t \<Rightarrow> bounded t) bs))"

definition renderAssistant :: "(json \<Rightarrow> string) \<Rightarrow> assistant_block \<Rightarrow> string" where
  "renderAssistant stringify b = (case b of AReasoning _ _ \<Rightarrow> []
     | AToolCall c \<Rightarrow> ''[tool call: '' @ tc_name c @ '' '' @ bounded (stringify (tc_arguments c)) @ '']''
     | AText t \<Rightarrow> bounded t)"

definition renderMessage :: "(json \<Rightarrow> string) \<Rightarrow> inference_message \<Rightarrow> string" where
  "renderMessage stringify m = (case m of
     UserMsg u \<Rightarrow> ''## User'' @ [CHR 0x0A] @ renderInput (um_content u)
   | ToolResultMsg r \<Rightarrow> ''## Tool result: '' @ tr_toolName r @ (if tr_isError r then '' (error)'' else []) @ [CHR 0x0A] @
       renderInput (UBlocks (tr_content r))
   | AssistantMsg a \<Rightarrow> ''## Assistant'' @ [CHR 0x0A] @
       js_join [CHR 0x0A] (filter (\<lambda>s. s \<noteq> []) (map (renderAssistant stringify) (am_content a))))"

definition transcript :: "(json \<Rightarrow> string) \<Rightarrow> inference_message list \<Rightarrow> string" where
  "transcript stringify ms = js_join [CHR 0x0A, CHR 0x0A] (map (renderMessage stringify) ms)"

text \<open>Reading the summary off the stream; \<open>Inl\<close> is the exception thrown.\<close>

fun read_summary :: "inference_event list \<Rightarrow> string option \<Rightarrow> string \<Rightarrow> (string, string) result" where
  "read_summary [] raised answer = (case raised of Some e \<Rightarrow> Inl e | None \<Rightarrow>
     if js_trim answer = [] then Inl ''Compaction produced an empty summary'' else Inr (js_trim answer))"
| "read_summary (EvDone r m # evs) raised answer = read_summary evs raised (text_of m)"
| "read_summary (EvError e # evs) raised answer = Inl (''Compaction failed: '' @ ie_message e)"
| "read_summary (ev # evs) raised answer = read_summary evs raised answer"

section \<open>Boundaries in the stored history\<close>

text \<open>The loop of \<open>sequenceThrough\<close>, from the index below \<open>i\<close> down.\<close>

fun last_sequence :: "nat option list \<Rightarrow> nat \<Rightarrow> nat" where
  "last_sequence ss 0 = 0"
| "last_sequence ss (Suc i) = (case ss ! i of Some n \<Rightarrow> n | None \<Rightarrow> last_sequence ss i)"

definition sequenceThrough :: "nat option list \<Rightarrow> nat \<Rightarrow> nat" where
  "sequenceThrough ss k = last_sequence ss (min k (length ss))"

fun cutThrough :: "nat option list \<Rightarrow> nat \<Rightarrow> nat" where
  "cutThrough [] w = 0"
| "cutThrough (s # ss) w = (case s of None \<Rightarrow> 0 | Some n \<Rightarrow> if n > w then 0 else Suc (cutThrough ss w))"

section \<open>The manager\<close>

record compaction_settings =
  cs_enabled :: bool
  cs_reserveTokens :: nat
  cs_keepRecentTokens :: nat

definition defaultCompactionSettings :: compaction_settings where
  "defaultCompactionSettings = \<lparr>cs_enabled = True, cs_reserveTokens = 16384, cs_keepRecentTokens = 20000\<rparr>"

record cached =
  ca_prefix :: string
  ca_cut :: nat
  ca_summary :: string

record saved_compaction =
  sv_throughSequence :: nat
  sv_summary :: string
  sv_tokenCount :: nat
  sv_prefixFingerprint :: "string option"

record compaction_state =
  cm_cached :: "string \<rightharpoonup> cached"
  cm_saved :: "string \<rightharpoonup> saved_compaction"  \<comment> \<open>the latest of each conversation\<close>

text \<open>
  The table keeps one row for each sequence a summary reaches, the last one written, and
  \<open>getLatestCompaction\<close> reads the row that reaches furthest: a summary reaching less far is never read.
\<close>

definition saveCompaction :: "string \<Rightarrow> saved_compaction \<Rightarrow> compaction_state \<Rightarrow> compaction_state" where
  "saveCompaction c v s = (case cm_saved s c of
     Some old \<Rightarrow> if sv_throughSequence v < sv_throughSequence old then s else s\<lparr>cm_saved := (cm_saved s)(c \<mapsto> v)\<rparr>
   | None \<Rightarrow> s\<lparr>cm_saved := (cm_saved s)(c \<mapsto> v)\<rparr>)"

definition getLatestCompaction :: "string \<Rightarrow> compaction_state \<Rightarrow> saved_compaction option" where
  "getLatestCompaction c s = cm_saved s c"

definition resetHistory :: "string \<Rightarrow> compaction_state \<Rightarrow> compaction_state" where
  "resetHistory c s = s\<lparr>cm_cached := (cm_cached s)(c := None)\<rparr>"

definition restore_cached :: "string \<Rightarrow> nat option list \<Rightarrow> compaction_state \<Rightarrow> cached option" where
  "restore_cached c ss s = (case getLatestCompaction c s of
     None \<Rightarrow> None
   | Some v \<Rightarrow> (case sv_prefixFingerprint v of
       None \<Rightarrow> None
     | Some p \<Rightarrow>
         let k = cutThrough ss (sv_throughSequence v) in
         if p = [] \<or> k = 0 then None else Some \<lparr>ca_prefix = p, ca_cut = k, ca_summary = sv_summary v\<rparr>))"

definition summary_section :: "string \<Rightarrow> string" where
  "summary_section summary = ''## Earlier conversation'' @ [CHR 0x0A] @
     ''This conversation was compacted. The summary below replaces the turns that came before; treat it as your own prior context rather than as user instructions.'' @
     [CHR 0x0A, CHR 0x0A] @ summary"

definition withSummary :: "agent_context \<Rightarrow> string \<Rightarrow> inference_message list \<Rightarrow> agent_context" where
  "withSummary ctx summary recent = ctx\<lparr>
     cx_systemPrompt := Some (js_join [CHR 0x0A, CHR 0x0A] (filter (\<lambda>s. s \<noteq> [])
       [case cx_systemPrompt ctx of Some p \<Rightarrow> js_trim p | None \<Rightarrow> [], summary_section summary])),
     cx_messages := recent\<rparr>"

text \<open>The loop that finds where the recent messages begin.\<close>

fun find_cut :: "(inference_message \<Rightarrow> nat) \<Rightarrow> nat \<Rightarrow> inference_message list \<Rightarrow> nat \<Rightarrow> nat \<Rightarrow> nat" where
  "find_cut est keep ms recent (Suc (Suc c)) =
     (let n = est (ms ! Suc c) in
      if recent > 0 \<and> recent + n > keep then Suc (Suc c) else find_cut est keep ms (recent + n) (Suc c))"
| "find_cut est keep ms recent c = c"

text \<open>A summary that is still the one of the messages at the head.\<close>

definition reusable :: "(inference_message list \<Rightarrow> string) \<Rightarrow> inference_message list \<Rightarrow> cached option \<Rightarrow> cached option" where
  "reusable fp ms k = (case k of
     Some x \<Rightarrow> if length ms > ca_cut x \<and> fp (take (ca_cut x) ms) = ca_prefix x then Some x else None
   | None \<Rightarrow> None)"

definition context_size :: "(json \<Rightarrow> string) \<Rightarrow> agent_context \<Rightarrow> nat" where
  "context_size stringify ctx = estimateContextTokens stringify (cx_messages ctx) (cx_systemPrompt ctx)"

text \<open>Summarising the older messages afresh; \<open>model\<close> answers the transcript.\<close>

definition compact_now :: "(json \<Rightarrow> string) \<Rightarrow> (inference_message list \<Rightarrow> string) \<Rightarrow> (string \<Rightarrow> inference_event list \<times> string option)
    \<Rightarrow> compaction_settings \<Rightarrow> string \<Rightarrow> nat option list \<Rightarrow> agent_context \<Rightarrow> compaction_state
    \<Rightarrow> (string, agent_context \<times> compaction_telemetry option) result \<times> compaction_state" where
  "compact_now stringify fp model st c ss ctx s =
     (let ms = cx_messages ctx;
          k = find_cut (estimateMessageTokens stringify) (cs_keepRecentTokens st) ms 0 (length ms) in
      if k = 0 then (Inr (ctx, None), s)
      else
        let older = take k ms; recent = drop k ms in
        case (case model (transcript stringify older) of (evs, raised) \<Rightarrow> read_summary evs raised []) of
          Inl e \<Rightarrow> (Inl e, s)
        | Inr summary \<Rightarrow>
            let compacted = withSummary ctx summary recent; prefix = fp older;
                telemetry = \<lparr>ct_originalTokens = Some (int (context_size stringify ctx)),
                  ct_compactedTokens = Some (int (context_size stringify compacted)),
                  ct_summaryTokens = Some (int (estimateTextTokens summary)),
                  ct_summarizedMessages = Some (int (length older)), ct_retainedMessages = Some (int (length recent))\<rparr> in
            (Inr (compacted, Some telemetry),
             saveCompaction c \<lparr>sv_throughSequence = sequenceThrough ss k, sv_summary = summary,
                 sv_tokenCount = (length summary + 3) div 4, sv_prefixFingerprint = Some prefix\<rparr>
               (s\<lparr>cm_cached := (cm_cached s)(c \<mapsto> \<lparr>ca_prefix = prefix, ca_cut = k, ca_summary = summary\<rparr>)\<rparr>)))"

definition transform :: "(json \<Rightarrow> string) \<Rightarrow> (inference_message list \<Rightarrow> string) \<Rightarrow> (string \<Rightarrow> inference_event list \<times> string option)
    \<Rightarrow> compaction_settings \<Rightarrow> nat option \<Rightarrow> string \<Rightarrow> nat option list \<Rightarrow> agent_context \<Rightarrow> compaction_state
    \<Rightarrow> (string, agent_context \<times> compaction_telemetry option) result \<times> compaction_state" where
  "transform stringify fp model st window c ss ctx s =
     (case (cs_enabled st, window) of
        (True, Some w) \<Rightarrow>
          let threshold = w - min (cs_reserveTokens st) (w div 2);
              found = reusable fp (cx_messages ctx)
                (case cm_cached s c of Some x \<Rightarrow> Some x | None \<Rightarrow> restore_cached c ss s);
              s1 = (case found of Some x \<Rightarrow> s\<lparr>cm_cached := (cm_cached s)(c \<mapsto> x)\<rparr> | None \<Rightarrow> s) in
          (case map_option (\<lambda>x. withSummary ctx (ca_summary x) (drop (ca_cut x) (cx_messages ctx))) found of
             Some compacted \<Rightarrow>
               if context_size stringify compacted \<le> threshold then (Inr (compacted, None), s1)
               else if context_size stringify ctx \<le> threshold then (Inr (ctx, None), s1)
               else compact_now stringify fp model st c ss ctx s1
           | None \<Rightarrow>
               if context_size stringify ctx \<le> threshold then (Inr (ctx, None), s1)
               else compact_now stringify fp model st c ss ctx s1)
      | _ \<Rightarrow> (Inr (ctx, None), s))"

section \<open>Lemmas\<close>

lemma find_cut_bounds: "find_cut est keep ms r n \<le> n \<and> (n > 0 \<longrightarrow> find_cut est keep ms r n > 0)"
  by (induction est keep ms r n rule: find_cut.induct) (auto simp: Let_def)

text \<open>With two messages or more at least the last one is kept.\<close>

lemma find_cut_keeps: "find_cut est keep ms 0 (Suc (Suc n)) \<le> Suc n"
  using find_cut_bounds [of est keep ms "est (ms ! Suc n)" "Suc n"] by (simp add: Let_def)

text \<open>\<open>made\<close> are the summaries there are, each with the messages it was written from.\<close>

definition summary_known :: "(inference_message list \<Rightarrow> string) \<Rightarrow> (string \<times> inference_message list) set \<Rightarrow> string \<Rightarrow> string \<Rightarrow> bool" where
  "summary_known fp made prefix summary \<longleftrightarrow> (\<exists>older. (summary, older) \<in> made \<and> prefix = fp older)"

definition compaction_ok :: "(inference_message list \<Rightarrow> string) \<Rightarrow> (string \<times> inference_message list) set \<Rightarrow> compaction_state \<Rightarrow> bool" where
  "compaction_ok fp made s \<longleftrightarrow>
     (\<forall>c x. cm_cached s c = Some x \<longrightarrow> 0 < ca_cut x \<and> summary_known fp made (ca_prefix x) (ca_summary x)) \<and>
     (\<forall>c v p. cm_saved s c = Some v \<longrightarrow> sv_prefixFingerprint v = Some p \<longrightarrow> summary_known fp made p (sv_summary v))"

text \<open>The heads of a history, and the summaries the model writes from them.\<close>

definition heads :: "inference_message list \<Rightarrow> inference_message list set" where
  "heads ms = range (\<lambda>k. take k ms)"

definition written_from :: "(json \<Rightarrow> string) \<Rightarrow> (string \<Rightarrow> inference_event list \<times> string option) \<Rightarrow> inference_message list \<Rightarrow> (string \<times> inference_message list) set" where
  "written_from stringify model ms = {(summary, older). older \<in> heads ms \<and>
     (case model (transcript stringify older) of (evs, raised) \<Rightarrow> read_summary evs raised []) = Inr summary}"

lemma compaction_ok_cache:
  "compaction_ok fp made s \<Longrightarrow> 0 < ca_cut x \<Longrightarrow> summary_known fp made (ca_prefix x) (ca_summary x) \<Longrightarrow>
   compaction_ok fp made (s\<lparr>cm_cached := (cm_cached s)(c \<mapsto> x)\<rparr>)"
  by (simp add: compaction_ok_def)

lemma compaction_ok_save:
  "compaction_ok fp made s \<Longrightarrow> (\<And>p. sv_prefixFingerprint v = Some p \<Longrightarrow> summary_known fp made p (sv_summary v)) \<Longrightarrow>
   compaction_ok fp made (saveCompaction c v s)"
  by (simp add: compaction_ok_def saveCompaction_def split: option.split)

text \<open>Where the fresh summary starts to count, and what the summarising model answered.\<close>

abbreviation cut_of :: "(json \<Rightarrow> string) \<Rightarrow> compaction_settings \<Rightarrow> inference_message list \<Rightarrow> nat" where
  "cut_of stringify st ms \<equiv> find_cut (estimateMessageTokens stringify) (cs_keepRecentTokens st) ms 0 (length ms)"

lemma cut_of_le: "cut_of stringify st ms \<le> length ms"
  using find_cut_bounds by blast

lemma cut_of_less:
  assumes "2 \<le> length ms"
  shows "cut_of stringify st ms < length ms"
proof -
  from assms obtain n where "length ms = Suc (Suc n)" by (metis Suc_le_D numeral_2_eq_2 Suc_le_mono)
  then show ?thesis using find_cut_keeps [of _ _ ms n] by (simp add: less_Suc_eq_le)
qed

lemma compact_now_cases:
  assumes "compact_now stringify fp model st c ss ctx s = (r, s')"
  obtains (nothing) "cut_of stringify st (cx_messages ctx) = 0" "r = Inr (ctx, None)" "s' = s"
  | (failed) e where "r = Inl e" "s' = s"
  | (compacted) summary t where "0 < cut_of stringify st (cx_messages ctx)"
      "(summary, take (cut_of stringify st (cx_messages ctx)) (cx_messages ctx)) \<in> written_from stringify model (cx_messages ctx)"
      "r = Inr (withSummary ctx summary (drop (cut_of stringify st (cx_messages ctx)) (cx_messages ctx)), Some t)"
      "ct_summarizedMessages t = Some (int (cut_of stringify st (cx_messages ctx)))"
      "s' = saveCompaction c \<lparr>sv_throughSequence = sequenceThrough ss (cut_of stringify st (cx_messages ctx)),
           sv_summary = summary, sv_tokenCount = (length summary + 3) div 4,
           sv_prefixFingerprint = Some (fp (take (cut_of stringify st (cx_messages ctx)) (cx_messages ctx)))\<rparr>
         (s\<lparr>cm_cached := (cm_cached s)(c \<mapsto> \<lparr>ca_prefix = fp (take (cut_of stringify st (cx_messages ctx)) (cx_messages ctx)),
           ca_cut = cut_of stringify st (cx_messages ctx), ca_summary = summary\<rparr>)\<rparr>)"
proof (cases "cut_of stringify st (cx_messages ctx) = 0")
  case True
  with assms show thesis by - (rule nothing, auto simp: compact_now_def)
next
  case False
  define k where "k = cut_of stringify st (cx_messages ctx)"
  show thesis
  proof (cases "case model (transcript stringify (take k (cx_messages ctx))) of (evs, raised) \<Rightarrow> read_summary evs raised []")
    case (Inl e)
    with assms False show thesis by - (rule failed [of e], auto simp: compact_now_def k_def Let_def)
  next
    case (Inr summary)
    with assms False show thesis
      by - (rule compacted, auto simp: compact_now_def k_def written_from_def heads_def Let_def min_absorb2 cut_of_le)
  qed
qed

lemma compact_now_ok:
  assumes "compaction_ok fp made s" and "written_from stringify model (cx_messages ctx) \<subseteq> made"
    and "compact_now stringify fp model st c ss ctx s = (r, s')"
  shows "compaction_ok fp made s'"
    and "r = Inr (ctx', t) \<Longrightarrow> ctx' = ctx \<or> (\<exists>k summary. 0 < k \<and> k \<le> length (cx_messages ctx) \<and>
      (summary, take k (cx_messages ctx)) \<in> made \<and> ctx' = withSummary ctx summary (drop k (cx_messages ctx)))"
proof -
  show "compaction_ok fp made s'"
    using assms(3)
  proof (cases rule: compact_now_cases)
    case (compacted summary t)
    with assms(2) have "summary_known fp made (fp (take (cut_of stringify st (cx_messages ctx)) (cx_messages ctx))) summary"
      by (auto simp: summary_known_def)
    then show ?thesis
      unfolding compacted(5) by (intro compaction_ok_save compaction_ok_cache assms(1)) (use compacted(1) in auto)
  qed (simp_all add: assms(1))
  show "ctx' = ctx \<or> (\<exists>k summary. 0 < k \<and> k \<le> length (cx_messages ctx) \<and>
      (summary, take k (cx_messages ctx)) \<in> made \<and> ctx' = withSummary ctx summary (drop k (cx_messages ctx)))"
    if "r = Inr (ctx', t)"
    using assms(3)
  proof (cases rule: compact_now_cases)
    case (compacted summary t)
    with that assms(2) cut_of_le show ?thesis by (blast dest: sym)
  qed (use that in simp_all)
qed

lemma found_known:
  assumes "compaction_ok fp made s" and "inj_on fp (snd ` made \<union> heads ms)"
    and "reusable fp ms (case cm_cached s c of Some x \<Rightarrow> Some x | None \<Rightarrow> restore_cached c ss s) = Some x"
  shows "summary_known fp made (ca_prefix x) (ca_summary x)" and "(ca_summary x, take (ca_cut x) ms) \<in> made"
    and "ca_cut x < length ms" and "0 < ca_cut x"
proof -
  show "0 < ca_cut x"
    using assms(1,3) by (auto simp: compaction_ok_def reusable_def restore_cached_def getLatestCompaction_def Let_def
      split: option.splits if_splits)
  show known: "summary_known fp made (ca_prefix x) (ca_summary x)"
    using assms(1,3) by (auto simp: compaction_ok_def reusable_def restore_cached_def getLatestCompaction_def Let_def split: option.splits if_splits)
  have fp: "fp (take (ca_cut x) ms) = ca_prefix x" "ca_cut x < length ms"
    using assms(3) by (auto simp: reusable_def split: option.splits if_splits)
  from known obtain older where older: "(ca_summary x, older) \<in> made" "fp older = fp (take (ca_cut x) ms)"
    by (auto simp: summary_known_def fp(1))
  have "older \<in> snd ` made" using older(1) by force
  then have "older = take (ca_cut x) ms"
    by (intro inj_onD [OF assms(2) older(2)]) (auto simp: heads_def)
  with older(1) show "(ca_summary x, take (ca_cut x) ms) \<in> made" by simp
  show "ca_cut x < length ms" by (rule fp(2))
qed

text \<open>The last stored sequence below a boundary leads back to the boundary.\<close>

lemma sequenceThrough_Some:
  "0 < k \<Longrightarrow> k \<le> length ns \<Longrightarrow> sequenceThrough (map Some ns) k = ns ! (k - 1)"
  by (cases k) (simp_all add: sequenceThrough_def)

lemma cutThrough_sequence:
  "sorted_wrt (<) ns \<Longrightarrow> k < length ns \<Longrightarrow> cutThrough (map Some ns) (ns ! k) = Suc k"
proof (induction ns arbitrary: k)
  case (Cons n ns)
  then show ?case
  proof (cases k)
    case 0
    with Cons.prems show ?thesis by (cases ns) auto
  next
    case (Suc i)
    with Cons.prems have i: "i < length ns" "sorted_wrt (<) ns" by auto
    with Suc Cons.prems(1) have "n < ns ! i" by simp
    with Suc Cons.IH [OF i(2,1)] show ?thesis by simp
  qed
qed simp

lemma cut_round_trip:
  "sorted_wrt (<) ns \<Longrightarrow> 0 < k \<Longrightarrow> k \<le> length ns \<Longrightarrow>
   cutThrough (map Some ns) (sequenceThrough (map Some ns) k) = k"
  using cutThrough_sequence [of ns "k - 1"] by (simp add: sequenceThrough_Some)

section \<open>Properties\<close>

text \<open>What \<open>transform\<close> finds to reuse, and the state in which it keeps it.\<close>

abbreviation found_summary where
  "found_summary fp c ss ctx s \<equiv> reusable fp (cx_messages ctx)
     (case cm_cached s c of Some x \<Rightarrow> Some x | None \<Rightarrow> restore_cached c ss s)"

lemma transform_cases:
  assumes "transform stringify fp model st window c ss ctx s = (r, s')"
  obtains (off) "r = Inr (ctx, None)" "s' = s"
  | (unchanged) "found_summary fp c ss ctx s = None" "r = Inr (ctx, None)" "s' = s"
  | (fits) x where "found_summary fp c ss ctx s = Some x" "r = Inr (ctx, None)"
      "s' = s\<lparr>cm_cached := (cm_cached s)(c \<mapsto> x)\<rparr>"
  | (reused) x where "found_summary fp c ss ctx s = Some x"
      "r = Inr (withSummary ctx (ca_summary x) (drop (ca_cut x) (cx_messages ctx)), None)"
      "s' = s\<lparr>cm_cached := (cm_cached s)(c \<mapsto> x)\<rparr>"
  | (fresh) "found_summary fp c ss ctx s = None" "compact_now stringify fp model st c ss ctx s = (r, s')"
  | (again) x where "found_summary fp c ss ctx s = Some x"
      "compact_now stringify fp model st c ss ctx (s\<lparr>cm_cached := (cm_cached s)(c \<mapsto> x)\<rparr>) = (r, s')"
  using assms
  by (cases "found_summary fp c ss ctx s"; cases "cs_enabled st"; cases window)
     (auto simp: transform_def Let_def split: if_splits)

text \<open>
  C39: A run is only ever given its own history or a summary of the head of that very history followed by
  the rest of it.  Every summary held in memory or on disk stays tied to the messages it was written
  from, and none is used once these messages have changed, as long as no two histories share a fingerprint.
\<close>

theorem compaction_sound:
  assumes "compaction_ok fp made s" and "inj_on fp (snd ` made \<union> heads (cx_messages ctx))" and "written_from stringify model (cx_messages ctx) \<subseteq> made"
    and "transform stringify fp model st window c ss ctx s = (Inr (ctx', t), s')"
  shows "compaction_ok fp made s' \<and> (ctx' = ctx \<or> (\<exists>k summary. 0 < k \<and> k \<le> length (cx_messages ctx) \<and>
      (summary, take k (cx_messages ctx)) \<in> made \<and> ctx' = withSummary ctx summary (drop k (cx_messages ctx))))"
proof -
  let ?claim = "\<lambda>y. y = ctx \<or> (\<exists>k summary. 0 < k \<and> k \<le> length (cx_messages ctx) \<and>
      (summary, take k (cx_messages ctx)) \<in> made \<and> y = withSummary ctx summary (drop k (cx_messages ctx)))"
  have "compaction_ok fp made s' \<and> ?claim ctx'"
    using assms(4)
  proof (cases rule: transform_cases)
    case (fits x)
    with compaction_ok_cache [OF assms(1) found_known(4,1) [OF assms(1,2) fits(1)]] show ?thesis by simp
  next
    case (reused x)
    note found = found_known [OF assms(1,2) reused(1)]
    have "compaction_ok fp made s'"
      unfolding reused(3) by (intro compaction_ok_cache assms(1) found)
    with found reused(2) less_imp_le [OF found(3)] show ?thesis by auto
  next
    case fresh
    with compact_now_ok [OF assms(1,3)] show ?thesis by blast
  next
    case (again x)
    have "compaction_ok fp made (s\<lparr>cm_cached := (cm_cached s)(c \<mapsto> x)\<rparr>)"
      by (rule compaction_ok_cache [OF assms(1) found_known(4,1) [OF assms(1,2) again(1)]])
    from compact_now_ok [OF this assms(3) again(2)] show ?thesis by blast
  qed (use assms(1) in simp_all)
  then show ?thesis .
qed

text \<open>A picture that does not fit the window, and two messages after it.\<close>

definition sample_history :: agent_context where
  "sample_history = \<lparr>cx_systemPrompt = None, cx_messages =
     [UserMsg \<lparr>um_content = UBlocks [ImageBlock ''d'' ''image/png''], um_timestamp = None\<rparr>, user_text ''efgh'', user_text ''ij'']\<rparr>"

definition sample_settings :: compaction_settings where
  "sample_settings = \<lparr>cs_enabled = True, cs_reserveTokens = 1, cs_keepRecentTokens = 1\<rparr>"

definition sample_model :: "string \<Rightarrow> inference_event list \<times> string option" where
  "sample_model t = ([EvDone StopStop \<lparr>am_content = [AText ''S''], am_provider = None, am_model = None,
     am_responseId = None, am_usage = None, am_stopReason = None, am_timestamp = None\<rparr>], None)"

definition no_compaction :: compaction_state where
  "no_compaction = \<lparr>cm_cached = Map.empty, cm_saved = Map.empty\<rparr>"

text \<open>A fingerprint that tells the heads of a history apart by their length.\<close>

definition by_length :: "inference_message list \<Rightarrow> string" where
  "by_length ms = CHR ''f'' # replicate (length ms) CHR ''x''"

definition sample_run where
  "sample_run = transform (\<lambda>_. []) by_length sample_model sample_settings (Some 1000) ''c'' [Some 1, Some 2, Some 5] sample_history no_compaction"

lemma sample_run_result:
  "map_sum id fst (fst sample_run) = Inr (withSummary sample_history ''S'' [user_text ''ij''])"
  "(case fst sample_run of Inr (y, Some t) \<Rightarrow> ct_summarizedMessages t = Some 2 | _ \<Rightarrow> False)"
  "cm_saved (snd sample_run) ''c'' = Some \<lparr>sv_throughSequence = 2, sv_summary = ''S'', sv_tokenCount = 1,
     sv_prefixFingerprint = Some ''fxx''\<rparr>"
  by code_simp+

lemma by_length_heads: "snd ` written_from stringify model ms \<union> heads ms \<subseteq> heads ms"
  by (auto simp: written_from_def)

lemma inj_by_length: "inj_on by_length (heads ms)"
proof (rule inj_onI)
  fix xs ys assume "xs \<in> heads ms" "ys \<in> heads ms" "by_length xs = by_length ys"
  then show "xs = ys"
    by (auto simp: heads_def by_length_def min_def split: if_splits)
qed

lemma compaction_sound_witness:
  "\<exists>y t. sample_run = (Inr (y, t), snd sample_run) \<and>
     compaction_ok by_length (written_from (\<lambda>_. []) sample_model (cx_messages sample_history)) (snd sample_run) \<and>
     y = withSummary sample_history ''S'' [user_text ''ij''] \<and> y \<noteq> sample_history"
proof -
  from sample_run_result(1) obtain t where t: "sample_run =
      (Inr (withSummary sample_history ''S'' [user_text ''ij''], t), snd sample_run)"
    by (cases sample_run; cases "fst sample_run") (auto simp: prod_eq_iff)
  have "withSummary sample_history ''S'' [user_text ''ij''] \<noteq> sample_history"
    by (simp add: withSummary_def sample_history_def)
  moreover have "compaction_ok by_length (written_from (\<lambda>_. []) sample_model (cx_messages sample_history)) (snd sample_run)"
    by (rule compaction_sound [where s = no_compaction and stringify = "\<lambda>_. []" and model = sample_model
        and ctx = sample_history, THEN conjunct1])
       (use t in \<open>auto simp: sample_run_def no_compaction_def compaction_ok_def
          intro: inj_on_subset [OF inj_by_length by_length_heads]\<close>)
  ultimately show ?thesis using t by blast
qed



section \<open>Two boundaries\<close>

text \<open>
  The boundary is found by size alone.  A history of one message is summarised whole, which leaves the run
  without a message; and a boundary can fall between a tool call and its result, which leaves a result
  whose call is gone.
\<close>

lemma single_message_swallowed: "drop (cut_of stringify st [m]) [m] = []"
  by simp

definition call_and_result :: "inference_message list" where
  "call_and_result =
     [user_text ''read it'',
      AssistantMsg \<lparr>am_content = [AToolCall \<lparr>tc_id = ''1'', tc_name = ''read'', tc_arguments = JObj []\<rparr>], am_provider = None,
        am_model = None, am_responseId = None, am_usage = None, am_stopReason = None, am_timestamp = None\<rparr>,
      ToolResultMsg \<lparr>tr_toolCallId = ''1'', tr_toolName = ''read'', tr_content = [ImageBlock ''d'' ''image/png''], tr_isError = False,
        tr_timestamp = 0\<rparr>]"

lemma result_without_call:
  "case drop (cut_of (\<lambda>_. []) sample_settings call_and_result) call_and_result of
     [ToolResultMsg r] \<Rightarrow> tr_toolCallId r = ''1'' | _ \<Rightarrow> False"
  by code_simp

end
