(* ===== verification/Regex.thy ===== *)
theory Regex
  imports Prelude
begin

text \<open>
  The regular expressions the code tests texts with.  An expression is a value of \<open>rx\<close> and is
  tried at a position of a text; \<open>rx_ends\<close> computes where a match can end and \<open>rx_test\<close> is JavaScript's
  \<open>test\<close>, which only asks whether there is a match.  \<open>matches\<close> is the textbook meaning, and
  the two agree.  A word character is a letter, a digit or an underscore, as in JavaScript.
\<close>

datatype rx =
    RCls "char \<Rightarrow> bool"
  | REps
  | RSeq rx rx
  | RAlt rx rx
  | RStar rx
  | RWordB
  | RBegin
  | REnd

definition word_char :: "char \<Rightarrow> bool" where
  "word_char c \<longleftrightarrow> c \<in> set ''ABCDEFGHIJKLMNOPQRSTUVWXYZabcdefghijklmnopqrstuvwxyz0123456789_''"

definition word_at :: "string \<Rightarrow> nat \<Rightarrow> bool" where
  "word_at s i \<longleftrightarrow> i < length s \<and> word_char (s ! i)"

text \<open>Whether a position is between a word character and another one or an end.\<close>

definition word_boundary :: "string \<Rightarrow> nat \<Rightarrow> bool" where
  "word_boundary s i \<longleftrightarrow> (i > 0 \<and> word_at s (i - 1)) \<noteq> word_at s i"

text \<open>One more round of a repetition.\<close>

definition more_ends :: "(nat \<Rightarrow> nat list) \<Rightarrow> nat list \<Rightarrow> nat list" where
  "more_ends f is = remdups (is @ concat (map f is))"

primrec rx_ends :: "rx \<Rightarrow> string \<Rightarrow> nat \<Rightarrow> nat list" where
  "rx_ends (RCls p) = (\<lambda>s i. if i < length s \<and> p (s ! i) then [Suc i] else [])"
| "rx_ends REps = (\<lambda>s i. [i])"
| "rx_ends (RSeq a b) = (\<lambda>s i. concat (map (rx_ends b s) (rx_ends a s i)))"
| "rx_ends (RAlt a b) = (\<lambda>s i. rx_ends a s i @ rx_ends b s i)"
| "rx_ends (RStar a) = (\<lambda>s i. (more_ends (rx_ends a s) ^^ length s) [i])"
| "rx_ends RWordB = (\<lambda>s i. if word_boundary s i then [i] else [])"
| "rx_ends RBegin = (\<lambda>s i. if i = 0 then [i] else [])"
| "rx_ends REnd = (\<lambda>s i. if i = length s then [i] else [])"

definition rx_test :: "rx \<Rightarrow> string \<Rightarrow> bool" where
  "rx_test r s \<longleftrightarrow> list_ex (\<lambda>i. rx_ends r s i \<noteq> []) [0..<Suc (length s)]"

text \<open>Literals, alternatives, repetitions that must occur once, words between boundaries.\<close>

definition rx_lit :: "string \<Rightarrow> rx" where
  "rx_lit w = foldr (\<lambda>c r. RSeq (RCls (\<lambda>x. x = c)) r) w REps"

definition rx_any :: "rx list \<Rightarrow> rx" where
  "rx_any rs = foldr RAlt rs (RCls (\<lambda>_. False))"

definition rx_plus :: "rx \<Rightarrow> rx" where "rx_plus r = RSeq r (RStar r)"

definition rx_space :: rx where "rx_space = RCls is_js_space"

definition rx_words :: "string list \<Rightarrow> rx" where
  "rx_words ws = RSeq RWordB (RSeq (rx_any (map rx_lit ws)) RWordB)"

section \<open>The meaning\<close>

fun matches :: "rx \<Rightarrow> string \<Rightarrow> nat \<Rightarrow> nat \<Rightarrow> bool" where
  "matches (RCls p) s i j = (i < length s \<and> p (s ! i) \<and> j = Suc i)"
| "matches REps s i j = (i = j)"
| "matches (RSeq a b) s i j = (\<exists>k. matches a s i k \<and> matches b s k j)"
| "matches (RAlt a b) s i j = (matches a s i j \<or> matches b s i j)"
| "matches (RStar a) s i j = (matches a s)\<^sup>*\<^sup>* i j"
| "matches RWordB s i j = (i = j \<and> word_boundary s i)"
| "matches RBegin s i j = (i = j \<and> i = 0)"
| "matches REnd s i j = (i = j \<and> i = length s)"

text \<open>A match does not run backwards or beyond the text.\<close>

lemma matches_forward: "matches r s i j \<Longrightarrow> i \<le> j \<and> (i < j \<longrightarrow> j \<le> length s)"
proof (induction r arbitrary: i j)
  case (RSeq a b)
  then show ?case by (metis matches.simps(3) le_trans nless_le)
next
  case (RStar a)
  from RStar.prems have "(matches a s)\<^sup>*\<^sup>* i j" by simp
  then show ?case
  proof (induction rule: rtranclp_induct)
    case (step j k)
    then show ?case using RStar.IH [OF step.hyps(2)] by (metis le_trans nless_le)
  qed simp
qed auto

text \<open>A repetition needs at most one round for each character.\<close>

lemma star_rounds:
  assumes fwd: "\<And>i j. R i j \<Longrightarrow> i \<le> j \<and> (i < j \<longrightarrow> j \<le> n)" and "R\<^sup>*\<^sup>* i j"
  shows "\<exists>k. k \<le> j - i \<and> i \<le> j \<and> (i < j \<longrightarrow> j \<le> n) \<and> (R ^^ k) i j"
  using assms(2)
proof (induction rule: rtranclp_induct)
  case base
  show ?case by (intro exI [of _ 0]) simp
next
  case (step j k)
  then obtain m where m: "m \<le> j - i" "i \<le> j" "(i < j \<longrightarrow> j \<le> n)" "(R ^^ m) i j" by blast
  show ?case
  proof (cases "j = k")
    case True
    with m show ?thesis by blast
  next
    case False
    with fwd [OF step.hyps(2)] have "j < k" "k \<le> n" by auto
    with m step.hyps(2) show ?thesis by (intro exI [of _ "Suc m"]) (auto intro: relcomppI)
  qed
qed

lemma set_more_ends: "set (more_ends f is) = set is \<union> (\<Union>i\<in>set is. set (f i))"
  by (simp add: more_ends_def)

lemma set_rounds:
  assumes "\<And>i j. j \<in> set (f i) \<longleftrightarrow> R i j"
  shows "j \<in> set ((more_ends f ^^ n) [i]) \<longleftrightarrow> (\<exists>k\<le>n. (R ^^ k) i j)"
proof (induction n arbitrary: j)
  case (Suc n)
  have "j \<in> set ((more_ends f ^^ Suc n) [i]) \<longleftrightarrow>
      j \<in> set ((more_ends f ^^ n) [i]) \<or> (\<exists>b. b \<in> set ((more_ends f ^^ n) [i]) \<and> R b j)"
    by (auto simp: set_more_ends assms)
  also have "\<dots> \<longleftrightarrow> (\<exists>k\<le>n. (R ^^ k) i j) \<or> (\<exists>k\<le>n. (R ^^ Suc k) i j)"
    unfolding Suc by (auto simp: relcompp_apply)
  also have "\<dots> \<longleftrightarrow> (\<exists>k\<le>Suc n. (R ^^ k) i j)"
    by (metis Suc_le_mono le_SucE le_SucI)
  finally show ?case .
qed (simp add: eq_commute)

lemma rx_ends_iff: "j \<in> set (rx_ends r s i) \<longleftrightarrow> matches r s i j"
proof (induction r arbitrary: i j)
  case (RStar a)
  have "j \<in> set ((more_ends (rx_ends a s) ^^ length s) [i]) \<longleftrightarrow> (\<exists>k\<le>length s. (matches a s ^^ k) i j)"
    by (rule set_rounds) (rule RStar.IH)
  also have "\<dots> \<longleftrightarrow> (matches a s)\<^sup>*\<^sup>* i j"
  proof
    assume "(matches a s)\<^sup>*\<^sup>* i j"
    from star_rounds [where R = "matches a s" and n = "length s", OF matches_forward [where r = a and s = s] this] obtain k
      where k: "k \<le> j - i" "i \<le> j" "i < j \<longrightarrow> j \<le> length s" "(matches a s ^^ k) i j" by blast
    then have "k \<le> length s" by (cases "i = j") auto
    with k(4) show "\<exists>k\<le>length s. (matches a s ^^ k) i j" by blast
  qed (auto intro: relpowp_imp_rtranclp)
  finally show ?case by simp
qed (auto split: if_splits)

lemma rx_test_iff: "rx_test r s \<longleftrightarrow> (\<exists>i j. i \<le> length s \<and> matches r s i j)"
proof -
  have "rx_ends r s i \<noteq> [] \<longleftrightarrow> (\<exists>j. matches r s i j)" for i
    by (metis all_not_in_conv rx_ends_iff set_empty)
  then show ?thesis unfolding rx_test_def list_ex_iff by (simp add: less_Suc_eq_le Bex_def del: upt_Suc)
qed

end
