(* ===== verification/Fleet.thy ===== *)
theory Fleet
  imports RunControl Regex "HOL-Library.Sublist"
begin

text \<open>
  The delegated runs of one parent run, \<^verbatim>\<open>packages/agent/src/subagents/fleet.ts\<close>, over the parent's handle
  of \<open>RunControl\<close>.

  The code remembers its own posts by identity (\<open>#fleetPost\<close>, a \<open>WeakSet\<close>).  The model keeps for the queue of the
  handle a list of flags, true for a post of the fleet.  A promise that follows a run is the name it
  follows; \<open>stringify\<close> is \<open>JSON.stringify\<close>.  Texts are compared in lower case, which the regular
  expressions with the flag \<open>i\<close> amount to.
\<close>

section \<open>Entries\<close>

datatype subagent_status = SubRunning | SubCompleted | SubFailed | SubCancelled

record subagent_entry =
  su_name :: string
  su_description :: string
  su_runId :: string
  su_status :: subagent_status
  su_result :: "string option"
  su_retained :: "inference_message list option"
  su_retainedAt :: "int option"

definition isFinal :: "subagent_status \<Rightarrow> bool" where "isFinal s \<longleftrightarrow> s \<noteq> SubRunning"

definition status_name :: "subagent_status \<Rightarrow> string" where
  "status_name s = (case s of SubRunning \<Rightarrow> ''running'' | SubCompleted \<Rightarrow> ''completed'' | SubFailed \<Rightarrow> ''failed''
     | SubCancelled \<Rightarrow> ''cancelled'')"

definition subagentStatus :: "string \<Rightarrow> subagent_status" where
  "subagentStatus s = (if s = ''completed'' then SubCompleted else if s = ''cancelled'' then SubCancelled else SubFailed)"

definition notification :: "(json \<Rightarrow> string) \<Rightarrow> subagent_entry \<Rightarrow> inference_message" where
  "notification stringify e = user_text (js_join [CHR 0x0A]
     [''<subagent_notification>'',
      stringify (JObj [(''subagent'', JStr (su_name e)), (''description'', JStr (su_description e)),
        (''status'', JStr (status_name (su_status e))),
        (''result'', JStr (case su_result e of Some r \<Rightarrow> r | None \<Rightarrow> []))]),
      ''</subagent_notification>''])"

section \<open>Terms and references\<close>

text \<open>The matches of \<open>/[a-z0-9]+/g\<close>.\<close>

definition term_char :: "char \<Rightarrow> bool" where
  "term_char c \<longleftrightarrow> c \<in> set ''abcdefghijklmnopqrstuvwxyz0123456789''"

fun term_runs :: "string \<Rightarrow> string \<Rightarrow> string list" where
  "term_runs [] run = (if run = [] then [] else [rev run])"
| "term_runs (c # cs) run = (if term_char c then term_runs cs (c # run)
     else (if run = [] then [] else [rev run]) @ term_runs cs [])"

definition RETAINED_STOP_WORDS :: "string list" where
  "RETAINED_STOP_WORDS = [''about'', ''after'', ''again'', ''anything'', ''check'', ''could'', ''from'', ''have'',
     ''into'', ''latest'', ''more'', ''should'', ''that'', ''their'', ''them'', ''this'',
     ''what'', ''when'', ''which'', ''with'', ''would'']"

definition OUTCOME_STOP_WORDS :: "string list" where
  "OUTCOME_STOP_WORDS = [''check'', ''find'', ''handle'', ''latest'', ''lookup'', ''remind'', ''research'',
     ''result'', ''summary'', ''task'', ''verify'', ''worker'']"

definition normalizedOutcomeTerms :: "string \<Rightarrow> string list" where
  "normalizedOutcomeTerms v = filter (\<lambda>t. 3 \<le> length t \<and> t \<notin> set OUTCOME_STOP_WORDS) (term_runs (js_lower v) [])"

definition retainedTerms :: "string \<Rightarrow> string list" where
  "retainedTerms v = filter (\<lambda>w. 4 \<le> length w \<and> w \<notin> set RETAINED_STOP_WORDS) (term_runs (js_lower v) [])"

definition STRONG_FOLLOW_UP_REFERENCE :: rx where
  "STRONG_FOLLOW_UP_REFERENCE = RSeq RWordB (RSeq (rx_any
     [rx_lit ''which one'', rx_lit ''those'', rx_lit ''them'', rx_lit ''the top'', rx_lit ''the first'', rx_lit ''the second'',
      rx_lit ''tell me more'', rx_lit ''more detail'',
      RSeq (rx_lit ''follow'') (RSeq (RAlt (RCls (\<lambda>c. c = CHR ''-'' \<or> c = CHR '' '')) REps) (rx_lit ''up'')),
      RSeq (rx_lit ''what '') (rx_any [rx_lit ''do'', rx_lit ''should'', rx_lit ''would'', rx_lit ''about'']),
      RSeq (rx_lit ''and '') (rx_any [rx_lit ''what'', rx_lit ''which'', rx_lit ''why'', rx_lit ''how''])]) RWordB)"

definition WEAK_FOLLOW_UP_REFERENCE :: rx where
  "WEAK_FOLLOW_UP_REFERENCE = rx_words [''that one'', ''it'', ''actually'']"

text \<open>\<open>sort\<close> by \<open>retainedAt ?? 0\<close>, newest first; both sorts are stable.\<close>

definition retained_time :: "subagent_entry \<Rightarrow> int" where
  "retained_time e = (case su_retainedAt e of Some t \<Rightarrow> t | None \<Rightarrow> 0)"

definition newest_first :: "subagent_entry list \<Rightarrow> subagent_entry list" where
  "newest_first es = sort_key (\<lambda>e. - retained_time e) es"

definition selectRetainedForPrompt :: "subagent_entry list \<Rightarrow> string \<Rightarrow> nat \<Rightarrow> subagent_entry list" where
  "selectRetainedForPrompt entries prompt maximum =
     (let ordered = newest_first entries; query = retainedTerms prompt;
          matching = filter (\<lambda>e. let candidate = retainedTerms (su_description e @ '' '' @
              (case su_result e of Some r \<Rightarrow> r | None \<Rightarrow> [])) in list_ex (\<lambda>w. w \<in> set candidate) query) ordered;
          chosen = (if matching \<noteq> [] then matching else ordered) in
      if rx_test STRONG_FOLLOW_UP_REFERENCE (js_lower prompt) then take maximum chosen
      else if rx_test WEAK_FOLLOW_UP_REFERENCE (js_lower prompt) then take 1 chosen
      else take maximum matching)"

definition freshRetainedEntries :: "subagent_entry list \<Rightarrow> int \<Rightarrow> nat \<Rightarrow> int \<Rightarrow> subagent_entry list" where
  "freshRetainedEntries entries now maximum ttlMs =
     take maximum (newest_first (filter (\<lambda>e. now - ttlMs \<le> retained_time e) entries))"

text \<open>Whether a message redirects or removes work.\<close>

definition the_work :: "string list \<Rightarrow> rx" where
  "the_work ws = RSeq (rx_lit ''the'') (RSeq (rx_plus rx_space) (rx_any (map rx_lit ws)))"

definition CANCEL_PHRASES :: "rx list" where
  "CANCEL_PHRASES =
     [RSeq RWordB (RSeq (rx_any (map rx_lit [''cancel'', ''drop'', ''skip'', ''ignore'', ''remove'']))
        (RSeq (rx_plus rx_space) (RSeq (rx_any [rx_lit ''it'', rx_lit ''that'', rx_lit ''this'',
            the_work [''task'', ''work'', ''request'', ''search''], RSeq (rx_lit ''task_'') (rx_plus (RCls is_digit))]) RWordB))),
      RSeq RWordB (RSeq (rx_any (map rx_lit [''do'', ''handle'', ''work on'', ''focus on'']))
        (RSeq (rx_plus rx_space) (RSeq (rx_any [rx_lit ''this'', rx_lit ''that'',
            RSeq (rx_lit ''the new '') (rx_any [rx_lit ''task'', rx_lit ''request''])])
          (RSeq (rx_plus rx_space) (RSeq (rx_lit ''instead'') RWordB))))),
      RSeq RWordB (RSeq (rx_lit ''instead'') (RSeq (rx_plus rx_space) (RSeq (rx_lit ''of'') (RSeq (rx_plus rx_space)
        (RSeq (rx_any [rx_lit ''that'', rx_lit ''this'', the_work [''task'', ''work'', ''request'', ''search'']]) RWordB))))),
      RSeq RWordB (RSeq (rx_any [rx_lit ''do not'', RSeq (rx_lit ''don'') (RSeq (RCls (\<lambda>c. c = CHR 0x27)) (rx_lit ''t'')),
            rx_lit ''no longer''])
        (RSeq (rx_plus rx_space) (RSeq (rx_any (map rx_lit [''continue'', ''do'', ''handle'', ''work on'', ''need''])) RWordB))),
      RSeq RWordB (RSeq (rx_lit ''replace'') (RSeq (rx_plus rx_space)
        (RSeq (rx_any [rx_lit ''it'', rx_lit ''that'', rx_lit ''this'', the_work [''task'', ''work'', ''request'', ''search'']]) RWordB)))]"

definition message_words :: "user_content \<Rightarrow> string" where
  "message_words c = (case c of UText t \<Rightarrow> t
     | UBlocks bs \<Rightarrow> js_join '' '' (map (\<lambda>b. case b of TextBlock t \<Rightarrow> t | ImageBlock _ _ \<Rightarrow> []) bs))"

definition authorizesCancellation :: "inference_message \<Rightarrow> bool" where
  "authorizesCancellation m = (case m of
     UserMsg u \<Rightarrow> (let text = js_trim (squeeze (js_lower (message_words (um_content u)))) in
       list_ex (\<lambda>r. rx_test r text) CANCEL_PHRASES)
   | _ \<Rightarrow> False)"

section \<open>The fleet\<close>

text \<open>A wait of the parent: the tasks final when it began, and how it ended once it has.\<close>

datatype wait_outcome = WaitNews | WaitSteered | WaitTimeout

record waiter =
  wt_before :: "string list"
  wt_listens :: bool  \<comment> \<open>subscribed to steering\<close>
  wt_outcome :: "wait_outcome option"

record fleet =
  fl_entries :: "(string \<times> subagent_entry) list"
  fl_counter :: nat
  fl_cancel :: "string \<rightharpoonup> string"  \<comment> \<open>the run that the cancel function of a task cancels\<close>
  fl_outbox :: "inference_message list"
  fl_control :: "run_control option"
  fl_own :: "bool list"  \<comment> \<open>which queued messages are the fleet's\<close>
  fl_steered :: bool  \<comment> \<open>\<open>#cancellationSteeringAvailable\<close>\<close>
  fl_waiters :: "(nat \<times> waiter) list"
  fl_following :: "string list"
  fl_finishing :: "string list"  \<comment> \<open>settled, with the \<open>finally\<close> still to come\<close>

definition fleet_entry :: "string \<Rightarrow> fleet \<Rightarrow> subagent_entry option" where
  "fleet_entry name f = map_of (fl_entries f) name"

definition roster :: "fleet \<Rightarrow> subagent_entry list" where
  "roster f = map snd (fl_entries f)"

definition outstanding :: "fleet \<Rightarrow> subagent_entry list" where
  "outstanding f = filter (\<lambda>e. \<not> isFinal (su_status e)) (roster f)"

definition final_names :: "fleet \<Rightarrow> string list" where
  "final_names f = map su_name (filter (\<lambda>e. isFinal (su_status e)) (roster f))"

text \<open>\<open>/^subagent_(\d+)$/\<close>.\<close>

definition subagent_number :: "string \<Rightarrow> nat option" where
  "subagent_number name = (if take 9 name = ''subagent_'' \<and> all_digits (drop 9 name) then Some (read_nat (drop 9 name)) else None)"

definition empty_fleet :: fleet where
  "empty_fleet = \<lparr>fl_entries = [], fl_counter = 0, fl_cancel = Map.empty, fl_outbox = [], fl_control = None, fl_own = [],
     fl_steered = False, fl_waiters = [], fl_following = [], fl_finishing = []\<rparr>"

fun carry_retained :: "subagent_entry list \<Rightarrow> fleet \<Rightarrow> fleet" where
  "carry_retained [] f = f"
| "carry_retained (e # es) f = carry_retained es
     (if su_status e \<noteq> SubCompleted \<or> su_retained e = None \<or> su_retained e = Some [] then f
      else f\<lparr>fl_entries := map_set (su_name e) e (fl_entries f),
        fl_counter := (case subagent_number (su_name e) of Some n \<Rightarrow> max (fl_counter f) n | None \<Rightarrow> fl_counter f)\<rparr>)"

definition new_fleet :: "subagent_entry list \<Rightarrow> fleet" where
  "new_fleet retained = carry_retained retained empty_fleet"

section \<open>Posting\<close>

text \<open>A message that joins the queue; the listeners of the waits and of \<open>attach\<close> skip the fleet's own.\<close>

definition wake :: "wait_outcome \<Rightarrow> waiter \<Rightarrow> waiter" where
  "wake out w = (if wt_outcome w = None then w\<lparr>wt_outcome := Some out\<rparr> else w)"

definition wake_all :: "wait_outcome \<Rightarrow> (waiter \<Rightarrow> bool) \<Rightarrow> fleet \<Rightarrow> fleet" where
  "wake_all out p f = f\<lparr>fl_waiters := map (\<lambda>(n, w). (n, if p w then wake out w else w)) (fl_waiters f)\<rparr>"

definition steer_own :: "inference_message \<Rightarrow> run_control \<Rightarrow> fleet \<Rightarrow> (string, unit) result \<times> fleet" where
  "steer_own m c f = (case steer m c of
     Inl e \<Rightarrow> (Inl e, f)
   | Inr (_, c') \<Rightarrow> (Inr (), f\<lparr>fl_control := Some c', fl_own := fl_own f @ [True]\<rparr>))"

text \<open>The loop over the spliced outbox: what follows a message that is refused is lost with it.\<close>

fun post_all :: "inference_message list \<Rightarrow> fleet \<Rightarrow> (string, unit) result \<times> fleet" where
  "post_all [] f = (Inr (), f)"
| "post_all (m # ms) f = (case fl_control f of
     None \<Rightarrow> (Inr (), f)
   | Some c \<Rightarrow> (case steer_own m c f of (Inl e, f') \<Rightarrow> (Inl e, f') | (Inr _, f') \<Rightarrow> post_all ms f'))"

definition flush :: "fleet \<Rightarrow> (string, unit) result \<times> fleet" where
  "flush f = (case fl_control f of
     None \<Rightarrow> (Inr (), f)
   | Some c \<Rightarrow> if control_aborted c then (Inr (), f) else post_all (fl_outbox f) (f\<lparr>fl_outbox := []\<rparr>))"

definition attach :: "run_control \<Rightarrow> fleet \<Rightarrow> (string, unit) result \<times> fleet" where
  "attach c f = flush (f\<lparr>fl_control := Some (on_steer 0 c), fl_own := replicate (length (steering c)) False,
     fl_steered := fl_steered f \<or> list_ex authorizesCancellation (peek_steering c)\<rparr>)"

text \<open>The host steers the parent's run.\<close>

definition host_steer :: "inference_message \<Rightarrow> fleet \<Rightarrow> (string, unit) result \<times> fleet" where
  "host_steer m f = (case fl_control f of
     None \<Rightarrow> (Inr (), f)
   | Some c \<Rightarrow> (case steer m c of
       Inl e \<Rightarrow> (Inl e, f)
     | Inr (_, c') \<Rightarrow> (Inr (), wake_all WaitSteered wt_listens
         (f\<lparr>fl_control := Some c', fl_own := fl_own f @ [False], fl_steered := fl_steered f \<or> authorizesCancellation m\<rparr>))))"

section \<open>Operations\<close>

definition consumeExternalSteering :: "fleet \<Rightarrow> bool \<times> fleet" where
  "consumeExternalSteering f = (fl_steered f, f\<lparr>fl_steered := False\<rparr>)"

definition missingOutcomes :: "string \<Rightarrow> fleet \<Rightarrow> subagent_entry list" where
  "missingOutcomes answer f =
     (let done = filter (\<lambda>e. isFinal (su_status e)) (roster f) in
      if length done < 2 then []
      else let haystack = normalizedOutcomeTerms answer in
        filter (\<lambda>e. let terms = normalizedOutcomeTerms (su_description e) in
          terms \<noteq> [] \<and> \<not> list_ex (\<lambda>t. t \<in> set haystack) terms) done)"

definition spawn :: "string \<Rightarrow> string \<Rightarrow> fleet \<Rightarrow> subagent_entry \<times> fleet" where
  "spawn description runId f =
     (let n = Suc (fl_counter f);
          e = \<lparr>su_name = ''subagent_'' @ show_nat n, su_description = description, su_runId = runId, su_status = SubRunning,
            su_result = None, su_retained = None, su_retainedAt = None\<rparr> in
      (e, f\<lparr>fl_counter := n, fl_entries := map_set (su_name e) e (fl_entries f)\<rparr>))"

definition update_entry :: "string \<Rightarrow> (subagent_entry \<Rightarrow> subagent_entry) \<Rightarrow> fleet \<Rightarrow> fleet" where
  "update_entry name g f = f\<lparr>fl_entries := map (\<lambda>(k, e). (k, if k = name then g e else e)) (fl_entries f)\<rparr>"

definition storeRetained :: "int \<Rightarrow> string \<Rightarrow> inference_message list \<Rightarrow> fleet \<Rightarrow> fleet" where
  "storeRetained now name ms f = update_entry name (\<lambda>e. e\<lparr>su_retained := Some ms, su_retainedAt := Some now\<rparr>) f"

text \<open>The runtime names a task anew when it dispatches it: \<open>entry.description = request.description\<close>.\<close>

definition describe :: "string \<Rightarrow> string \<Rightarrow> fleet \<Rightarrow> fleet" where
  "describe name d f = update_entry name (\<lambda>e. e\<lparr>su_description := d\<rparr>) f"

definition retainedRoster :: "fleet \<Rightarrow> subagent_entry list" where
  "retainedRoster f = filter (\<lambda>e. su_status e = SubCompleted \<and> su_retained e \<noteq> None \<and> su_retained e \<noteq> Some []) (roster f)"

definition resume :: "string \<Rightarrow> string \<Rightarrow> inference_message list option \<Rightarrow> fleet \<Rightarrow> subagent_entry option \<times> fleet" where
  "resume name runId retained f =
     (let f' = update_entry name (\<lambda>e. e\<lparr>su_status := SubRunning, su_result := None, su_runId := runId,
            su_retained := retained\<rparr>) f in
      (fleet_entry name f', f'))"

definition settle_task :: "(json \<Rightarrow> string) \<Rightarrow> string \<Rightarrow> subagent_status \<Rightarrow> string \<Rightarrow> fleet \<Rightarrow> (string, unit) result \<times> fleet" where
  "settle_task stringify name status res f =
     (case fleet_entry name f of
        None \<Rightarrow> (Inr (), f)
      | Some e \<Rightarrow>
          if isFinal (su_status e) then (Inr (), f)
          else
            let e' = e\<lparr>su_status := status, su_result := Some res\<rparr>; f' = update_entry name (\<lambda>_. e') f in
            (case flush (f'\<lparr>fl_outbox := fl_outbox f' @ [notification stringify e']\<rparr>) of
               (Inl err, f'') \<Rightarrow> (Inl err, f'')
             | (Inr _, f'') \<Rightarrow> (Inr (), wake_all WaitNews (\<lambda>_. True) f'')))"

definition track :: "string \<Rightarrow> string option \<Rightarrow> fleet \<Rightarrow> fleet" where
  "track name cancels f = f\<lparr>fl_cancel := (case cancels of Some r \<Rightarrow> (fl_cancel f)(name \<mapsto> r) | None \<Rightarrow> fl_cancel f),
     fl_following := fl_following f @ [name]\<rparr>"

text \<open>
  The run a promise follows ends, with its status and text or with an exception.  When \<open>settle_task\<close> throws the
  handler of failures settles again, which finds the entry final.
\<close>

definition followed_run_ends :: "(json \<Rightarrow> string) \<Rightarrow> string \<Rightarrow> (string, string \<times> string) result \<Rightarrow> fleet \<Rightarrow> fleet" where
  "followed_run_ends stringify name out f =
     (let f1 = f\<lparr>fl_following := remove1 name (fl_following f), fl_finishing := fl_finishing f @ [name]\<rparr> in
      case out of
        Inr (status, text) \<Rightarrow> (case settle_task stringify name (subagentStatus status) text f1 of
          (Inl err, f2) \<Rightarrow> snd (settle_task stringify name SubFailed err f2)
        | (Inr _, f2) \<Rightarrow> f2)
      | Inl err \<Rightarrow> snd (settle_task stringify name SubFailed err f1))"

text \<open>The \<open>finally\<close> of the promise.\<close>

definition drop_cancel :: "string \<Rightarrow> fleet \<Rightarrow> fleet" where
  "drop_cancel name f = f\<lparr>fl_finishing := remove1 name (fl_finishing f), fl_cancel := (fl_cancel f)(name := None)\<rparr>"

text \<open>The result names the tasks; the runs cancelled come with it.\<close>

fun cancel_each :: "string list \<Rightarrow> fleet \<Rightarrow> (string list \<times> string list \<times> string list) \<times> fleet" where
  "cancel_each [] f = (([], [], []), f)"
| "cancel_each (name # names) f =
     (case (fleet_entry name f, fl_cancel f name) of
        (Some e, Some r) \<Rightarrow>
          if su_status e = SubRunning
          then (case cancel_each names (f\<lparr>fl_cancel := (fl_cancel f)(name := None)\<rparr>) of
            ((cs, us, rs), f') \<Rightarrow> ((name # cs, us, r # rs), f'))
          else (case cancel_each names f of ((cs, us, rs), f') \<Rightarrow> ((cs, name # us, rs), f'))
      | _ \<Rightarrow> (case cancel_each names f of ((cs, us, rs), f') \<Rightarrow> ((cs, name # us, rs), f')))"

definition cancel_tasks :: "string list \<Rightarrow> fleet \<Rightarrow> (string list \<times> string list \<times> string list) \<times> fleet" where
  "cancel_tasks names f = cancel_each (rev (remdups (rev names))) f"

definition takePost :: "fleet \<Rightarrow> inference_message list \<times> fleet" where
  "takePost f = (case fl_control f of
     None \<Rightarrow> (fl_outbox f, f\<lparr>fl_outbox := []\<rparr>)
   | Some c \<Rightarrow> (case drain_steering c of (ms, c') \<Rightarrow>
       (ms @ fl_outbox f, f\<lparr>fl_control := Some c', fl_own := [], fl_outbox := []\<rparr>)))"

section \<open>Waiting\<close>

record wait_result =
  wr_updated :: "string list"
  wr_timedOut :: bool
  wr_steered :: bool

definition moved :: "string list \<Rightarrow> fleet \<Rightarrow> string list" where
  "moved before f = filter (\<lambda>n. n \<notin> set before) (final_names f)"

definition externallySteered :: "fleet \<Rightarrow> bool" where
  "externallySteered f \<longleftrightarrow> fl_control f \<noteq> None \<and> list_ex (\<lambda>b. \<not> b) (fl_own f)"

text \<open>\<open>waitForNews\<close> up to its promise: an answer at once, or a wait under the identifier given.\<close>

definition wait_begin :: "nat \<Rightarrow> fleet \<Rightarrow> (wait_result, unit) result \<times> fleet" where
  "wait_begin i f =
     (let before = final_names f in
      if moved before f \<noteq> [] \<or> outstanding f = []
      then (Inl \<lparr>wr_updated = moved before f, wr_timedOut = False, wr_steered = False\<rparr>, f)
      else if externallySteered f
      then (Inl \<lparr>wr_updated = moved before f, wr_timedOut = False, wr_steered = True\<rparr>, f)
      else (Inr (), f\<lparr>fl_waiters := fl_waiters f @
        [(i, \<lparr>wt_before = before, wt_listens = fl_control f \<noteq> None, wt_outcome = None\<rparr>)]\<rparr>))"

text \<open>The timer or the abort of a wait (\<open>news\<close>), and its return once it has an outcome.\<close>

definition wait_fires :: "nat \<Rightarrow> wait_outcome \<Rightarrow> fleet \<Rightarrow> fleet" where
  "wait_fires i out f = f\<lparr>fl_waiters := map (\<lambda>(n, w). (n, if n = i then wake out w else w)) (fl_waiters f)\<rparr>"

definition wait_return :: "nat \<Rightarrow> fleet \<Rightarrow> wait_result option \<times> fleet" where
  "wait_return i f = (case map_of (fl_waiters f) i of
     None \<Rightarrow> (None, f)
   | Some w \<Rightarrow> (case wt_outcome w of
       None \<Rightarrow> (None, f)
     | Some out \<Rightarrow> (Some \<lparr>wr_updated = moved (wt_before w) f, wr_timedOut = (out = WaitTimeout), wr_steered = (out = WaitSteered)\<rparr>,
         f\<lparr>fl_waiters := filter (\<lambda>x. fst x \<noteq> i) (fl_waiters f)\<rparr>)))"

text \<open>One turn of the loop of \<open>settleOutstandingOrSteered\<close> is left when it may end.\<close>

definition may_end_waiting :: "bool \<Rightarrow> wait_result option \<Rightarrow> fleet \<Rightarrow> bool" where
  "may_end_waiting aborted news f \<longleftrightarrow> outstanding f = [] \<or> aborted \<or> (case news of Some r \<Rightarrow> wr_steered r | None \<Rightarrow> False)"

section \<open>The machine\<close>

text \<open>
  What happens to a fleet, with a history kept for the statements only: the reports of settled tasks in
  order with the task of each, the tasks dispatched, and the fleet's messages the run has taken.  A resumption
  is guarded as the runtime guards it: the task is final and its messages were retained.
\<close>

record fleet_history =
  fh_settled :: "(string \<times> inference_message) list"
  fh_dispatched :: "string list"
  fh_handed :: "inference_message list"

text \<open>The fleet's messages in the queue of the handle.\<close>

definition own_queued :: "fleet \<Rightarrow> inference_message list" where
  "own_queued f = (case fl_control f of None \<Rightarrow> [] | Some c \<Rightarrow> map snd (filter fst (zip (fl_own f) (steering c))))"

text \<open>The report \<open>settle_task\<close> adds, if it does.\<close>

definition settled_report :: "(json \<Rightarrow> string) \<Rightarrow> string \<Rightarrow> subagent_status \<Rightarrow> string \<Rightarrow> fleet \<Rightarrow> (string \<times> inference_message) list" where
  "settled_report stringify name status res f = (case fleet_entry name f of
     None \<Rightarrow> []
   | Some e \<Rightarrow> if isFinal (su_status e) then [] else [(name, notification stringify (e\<lparr>su_status := status, su_result := Some res\<rparr>))])"

definition outcome_report :: "(json \<Rightarrow> string) \<Rightarrow> string \<Rightarrow> (string, string \<times> string) result \<Rightarrow> fleet \<Rightarrow> (string \<times> inference_message) list" where
  "outcome_report stringify name out f = (case out of
     Inr (status, text) \<Rightarrow> settled_report stringify name (subagentStatus status) text f
   | Inl err \<Rightarrow> settled_report stringify name SubFailed err f)"

text \<open>The runner drains or seals the handle, or the host cancels the run.\<close>

definition on_control :: "(run_control \<Rightarrow> run_control) \<Rightarrow> fleet \<Rightarrow> fleet" where
  "on_control g f = f\<lparr>fl_control := map_option g (fl_control f)\<rparr>"

definition runner_drains :: "fleet \<Rightarrow> fleet" where
  "runner_drains f = on_control (\<lambda>c. snd (drain_steering c)) (f\<lparr>fl_own := []\<rparr>)"

inductive fleet_step :: "(json \<Rightarrow> string) \<Rightarrow> fleet \<times> fleet_history \<Rightarrow> fleet \<times> fleet_history \<Rightarrow> bool" for stringify where
  step_attach: "fl_control f = None \<Longrightarrow> fleet_step stringify (f, h) (snd (attach new_control f), h)"
| step_spawn: "spawn d r f = (e, f') \<Longrightarrow> fleet_step stringify (f, h) (f', h\<lparr>fh_dispatched := fh_dispatched h @ [su_name e]\<rparr>)"
| step_resume: "fleet_entry name f = Some e \<Longrightarrow> isFinal (su_status e) \<Longrightarrow> su_retained e \<noteq> None \<Longrightarrow>
    fleet_step stringify (f, h) (snd (resume name r None f), h\<lparr>fh_dispatched := fh_dispatched h @ [name]\<rparr>)"
| step_describe: "fleet_step stringify (f, h) (describe name d f, h)"
| step_retain: "fleet_step stringify (f, h) (storeRetained now name ms f, h)"
| step_track: "fleet_step stringify (f, h) (track name cs f, h)"
| step_settle: "fleet_step stringify (f, h) (snd (settle_task stringify name SubFailed res f),
    h\<lparr>fh_settled := fh_settled h @ settled_report stringify name SubFailed res f\<rparr>)"
| step_run_ends: "name \<in> set (fl_following f) \<Longrightarrow> fleet_step stringify (f, h) (followed_run_ends stringify name out f,
    h\<lparr>fh_settled := fh_settled h @ outcome_report stringify name out f\<rparr>)"
| step_drop: "fleet_step stringify (f, h) (drop_cancel name f, h)"
| step_cancel: "fleet_step stringify (f, h) (snd (cancel_tasks names f), h)"
| step_steer: "fleet_step stringify (f, h) (snd (host_steer m f), h)"
| step_consume: "fleet_step stringify (f, h) (snd (consumeExternalSteering f), h)"
| step_take: "fleet_step stringify (f, h) (snd (takePost f), h\<lparr>fh_handed := fh_handed h @ own_queued f @ fl_outbox f\<rparr>)"
| step_drain: "fleet_step stringify (f, h) (runner_drains f, h\<lparr>fh_handed := fh_handed h @ own_queued f\<rparr>)"
| step_seal: "fleet_step stringify (f, h) (on_control (\<lambda>c. snd (seal_steering_if_empty c)) f, h)"
| step_abort: "fleet_step stringify (f, h) (on_control (cancel reason) f, h)"
| step_wait: "fleet_step stringify (f, h) (snd (wait_begin i f), h)"
| step_fires: "fleet_step stringify (f, h) (wait_fires i out f, h)"
| step_return: "fleet_step stringify (f, h) (snd (wait_return i f), h)"

definition new_history :: fleet_history where
  "new_history = \<lparr>fh_settled = [], fh_dispatched = [], fh_handed = []\<rparr>"

definition fleet_reachable :: "(json \<Rightarrow> string) \<Rightarrow> subagent_entry list \<Rightarrow> fleet \<times> fleet_history \<Rightarrow> bool" where
  "fleet_reachable stringify retained s \<longleftrightarrow> (fleet_step stringify)\<^sup>*\<^sup>* (new_fleet retained, new_history) s"

section \<open>What a post does\<close>

text \<open>The handle takes messages; the flags of its queue are in step with it; a sealed queue is empty.\<close>

definition open_fleet :: "fleet \<Rightarrow> bool" where
  "open_fleet f \<longleftrightarrow> (case fl_control f of None \<Rightarrow> True | Some c \<Rightarrow> accepting_steering c)"

definition queue_in_step :: "fleet \<Rightarrow> bool" where
  "queue_in_step f \<longleftrightarrow> (case fl_control f of None \<Rightarrow> fl_own f = []
     | Some c \<Rightarrow> length (fl_own f) = length (steering c) \<and> (\<not> accepting_steering c \<longrightarrow> steering c = []))"

definition pending_posts :: "fleet \<Rightarrow> inference_message list" where
  "pending_posts f = own_queued f @ fl_outbox f"

lemma own_flags: "map snd (filter fst (zip (replicate (length ms) True) ms)) = ms"
  by (induction ms) auto

lemma own_queued_append:
  "length (fl_own f) = length (steering c) \<Longrightarrow> length bs = length ms \<Longrightarrow>
   own_queued (f\<lparr>fl_control := Some (c\<lparr>steering := steering c @ ms\<rparr>), fl_own := fl_own f @ bs\<rparr>) =
     map snd (filter fst (zip (fl_own f) (steering c))) @ map snd (filter fst (zip bs ms))"
  by (simp add: own_queued_def)

lemma post_all_open:
  assumes "fl_control f = Some c" and "\<not> control_aborted c" and "accepting_steering c"
  shows "post_all ms f = (Inr (), f\<lparr>fl_control := Some (c\<lparr>steering := steering c @ ms\<rparr>),
    fl_own := fl_own f @ replicate (length ms) True\<rparr>)"
  using assms
proof (induction ms arbitrary: f c)
  case (Cons m ms)
  then show ?case
    by (simp add: steer_own_def steer_def control_aborted_def)
qed simp

lemma post_all_sealed:
  assumes "fl_control f = Some c" and "\<not> control_aborted c" and "\<not> accepting_steering c"
  shows "snd (post_all ms f) = f"
  using assms by (cases ms) (auto simp: steer_own_def steer_def)

lemma flush_cases:
  obtains (kept) "flush f = (Inr (), f)" "fl_control f = None \<or> (\<exists>c. fl_control f = Some c \<and> control_aborted c)"
  | (posted) c where "fl_control f = Some c" "accepting_steering c"
      "flush f = (Inr (), f\<lparr>fl_outbox := [], fl_control := Some (c\<lparr>steering := steering c @ fl_outbox f\<rparr>),
        fl_own := fl_own f @ replicate (length (fl_outbox f)) True\<rparr>)"
  | (lost) c where "fl_control f = Some c" "\<not> accepting_steering c" "snd (flush f) = f\<lparr>fl_outbox := []\<rparr>"
proof (cases "fl_control f")
  case None
  then show thesis by (intro kept) (simp_all add: flush_def)
next
  case (Some c)
  show thesis
  proof (cases "control_aborted c")
    case True
    with Some show thesis by (intro kept) (auto simp: flush_def)
  next
    case False
    show thesis
    proof (cases "accepting_steering c")
      case True
      with Some False show thesis by (intro posted) (simp_all add: flush_def post_all_open)
    next
      case sealed: False
      with Some False show thesis by (intro lost) (simp_all add: flush_def post_all_sealed)
    qed
  qed
qed

text \<open>A flush moves the outbox to the queue, and only a sealed handle loses it.\<close>

lemma flush_effect:
  assumes "queue_in_step f"
  shows "queue_in_step (snd (flush f)) \<and> open_fleet (snd (flush f)) = open_fleet f \<and>
    fl_entries (snd (flush f)) = fl_entries f \<and> fl_counter (snd (flush f)) = fl_counter f \<and>
    (pending_posts (snd (flush f)) = pending_posts f \<or> \<not> open_fleet f \<and> pending_posts (snd (flush f)) = [])"
proof (cases rule: flush_cases [of f])
  case kept
  with assms show ?thesis by simp
next
  case (posted c)
  then have len: "length (fl_own f) = length (steering c)"
    using assms by (simp add: queue_in_step_def)
  with posted show ?thesis
    by (simp add: queue_in_step_def open_fleet_def pending_posts_def own_queued_def own_flags)
next
  case (lost c)
  with assms show ?thesis
    by (simp add: queue_in_step_def open_fleet_def pending_posts_def own_queued_def)
qed

lemma wake_all_frame [simp]:
  "fl_control (wake_all o' p f) = fl_control f" "fl_own (wake_all o' p f) = fl_own f"
  "fl_outbox (wake_all o' p f) = fl_outbox f" "fl_entries (wake_all o' p f) = fl_entries f"
  "fl_counter (wake_all o' p f) = fl_counter f"
  by (simp_all add: wake_all_def)

lemma update_entry_frame [simp]:
  "fl_control (update_entry n g f) = fl_control f" "fl_own (update_entry n g f) = fl_own f"
  "fl_outbox (update_entry n g f) = fl_outbox f" "fl_counter (update_entry n g f) = fl_counter f"
  "map fst (fl_entries (update_entry n g f)) = map fst (fl_entries f)"
  by (auto simp: update_entry_def)

lemma fleet_entry_update:
  "fleet_entry k (update_entry n g f) = (if k = n then map_option g (fleet_entry n f) else fleet_entry k f)"
proof -
  have "map_of (map (\<lambda>(k, e). (k, if k = n then g e else e)) xs) k = (if k = n then map_option g (map_of xs n) else map_of xs k)"
    for xs :: "(string \<times> subagent_entry) list"
    by (induction xs) auto
  then show ?thesis by (simp add: fleet_entry_def update_entry_def)
qed

text \<open>States that agree on what is posted.\<close>

definition same_posts :: "fleet \<Rightarrow> fleet \<Rightarrow> bool" where
  "same_posts f f' \<longleftrightarrow> fl_control f' = fl_control f \<and> fl_own f' = fl_own f \<and> fl_outbox f' = fl_outbox f"

lemma same_posts_facts:
  assumes "same_posts f f'"
  shows "queue_in_step f' = queue_in_step f" "open_fleet f' = open_fleet f" "pending_posts f' = pending_posts f"
  using assms by (auto simp: same_posts_def queue_in_step_def open_fleet_def pending_posts_def own_queued_def split: option.split)

definition posts_change :: "inference_message list \<Rightarrow> fleet \<Rightarrow> fleet \<Rightarrow> bool" where
  "posts_change new f f' \<longleftrightarrow> queue_in_step f' \<and> (open_fleet f' \<longrightarrow> open_fleet f) \<and>
     (pending_posts f' = pending_posts f @ new \<or> \<not> open_fleet f \<and> pending_posts f' = [])"

lemma same_posts_change: "same_posts f f' \<Longrightarrow> queue_in_step f \<Longrightarrow> posts_change [] f f'"
  by (simp add: posts_change_def same_posts_facts)

section \<open>What a settlement does\<close>

lemma settle_final: "map_option su_status (fleet_entry name f) \<noteq> Some SubRunning \<Longrightarrow> settle_task stringify name st r f = (Inr (), f)"
  by (auto simp: settle_task_def isFinal_def split: option.split)

lemma settle_running:
  fixes st r
  assumes "fleet_entry name f = Some e" and "su_status e = SubRunning"
  defines "e' \<equiv> e\<lparr>su_status := st, su_result := Some r\<rparr>"
  shows "settled_report stringify name st r f = [(name, notification stringify e')]"
    and "fl_entries (snd (settle_task stringify name st r f)) = fl_entries (update_entry name (\<lambda>_. e') f)"
    and "fl_counter (snd (settle_task stringify name st r f)) = fl_counter f"
    and "queue_in_step f \<Longrightarrow> posts_change [notification stringify e'] f (snd (settle_task stringify name st r f))"
proof -
  let ?n = "notification stringify e'"
  let ?f = "(update_entry name (\<lambda>_. e') f)\<lparr>fl_outbox := fl_outbox f @ [?n]\<rparr>"
  show "settled_report stringify name st r f = [(name, ?n)]"
    using assms by (simp add: settled_report_def isFinal_def)
  obtain res g where g: "flush ?f = (res, g)" by (cases "flush ?f")
  have set: "snd (settle_task stringify name st r f) = (case res of Inl _ \<Rightarrow> g | Inr _ \<Rightarrow> wake_all WaitNews (\<lambda>_. True) g)"
    using assms(1,2) g by (auto simp: settle_task_def isFinal_def e'_def Let_def split: sum.splits)
  have frame: "fl_entries g = fl_entries ?f \<and> fl_counter g = fl_counter ?f"
    using g by (cases rule: flush_cases [of ?f]) auto
  show "fl_entries (snd (settle_task stringify name st r f)) = fl_entries (update_entry name (\<lambda>_. e') f)"
    "fl_counter (snd (settle_task stringify name st r f)) = fl_counter f"
    unfolding set using frame by (simp_all split: sum.split)
  assume "queue_in_step f"
  then have "queue_in_step ?f" by (simp add: queue_in_step_def cong: option.case_cong)
  from flush_effect [OF this] g have "posts_change [] ?f g" by (simp add: posts_change_def)
  moreover have "pending_posts ?f = pending_posts f @ [?n]" "open_fleet ?f = open_fleet f"
    by (simp_all add: pending_posts_def own_queued_def open_fleet_def cong: option.case_cong)
  moreover have "same_posts g (wake_all WaitNews (\<lambda>_. True) g)" by (simp add: same_posts_def)
  ultimately show "posts_change [?n] f (snd (settle_task stringify name st r f))"
    unfolding set by (auto simp: posts_change_def same_posts_facts split: sum.split)
qed

definition running :: "string \<Rightarrow> fleet \<Rightarrow> bool" where
  "running name f \<longleftrightarrow> map_option su_status (fleet_entry name f) = Some SubRunning"

lemma settle_effect:
  assumes "queue_in_step f" and "isFinal st"
  shows "posts_change (map snd (settled_report stringify name st r f)) f (snd (settle_task stringify name st r f)) \<and>
    map fst (settled_report stringify name st r f) = (if running name f then [name] else []) \<and>
    (\<forall>k. running k (snd (settle_task stringify name st r f)) \<longleftrightarrow> running k f \<and> k \<noteq> name) \<and>
    map fst (fl_entries (snd (settle_task stringify name st r f))) = map fst (fl_entries f) \<and>
    fl_counter (snd (settle_task stringify name st r f)) = fl_counter f"
proof (cases "running name f")
  case False
  then have "settle_task stringify name st r f = (Inr (), f)" by (intro settle_final) (simp add: running_def)
  moreover have "settled_report stringify name st r f = []"
    using False by (auto simp: settled_report_def running_def isFinal_def split: option.split)
  ultimately show ?thesis using False assms(1) by (auto simp: same_posts_change same_posts_def)
next
  case True
  then obtain e where e: "fleet_entry name f = Some e" "su_status e = SubRunning" by (auto simp: running_def)
  note facts = settle_running [OF e, where stringify = stringify and st = st and r = r]
  have "fleet_entry k (snd (settle_task stringify name st r f)) =
      fleet_entry k (update_entry name (\<lambda>_. e\<lparr>su_status := st, su_result := Some r\<rparr>) f)" for k
    using facts(2) by (simp add: fleet_entry_def)
  then have "running k (snd (settle_task stringify name st r f)) \<longleftrightarrow> running k f \<and> k \<noteq> name" for k
    using e assms(2) by (auto simp: running_def fleet_entry_update isFinal_def)
  with facts True assms(1) show ?thesis by simp
qed

text \<open>The second settlement of a promise that failed to post changes nothing.\<close>

lemma ended_run_settles:
  assumes "queue_in_step f"
  shows "\<exists>st r. isFinal st \<and> outcome_report stringify name out f = settled_report stringify name st r f \<and>
    followed_run_ends stringify name out f = snd (settle_task stringify name st r
      (f\<lparr>fl_following := remove1 name (fl_following f), fl_finishing := fl_finishing f @ [name]\<rparr>))"
proof -
  let ?f = "f\<lparr>fl_following := remove1 name (fl_following f), fl_finishing := fl_finishing f @ [name]\<rparr>"
  have in_step: "queue_in_step ?f" using assms by (simp add: queue_in_step_def cong: option.case_cong)
  have again: "settle_task stringify name st' r' (snd (settle_task stringify name st r ?f)) = (Inr (), snd (settle_task stringify name st r ?f))"
    if "isFinal st" for st r st' r'
    using settle_effect [OF in_step that, of stringify name r] by (intro settle_final) (auto simp: running_def)
  show ?thesis
  proof (cases out)
    case (Inl err)
    then show ?thesis
      by (intro exI [of _ SubFailed] exI [of _ err]) (simp add: isFinal_def outcome_report_def followed_run_ends_def Let_def)
  next
    case (Inr p)
    then obtain status msg where p: "out = Inr (status, msg)" by (cases p) simp
    have "isFinal (subagentStatus status)" by (simp add: subagentStatus_def isFinal_def)
    moreover from again [OF this] p have "followed_run_ends stringify name out f =
        snd (settle_task stringify name (subagentStatus status) msg ?f)"
      by (auto simp: followed_run_ends_def Let_def split: prod.split sum.split) (metis prod.collapse snd_conv)+
    ultimately show ?thesis using p by (auto simp: outcome_report_def)
  qed
qed

section \<open>The other operations\<close>

lemma cancel_each_frame:
  "same_posts f (snd (cancel_each names f)) \<and> fl_entries (snd (cancel_each names f)) = fl_entries f \<and>
   fl_counter (snd (cancel_each names f)) = fl_counter f"
proof (induction names arbitrary: f)
  case (Cons name names)
  have "same_posts f g \<longleftrightarrow> same_posts (f\<lparr>fl_cancel := m\<rparr>) g" for m g by (simp add: same_posts_def)
  with Cons [of f] Cons [of "f\<lparr>fl_cancel := (fl_cancel f)(name := None)\<rparr>"] show ?case
    by (auto split: option.split prod.split)
qed (simp add: same_posts_def)

lemma quiet_operations:
  "same_posts f (snd (spawn d r f))" "same_posts f (snd (resume n r ms f))" "same_posts f (describe n d f)"
  "same_posts f (storeRetained t n xs f)" "same_posts f (track n cs f)" "same_posts f (drop_cancel n f)"
  "same_posts f (snd (cancel_tasks names f))" "same_posts f (snd (consumeExternalSteering f))"
  "same_posts f (snd (wait_begin i f))" "same_posts f (wait_fires i out f)" "same_posts f (snd (wait_return i f))"
  using cancel_each_frame [of f "rev (remdups (rev names))"]
  by (auto simp: same_posts_def spawn_def resume_def describe_def storeRetained_def track_def drop_cancel_def cancel_tasks_def
      consumeExternalSteering_def wait_begin_def wait_fires_def wait_return_def Let_def split: option.split)

lemma attach_posts:
  assumes "fl_control f = None" and "queue_in_step f"
  shows "posts_change [] f (snd (attach new_control f))"
proof -
  let ?g = "f\<lparr>fl_control := Some (on_steer 0 new_control), fl_own := replicate (length (steering new_control)) False,
     fl_steered := fl_steered f \<or> list_ex authorizesCancellation (peek_steering new_control)\<rparr>"
  have g: "queue_in_step ?g" "open_fleet ?g" "pending_posts ?g = pending_posts f"
    using assms by (simp_all add: queue_in_step_def open_fleet_def pending_posts_def own_queued_def control_defs)
  have "open_fleet f" using assms by (simp add: open_fleet_def)
  with flush_effect [OF g(1)] g show ?thesis unfolding attach_def posts_change_def by simp
qed

lemma steer_posts:
  assumes "queue_in_step f"
  shows "posts_change [] f (snd (host_steer m f))"
proof (cases "fl_control f")
  case None
  with assms show ?thesis by (simp add: host_steer_def posts_change_def)
next
  case (Some c)
  show ?thesis
  proof (cases "steer m c")
    case (Inl e)
    with Some assms show ?thesis by (simp add: host_steer_def posts_change_def)
  next
    case (Inr p)
    then have "steer_opt m c = Some (snd p)" by (simp add: steer_opt_def split: prod.split)
    then have p: "snd p = c\<lparr>steering := steering c @ [m]\<rparr>" "accepting_steering c" by (auto simp: steer_opt_Some_iff)
    with Some Inr assms show ?thesis
      by (cases p) (simp add: host_steer_def posts_change_def queue_in_step_def open_fleet_def pending_posts_def own_queued_def)
  qed
qed

lemma control_posts:
  assumes "queue_in_step f"
  shows "posts_change [] f (on_control (\<lambda>c. snd (seal_steering_if_empty c)) f)"
    and "posts_change [] f (on_control (cancel reason) f)"
  using assms
  by (cases "fl_control f"; auto simp: on_control_def posts_change_def queue_in_step_def open_fleet_def pending_posts_def
      own_queued_def control_defs)+

lemma taken_posts:
  assumes "queue_in_step f"
  shows "queue_in_step (snd (takePost f)) \<and> open_fleet (snd (takePost f)) = open_fleet f \<and> pending_posts (snd (takePost f)) = []"
    and "queue_in_step (runner_drains f) \<and> open_fleet (runner_drains f) = open_fleet f \<and>
      pending_posts (runner_drains f) = fl_outbox f"
  using assms
  by (cases "fl_control f"; simp add: takePost_def runner_drains_def on_control_def queue_in_step_def open_fleet_def pending_posts_def
      own_queued_def drain_steering_def)+

section \<open>Reports are conserved\<close>

definition posts_inv :: "fleet \<times> fleet_history \<Rightarrow> bool" where
  "posts_inv s \<longleftrightarrow> (case s of (f, h) \<Rightarrow> queue_in_step f \<and>
     subseq (fh_handed h @ pending_posts f) (map snd (fh_settled h)) \<and>
     (open_fleet f \<longrightarrow> fh_handed h @ pending_posts f = map snd (fh_settled h)))"

lemma posts_inv_change:
  assumes "posts_inv (f, h)" and "posts_change (map snd rep) f f'"
    and "fh_settled h' = fh_settled h @ rep" and "fh_handed h' = fh_handed h"
  shows "posts_inv (f', h')"
proof -
  have sub: "subseq (fh_handed h @ pending_posts f) (map snd (fh_settled h))"
    and eq: "open_fleet f \<Longrightarrow> fh_handed h @ pending_posts f = map snd (fh_settled h)"
    using assms(1) by (simp_all add: posts_inv_def)
  have change: "queue_in_step f'" "open_fleet f' \<Longrightarrow> open_fleet f"
    "pending_posts f' = pending_posts f @ map snd rep \<or> \<not> open_fleet f \<and> pending_posts f' = []"
    using assms(2) by (auto simp: posts_change_def)
  have "subseq (fh_handed h) (map snd (fh_settled h) @ map snd rep)"
    using sub by (meson subseq_order.order_trans list_emb_append2 prefix_imp_subseq prefixI subseq_rev_drop_many)
  moreover have "subseq ((fh_handed h @ pending_posts f) @ map snd rep) (map snd (fh_settled h) @ map snd rep)"
    by (rule list_emb_append_mono [OF sub]) simp
  ultimately show ?thesis using change eq assms(3,4) by (auto simp: posts_inv_def)
qed

lemma posts_inv_quiet:
  "posts_inv (f, h) \<Longrightarrow> same_posts f f' \<Longrightarrow> fh_settled h' = fh_settled h \<Longrightarrow> fh_handed h' = fh_handed h \<Longrightarrow> posts_inv (f', h')"
  by (rule posts_inv_change [where rep = "[]"]) (auto simp: posts_inv_def intro: same_posts_change)

lemma posts_inv_still:
  "posts_inv (f, h) \<Longrightarrow> (queue_in_step f \<Longrightarrow> posts_change [] f f') \<Longrightarrow> posts_inv (f', h)"
  by (rule posts_inv_change [where rep = "[]"]) (auto simp: posts_inv_def)

lemma posts_inv_queue: "posts_inv (f, h) \<Longrightarrow> queue_in_step f"
  by (simp add: posts_inv_def)

lemma posts_inv_step:
  assumes "fleet_step stringify s s'" and "posts_inv s"
  shows "posts_inv s'"
  using assms
proof (cases rule: fleet_step.cases)
  case (step_attach f h)
  with assms(2) show ?thesis by (auto elim!: posts_inv_still intro: attach_posts)
next
  case (step_settle f h name res)
  with assms(2) have inv: "posts_inv (f, h)" by simp
  have "isFinal SubFailed" by (simp add: isFinal_def)
  from settle_effect [OF posts_inv_queue [OF inv] this, of stringify name res] show ?thesis
    unfolding step_settle by (intro posts_inv_change [OF inv]) auto
next
  case (step_run_ends name f h out)
  with assms(2) have inv: "posts_inv (f, h)" by simp
  note q = posts_inv_queue [OF inv]
  let ?f = "f\<lparr>fl_following := remove1 name (fl_following f), fl_finishing := fl_finishing f @ [name]\<rparr>"
  have same: "same_posts f ?f" by (simp add: same_posts_def)
  from ended_run_settles [OF q] obtain st r where st: "isFinal st"
    "outcome_report stringify name out f = settled_report stringify name st r f"
    "followed_run_ends stringify name out f = snd (settle_task stringify name st r ?f)" by blast
  have "settled_report stringify name st r ?f = settled_report stringify name st r f"
    by (simp add: settled_report_def fleet_entry_def)
  with settle_effect [of ?f st stringify name r] st q same
  have "posts_change (map snd (outcome_report stringify name out f)) ?f (followed_run_ends stringify name out f)"
    by (simp add: same_posts_facts)
  then show ?thesis unfolding step_run_ends
    by (rule posts_inv_change [OF posts_inv_quiet [OF inv same refl refl]]) simp_all
next
  case (step_steer f h m)
  with assms(2) show ?thesis by (auto elim!: posts_inv_still intro: steer_posts)
next
  case (step_take f h)
  with assms(2) taken_posts(1) [of f] show ?thesis by (auto simp: posts_inv_def pending_posts_def)
next
  case (step_drain f h)
  with assms(2) taken_posts(2) [of f] show ?thesis by (auto simp: posts_inv_def pending_posts_def)
next
  case (step_seal f h)
  with assms(2) show ?thesis by (auto elim!: posts_inv_still intro: control_posts(1))
next
  case (step_abort f h reason)
  with assms(2) show ?thesis by (auto elim!: posts_inv_still intro: control_posts(2))
next
  case (step_spawn d r f e f' h)
  with assms(2) quiet_operations(1) [of f d r] show ?thesis by (auto elim!: posts_inv_quiet)
qed (use assms(2) in \<open>auto elim!: posts_inv_quiet intro: quiet_operations\<close>)

section \<open>Names and dispatches\<close>

text \<open>Every task is filed under its own name, and no name is taken above the counter.\<close>

definition names_inv :: "fleet \<Rightarrow> bool" where
  "names_inv f \<longleftrightarrow> distinct (map fst (fl_entries f)) \<and>
     (\<forall>(k, e) \<in> set (fl_entries f). su_name e = k \<and> (\<forall>n. subagent_number k = Some n \<longrightarrow> n \<le> fl_counter f))"

definition same_entries :: "fleet \<Rightarrow> fleet \<Rightarrow> bool" where
  "same_entries f f' \<longleftrightarrow> fl_entries f' = fl_entries f \<and> fl_counter f' = fl_counter f"

lemma same_entries_facts:
  assumes "same_entries f f'"
  shows "names_inv f' = names_inv f" "running k f' = running k f"
  using assms by (simp_all add: same_entries_def names_inv_def running_def fleet_entry_def)

lemma flush_entries: "same_entries f (snd (flush f))"
  by (cases rule: flush_cases [of f]) (auto simp: same_entries_def)

lemma keeping_operations:
  "same_entries f (snd (attach c f))" "same_entries f (track n cs f)" "same_entries f (drop_cancel n f)"
  "same_entries f (snd (cancel_tasks names f))" "same_entries f (snd (host_steer m f))"
  "same_entries f (snd (consumeExternalSteering f))" "same_entries f (snd (takePost f))" "same_entries f (runner_drains f)"
  "same_entries f (on_control g f)" "same_entries f (snd (wait_begin i f))" "same_entries f (wait_fires i out f)"
  "same_entries f (snd (wait_return i f))"
proof -
  show "same_entries f (snd (attach c f))"
    using flush_entries [of "f\<lparr>fl_control := Some (on_steer 0 c), fl_own := replicate (length (steering c)) False,
      fl_steered := fl_steered f \<or> list_ex authorizesCancellation (peek_steering c)\<rparr>"]
    by (simp add: attach_def same_entries_def)
qed (use cancel_each_frame [of f "rev (remdups (rev names))"] in \<open>auto simp: same_entries_def track_def drop_cancel_def
    cancel_tasks_def host_steer_def consumeExternalSteering_def takePost_def runner_drains_def on_control_def wait_begin_def
    wait_fires_def wait_return_def Let_def split: option.split sum.split prod.split\<close>)

lemmas keeping_facts = keeping_operations [THEN same_entries_facts(1)] keeping_operations [THEN same_entries_facts(2)]

lemma names_inv_update:
  assumes "names_inv f" and "fl_entries f' = fl_entries (update_entry n g f)" and "fl_counter f' = fl_counter f"
    and "\<And>e. fleet_entry n f = Some e \<Longrightarrow> su_name (g e) = su_name e"
  shows "names_inv f'"
proof -
  have "su_name (g e) = n" if "(n, e) \<in> set (fl_entries f)" for e
    using that assms(1,4) by (auto simp: names_inv_def fleet_entry_def)
  then have "\<forall>(k, e) \<in> set (fl_entries f'). su_name e = k \<and> (\<forall>m. subagent_number k = Some m \<longrightarrow> m \<le> fl_counter f')"
    using assms(1,2,3) by (auto simp: names_inv_def update_entry_def split: if_splits)
  moreover have "map fst (fl_entries f') = map fst (fl_entries f)" by (simp add: assms(2))
  ultimately show ?thesis using assms(1) by (simp add: names_inv_def)
qed

lemma settle_names:
  assumes "names_inv f"
  shows "names_inv (snd (settle_task stringify name st r f))"
proof (cases "running name f")
  case False
  then have "settle_task stringify name st r f = (Inr (), f)" by (intro settle_final) (simp add: running_def)
  with assms show ?thesis by simp
next
  case True
  then obtain e where e: "fleet_entry name f = Some e" "su_status e = SubRunning" by (auto simp: running_def)
  show ?thesis
    by (rule names_inv_update [OF assms settle_running(2,3) [OF e]]) (simp add: e)
qed

lemma subagent_number_spawn: "subagent_number (''subagent_'' @ show_nat n) = Some n"
  by (simp add: subagent_number_def show_nat_digits)

lemma fresh_name:
  assumes "names_inv f"
  shows "fleet_entry (''subagent_'' @ show_nat (Suc (fl_counter f))) f = None"
proof (rule ccontr)
  assume "fleet_entry (''subagent_'' @ show_nat (Suc (fl_counter f))) f \<noteq> None"
  then obtain e where "(''subagent_'' @ show_nat (Suc (fl_counter f)), e) \<in> set (fl_entries f)"
    by (auto simp: fleet_entry_def dest: map_of_SomeD)
  with assms have "\<forall>n. subagent_number (''subagent_'' @ show_nat (Suc (fl_counter f))) = Some n \<longrightarrow> n \<le> fl_counter f"
    unfolding names_inv_def by blast
  then show False using subagent_number_spawn [of "Suc (fl_counter f)"] by simp
qed

lemma spawn_effect:
  assumes "names_inv f" and "spawn d r f = (e, f')"
  shows "names_inv f'" and "fleet_entry (su_name e) f = None" and "fleet_entry (su_name e) f' = Some e"
    and "running k f' \<longleftrightarrow> running k f \<or> k = su_name e" and "su_status e = SubRunning"
proof -
  let ?name = "''subagent_'' @ show_nat (Suc (fl_counter f))"
  have e: "su_name e = ?name" "su_status e = SubRunning"
    and f': "fl_entries f' = map_set ?name e (fl_entries f)" "fl_counter f' = Suc (fl_counter f)"
    using assms(2) by (auto simp: spawn_def Let_def simp del: append_Cons)
  show "su_status e = SubRunning" by (rule e)
  show fresh: "fleet_entry (su_name e) f = None" unfolding e by (rule fresh_name [OF assms(1)])
  show "fleet_entry (su_name e) f' = Some e" unfolding e by (simp add: fleet_entry_def f' del: append_Cons)
  show "running k f' \<longleftrightarrow> running k f \<or> k = su_name e"
    unfolding e by (simp add: running_def fleet_entry_def f' e del: append_Cons)
  have d: "distinct (map fst (fl_entries f))" using assms(1) by (simp add: names_inv_def)
  show "names_inv f'"
    unfolding names_inv_def f' set_map_set [OF d] using assms(1) e(1) subagent_number_spawn [of "Suc (fl_counter f)"] d
    by (auto simp: names_inv_def simp del: append_Cons intro: le_SucI split: prod.splits)
qed

lemma update_running:
  "running k (update_entry n g f) \<longleftrightarrow>
     (if k = n then map_option (\<lambda>e. su_status (g e)) (fleet_entry n f) = Some SubRunning else running k f)"
  by (auto simp: running_def fleet_entry_update)

definition counts_inv :: "fleet \<times> fleet_history \<Rightarrow> bool" where
  "counts_inv s \<longleftrightarrow> (case s of (f, h) \<Rightarrow> \<forall>k. count_list (fh_dispatched h) k =
     count_list (map fst (fh_settled h)) k + (if running k f then 1 else 0))"

definition fleet_inv :: "fleet \<times> fleet_history \<Rightarrow> bool" where
  "fleet_inv s \<longleftrightarrow> names_inv (fst s) \<and> posts_inv s \<and> counts_inv s"

lemma counts_settled:
  assumes "counts_inv (f, h)" and "map fst rep = (if running name f then [name] else [])"
    and "\<And>k. running k f' \<longleftrightarrow> running k f \<and> k \<noteq> name"
  shows "counts_inv (f', h\<lparr>fh_settled := fh_settled h @ rep\<rparr>)"
  using assms by (auto simp: counts_inv_def split: if_splits)

lemma names_counts_step:
  assumes "fleet_step stringify s s'" and "fleet_inv s"
  shows "names_inv (fst s') \<and> counts_inv s'"
  using assms
proof (cases rule: fleet_step.cases)
  case (step_spawn d r f e f' h)
  with assms(2) have inv: "names_inv f" "counts_inv (f, h)" by (simp_all add: fleet_inv_def)
  note new = spawn_effect [OF inv(1) step_spawn(3)]
  have "\<not> running (su_name e) f" using new(2) by (simp add: running_def)
  then have "counts_inv (f', h\<lparr>fh_dispatched := fh_dispatched h @ [su_name e]\<rparr>)"
    using inv(2) new(4) by (auto simp: counts_inv_def)
  with new(1) step_spawn show ?thesis by simp
next
  case (step_resume name f e h r)
  with assms(2) have inv: "names_inv f" "counts_inv (f, h)" by (simp_all add: fleet_inv_def)
  let ?g = "\<lambda>e. e\<lparr>su_status := SubRunning, su_result := None, su_runId := r, su_retained := None\<rparr>"
  have f': "snd (resume name r None f) = update_entry name ?g f" by (simp add: resume_def Let_def)
  have "\<not> running name f" using step_resume(3,4) by (simp add: running_def isFinal_def)
  moreover have "running k (update_entry name ?g f) \<longleftrightarrow> running k f \<or> k = name" for k
    using step_resume(3) by (simp add: update_running)
  ultimately have "counts_inv (update_entry name ?g f, h\<lparr>fh_dispatched := fh_dispatched h @ [name]\<rparr>)"
    using inv(2) by (auto simp: counts_inv_def)
  moreover have "names_inv (update_entry name ?g f)" by (rule names_inv_update [OF inv(1) refl]) simp_all
  ultimately show ?thesis using step_resume(2) f' by simp
next
  case (step_describe f h name d)
  with assms(2) have inv: "names_inv f" "counts_inv (f, h)" by (simp_all add: fleet_inv_def)
  have "running k (describe name d f) = running k f" for k
    unfolding describe_def update_running by (simp add: running_def option.map_comp comp_def)
  moreover have "names_inv (describe name d f)"
    unfolding describe_def by (rule names_inv_update [OF inv(1) refl]) simp_all
  ultimately show ?thesis using inv(2) step_describe by (simp add: counts_inv_def)
next
  case (step_retain f h now name ms)
  with assms(2) have inv: "names_inv f" "counts_inv (f, h)" by (simp_all add: fleet_inv_def)
  have "running k (storeRetained now name ms f) = running k f" for k
    unfolding storeRetained_def update_running by (simp add: running_def option.map_comp comp_def)
  moreover have "names_inv (storeRetained now name ms f)"
    unfolding storeRetained_def by (rule names_inv_update [OF inv(1) refl]) simp_all
  ultimately show ?thesis using inv(2) step_retain by (simp add: counts_inv_def)
next
  case (step_settle f h name res)
  with assms(2) have inv: "names_inv f" "posts_inv (f, h)" "counts_inv (f, h)" by (simp_all add: fleet_inv_def)
  have "isFinal SubFailed" by (simp add: isFinal_def)
  from settle_effect [OF posts_inv_queue [OF inv(2)] this, of stringify name res]
  have "counts_inv (snd (settle_task stringify name SubFailed res f),
      h\<lparr>fh_settled := fh_settled h @ settled_report stringify name SubFailed res f\<rparr>)"
    by (intro counts_settled [OF inv(3)]) simp_all
  with settle_names [OF inv(1)] step_settle show ?thesis by simp
next
  case (step_run_ends name f h out)
  with assms(2) have inv: "names_inv f" "posts_inv (f, h)" "counts_inv (f, h)" by (simp_all add: fleet_inv_def)
  note q = posts_inv_queue [OF inv(2)]
  let ?f = "f\<lparr>fl_following := remove1 name (fl_following f), fl_finishing := fl_finishing f @ [name]\<rparr>"
  have same: "same_entries f ?f" "queue_in_step ?f"
    using q by (simp_all add: same_entries_def queue_in_step_def cong: option.case_cong)
  from ended_run_settles [OF q] obtain st r where st: "isFinal st"
    "outcome_report stringify name out f = settled_report stringify name st r f"
    "followed_run_ends stringify name out f = snd (settle_task stringify name st r ?f)" by blast
  have "settled_report stringify name st r ?f = settled_report stringify name st r f"
    by (simp add: settled_report_def fleet_entry_def)
  with settle_effect [OF same(2) st(1), of stringify name r] st
  have "counts_inv (followed_run_ends stringify name out f,
      h\<lparr>fh_settled := fh_settled h @ outcome_report stringify name out f\<rparr>)"
    by (intro counts_settled [OF inv(3)]) (simp_all add: same_entries_facts(2) [OF same(1)])
  moreover have "names_inv (followed_run_ends stringify name out f)"
    unfolding st(3) by (rule settle_names) (simp add: same_entries_facts(1) [OF same(1)] inv(1))
  ultimately show ?thesis using step_run_ends by simp
qed (use assms(2) in \<open>auto simp: fleet_inv_def counts_inv_def
    keeping_facts\<close>)

section \<open>Reachable fleets\<close>

lemma carry_retained_inv:
  assumes "names_inv f" and "\<forall>(k, e) \<in> set (fl_entries f). su_status e = SubCompleted"
  shows "names_inv (carry_retained es f) \<and> (\<forall>(k, e) \<in> set (fl_entries (carry_retained es f)). su_status e = SubCompleted) \<and>
    same_posts f (carry_retained es f)"
  using assms
proof (induction es arbitrary: f)
  case (Cons e es)
  let ?g = "f\<lparr>fl_entries := map_set (su_name e) e (fl_entries f),
        fl_counter := (case subagent_number (su_name e) of Some n \<Rightarrow> max (fl_counter f) n | None \<Rightarrow> fl_counter f)\<rparr>"
  have d: "distinct (map fst (fl_entries f))" using Cons.prems(1) by (simp add: names_inv_def)
  have up: "fl_counter f \<le> fl_counter ?g" by (simp split: option.split)
  have "names_inv ?g"
    unfolding names_inv_def using Cons.prems(1) d up
    by (auto simp: names_inv_def set_map_set split: prod.splits option.splits)
  moreover have "\<forall>(k, x) \<in> set (fl_entries ?g). su_status x = SubCompleted" if "su_status e = SubCompleted"
    using Cons.prems(2) that by (auto simp: set_map_set [OF d])
  moreover have "same_posts f x" if "same_posts ?g x" for x
    using that by (simp add: same_posts_def)
  ultimately show ?case
  proof (cases "su_status e \<noteq> SubCompleted \<or> su_retained e = None \<or> su_retained e = Some []")
    case True
    then have "carry_retained (e # es) f = carry_retained es f" by simp
    with Cons.IH [OF Cons.prems] show ?thesis by simp
  next
    case False
    then have "carry_retained (e # es) f = carry_retained es ?g" and "su_status e = SubCompleted" by auto
    with Cons.IH [of ?g] \<open>names_inv ?g\<close> show ?thesis
      using \<open>su_status e = SubCompleted \<Longrightarrow> \<forall>(k, x) \<in> set (fl_entries ?g). su_status x = SubCompleted\<close>
        \<open>\<And>x. same_posts ?g x \<Longrightarrow> same_posts f x\<close> by metis
  qed
qed (simp add: same_posts_def)

lemma new_fleet_inv: "fleet_inv (new_fleet retained, new_history)"
proof -
  have e: "names_inv empty_fleet" by (simp add: names_inv_def empty_fleet_def)
  have "\<forall>(k, x) \<in> set (fl_entries empty_fleet). su_status x = SubCompleted" by (simp add: empty_fleet_def)
  note carried = carry_retained_inv [OF e this, of retained]
  have "queue_in_step empty_fleet" "pending_posts empty_fleet = []"
    by (simp_all add: queue_in_step_def pending_posts_def own_queued_def empty_fleet_def)
  moreover have "\<not> running k (new_fleet retained)" for k
    using carried by (auto simp: running_def new_fleet_def fleet_entry_def dest!: map_of_SomeD)
  ultimately show ?thesis
    using carried by (auto simp: fleet_inv_def posts_inv_def counts_inv_def new_history_def new_fleet_def same_posts_facts)
qed

lemma reachable_inv: "fleet_reachable stringify retained s \<Longrightarrow> fleet_inv s"
  unfolding fleet_reachable_def
proof (induction rule: rtranclp_induct)
  case (step s s')
  then show ?case using names_counts_step posts_inv_step unfolding fleet_inv_def by blast
qed (rule new_fleet_inv)

text \<open>
  The end of the runtime's \<open>beforeComplete\<close>, after the wait: the messages that keep the run going, whether the
  repair has been asked for, and the fleet.
\<close>

definition completion_row :: "subagent_entry \<Rightarrow> string" where
  "completion_row e = ''- '' @ su_description e @ '': '' @ status_name (su_status e) @
     (case su_result e of Some r \<Rightarrow> if r = [] then [] else '' '' @ [CHR 0x97] @ '' '' @ r | None \<Rightarrow> [])"

definition completion_check :: "subagent_entry list \<Rightarrow> inference_message" where
  "completion_check missing = user_text (''<completion_check>'' @ [CHR 0x0A] @
     ''Your proposed final answer omitted attributable outcomes for these completed delegated tasks:'' @ [CHR 0x0A] @
     js_join [CHR 0x0A] (map completion_row missing) @ [CHR 0x0A] @
     ''Return one concise self-contained final answer covering every original request. Do not call more tools or omit results already reported.'' @
     [CHR 0x0A] @ ''</completion_check>'')"

definition before_complete_end :: "bool \<Rightarrow> bool \<Rightarrow> string \<Rightarrow> fleet \<Rightarrow> (inference_message list \<times> bool) \<times> fleet" where
  "before_complete_end subagentRun issued answer f =
     (case takePost f of (post, f') \<Rightarrow>
        if post \<noteq> [] then ((post, issued), f')
        else if \<not> subagentRun \<and> \<not> issued \<and> missingOutcomes answer f' \<noteq> []
        then (([completion_check (missingOutcomes answer f')], True), f')
        else (([], issued), f'))"

section \<open>Properties\<close>

text \<open>
  C16: No report of a delegated task is lost, repeated or made up.  Whatever the tasks, the host, the runner and the
  waits do, each dispatch of a task is either still running or has settled exactly once; and as long as the run takes
  messages, the reports it has been handed, those in its queue and those in the outbox are exactly the reports of the
  settled tasks, in the order they settled.  Once the run is sealed, what it was handed is still a part of them.
\<close>

theorem fleet_reports_conserved:
  assumes "fleet_reachable stringify retained (f, h)"
  shows "(\<forall>name. count_list (fh_dispatched h) name = count_list (map fst (fh_settled h)) name +
      (if map_option su_status (fleet_entry name f) = Some SubRunning then 1 else 0)) \<and>
    subseq (fh_handed h @ own_queued f @ fl_outbox f) (map snd (fh_settled h)) \<and>
    (open_fleet f \<longrightarrow> fh_handed h @ own_queued f @ fl_outbox f = map snd (fh_settled h))"
  using reachable_inv [OF assms]
  by (simp add: fleet_inv_def counts_inv_def posts_inv_def pending_posts_def running_def)

definition demo_stringify :: "json \<Rightarrow> string" where
  "demo_stringify j = ''{}''"

definition demo_spawned :: fleet where "demo_spawned = snd (spawn ''look it up'' ''r1'' (new_fleet []))"
definition demo_attached :: fleet where "demo_attached = snd (attach new_control demo_spawned)"
definition demo_settled :: fleet where
  "demo_settled = snd (settle_task demo_stringify ''subagent_1'' SubFailed ''no'' demo_attached)"

definition demo_settled_history :: fleet_history where
  "demo_settled_history = \<lparr>fh_settled = settled_report demo_stringify ''subagent_1'' SubFailed ''no'' demo_attached,
     fh_dispatched = [''subagent_1''], fh_handed = []\<rparr>"

lemma demo_name: "''subagent_'' @ show_nat (Suc 0) = ''subagent_1''"
  by code_simp

lemma demo_fleet_reachable: "fleet_reachable demo_stringify [] (demo_settled, demo_settled_history)"
proof -
  obtain e where e: "spawn ''look it up'' ''r1'' (new_fleet []) = (e, demo_spawned)"
    by (cases "spawn ''look it up'' ''r1'' (new_fleet [])") (simp add: demo_spawned_def)
  then have name: "su_name e = ''subagent_1''"
    using demo_name by (auto simp: spawn_def Let_def new_fleet_def empty_fleet_def simp del: append_Cons)
  have none: "fl_control demo_spawned = None"
    by (simp add: demo_spawned_def spawn_def Let_def new_fleet_def empty_fleet_def)
  have "fleet_step demo_stringify (new_fleet [], new_history) (demo_spawned, new_history\<lparr>fh_dispatched := [''subagent_1'']\<rparr>)"
    using step_spawn [OF e, of demo_stringify new_history] by (simp add: name new_history_def)
  moreover have "fleet_step demo_stringify (demo_spawned, new_history\<lparr>fh_dispatched := [''subagent_1'']\<rparr>)
      (demo_attached, new_history\<lparr>fh_dispatched := [''subagent_1'']\<rparr>)"
    unfolding demo_attached_def by (rule step_attach [OF none])
  moreover have "fleet_step demo_stringify (demo_attached, new_history\<lparr>fh_dispatched := [''subagent_1'']\<rparr>)
      (demo_settled, demo_settled_history)"
    using step_settle [of demo_stringify demo_attached "new_history\<lparr>fh_dispatched := [''subagent_1'']\<rparr>" "''subagent_1''" "''no''"]
    by (simp add: demo_settled_def demo_settled_history_def new_history_def)
  ultimately show ?thesis unfolding fleet_reachable_def by (rule rtranclp.rtrancl_into_rtrancl [OF rtranclp.rtrancl_into_rtrancl [OF r_into_rtranclp]])
qed

lemma fleet_reports_conserved_witness:
  "length (own_queued demo_settled @ fl_outbox demo_settled) = 1 \<and>
   map_option su_status (fleet_entry ''subagent_1'' demo_settled) \<noteq> Some SubRunning"
proof -
  have "length (fh_settled demo_settled_history) = 1" "open_fleet demo_settled"
    "fh_handed demo_settled_history = []" "map fst (fh_settled demo_settled_history) = [''subagent_1'']"
    "fh_dispatched demo_settled_history = [''subagent_1'']"
    by code_simp+
  moreover note conserved = fleet_reports_conserved [OF demo_fleet_reachable]
  ultimately have "own_queued demo_settled @ fl_outbox demo_settled = map snd (fh_settled demo_settled_history)"
    and "(if map_option su_status (fleet_entry ''subagent_1'' demo_settled) = Some SubRunning then 1 else 0) = (0 :: nat)"
    using conserved [THEN conjunct1, THEN spec, of "''subagent_1''"] by simp_all
  with \<open>length (fh_settled demo_settled_history) = 1\<close> show ?thesis by (simp split: if_splits)
qed


definition demo_taken :: fleet where "demo_taken = snd (takePost demo_settled)"

definition demo_taken_history :: fleet_history where
  "demo_taken_history = demo_settled_history\<lparr>fh_handed := own_queued demo_settled @ fl_outbox demo_settled\<rparr>"

lemma demo_taken_reachable: "fleet_reachable demo_stringify [] (demo_taken, demo_taken_history)"
proof -
  have "fleet_step demo_stringify (demo_settled, demo_settled_history) (demo_taken, demo_taken_history)"
    using step_take [of demo_stringify demo_settled demo_settled_history]
    by (simp add: demo_taken_def demo_taken_history_def) (simp add: demo_settled_history_def)
  with demo_fleet_reachable show ?thesis
    unfolding fleet_reachable_def by (rule rtranclp.rtrancl_into_rtrancl)
qed


text \<open>
  A wait looks at what settles after it began.  A task that has reported already, with the report still in the
  queue, does not end it as long as another task runs.
\<close>

lemma queued_news_does_not_end_wait:
  assumes "outstanding f \<noteq> []" and "fl_own f = replicate n True"
  shows "fst (wait_begin i f) = Inr ()"
  using assms by (auto simp: wait_begin_def moved_def externallySteered_def Let_def list_ex_iff in_set_replicate)

end
