(* ===== verification/FileTools.thy ===== *)
theory FileTools
  imports AgentTypes
begin

text \<open>
  The agent's own file tools: the registry, the argument checks and the \<open>edit\<close> and \<open>write\<close> tools of
  \<^verbatim>\<open>packages/tools/src\<close> (\<open>registry.ts\<close>, \<open>types.ts\<close>, \<open>native/edit.ts\<close>, \<open>native/write.ts\<close>).

  The file system is a map from paths to texts, with the reads that fail as undefined; \<open>resolve\<close> is
  Node's path resolution.  An edit runs alone on its path (the mutation queue is in \<open>Locks\<close>).  The
  directories a write creates are not part of the map, and a write to it does not fail.  Of a tool the
  registry reads the name alone.
\<close>

section \<open>The registry\<close>

record native_tool =
  nt_name :: string

type_synonym registry = "(string \<times> native_tool) list"

definition register :: "native_tool \<Rightarrow> registry \<Rightarrow> (string, registry) result" where
  "register t r = (if js_trim (nt_name t) = [] then Inl ''Tool name cannot be empty'' else Inr (map_set (nt_name t) t r))"

definition remove_tool :: "string \<Rightarrow> registry \<Rightarrow> bool \<times> registry" where
  "remove_tool name r = (map_of r name \<noteq> None, filter (\<lambda>x. fst x \<noteq> name) r)"

definition get_tool :: "string \<Rightarrow> registry \<Rightarrow> native_tool option" where
  "get_tool name r = map_of r name"

definition list_tools :: "registry \<Rightarrow> native_tool list" where
  "list_tools r = map snd r"

fun register_all :: "native_tool list \<Rightarrow> registry \<Rightarrow> (string, registry) result" where
  "register_all [] r = Inr r"
| "register_all (t # ts) r = bind_result (register t r) (register_all ts)"

section \<open>Arguments\<close>

fun input_field :: "json \<Rightarrow> string \<Rightarrow> json option" where
  "input_field (JObj kvs) k = map_of kvs k"
| "input_field _ k = None"

definition stringInput :: "json \<Rightarrow> string \<Rightarrow> string \<Rightarrow> (string, string) result" where
  "stringInput input key tool = (case input_field input key of
     Some (JStr s) \<Rightarrow> Inr s | _ \<Rightarrow> Inl (tool @ ''.'' @ key @ '' must be a string''))"

text \<open>The working directory is fixed, or found for each call.\<close>

datatype 'ctx cwd = Fixed string | PerCall "'ctx \<Rightarrow> string"

definition workingDirectory :: "'ctx cwd \<Rightarrow> 'ctx \<Rightarrow> string" where
  "workingDirectory c ctx = (case c of Fixed d \<Rightarrow> d | PerCall f \<Rightarrow> f ctx)"

section \<open>Edit\<close>

record replacement =
  re_oldText :: string
  re_newText :: string

definition edit_label :: "nat \<Rightarrow> string" where
  "edit_label i = ''edit.edits['' @ show_nat i @ '']''"

definition read_replacement :: "nat \<Rightarrow> json \<Rightarrow> (string, replacement) result" where
  "read_replacement i v = (case v of
     JObj _ \<Rightarrow>
       bind_result (stringInput v ''oldText'' (edit_label i)) (\<lambda>old.
       bind_result (stringInput v ''newText'' (edit_label i)) (\<lambda>new.
       Inr \<lparr>re_oldText = old, re_newText = new\<rparr>))
   | _ \<Rightarrow> Inl (edit_label i @ '' must be an object''))"

fun read_replacements :: "nat \<Rightarrow> json list \<Rightarrow> (string, replacement list) result" where
  "read_replacements i [] = Inr []"
| "read_replacements i (v # vs) =
     bind_result (read_replacement i v) (\<lambda>x. bind_result (read_replacements (Suc i) vs) (\<lambda>xs. Inr (x # xs)))"

definition replacements :: "json \<Rightarrow> (string, replacement list) result" where
  "replacements input = (case input_field input ''edits'' of
     Some (JArr (v # vs)) \<Rightarrow> read_replacements 0 (v # vs)
   | _ \<Rightarrow> Inl ''edit.edits must be a non-empty array'')"

definition apply_edit :: "nat \<Rightarrow> replacement \<Rightarrow> string \<Rightarrow> (string, string) result" where
  "apply_edit i e content =
     (let old = re_oldText e in
      if old = [] then Inl (edit_label i @ ''.oldText cannot be empty'')
      else case js_index_of old content 0 of
        None \<Rightarrow> Inl (edit_label i @ ''.oldText was not found'')
      | Some first \<Rightarrow>
          if js_index_of old content (first + length old) \<noteq> None
          then Inl (edit_label i @ ''.oldText is not unique'')
          else Inr (take first content @ re_newText e @ drop (first + length old) content))"

fun apply_edits :: "nat \<Rightarrow> replacement list \<Rightarrow> string \<Rightarrow> (string, string) result" where
  "apply_edits i [] content = Inr content"
| "apply_edits i (e # es) content = bind_result (apply_edit i e content) (apply_edits (Suc i) es)"

type_synonym files = "string \<rightharpoonup> string"

definition edit_file :: "string \<Rightarrow> replacement list \<Rightarrow> files \<Rightarrow> (string, string) result \<times> files" where
  "edit_file path edits fs = (case fs path of
     None \<Rightarrow> (Inl ''ENOENT: no such file or directory'', fs)
   | Some content \<Rightarrow> (case apply_edits 0 edits content of
       Inl e \<Rightarrow> (Inl e, fs)
     | Inr content' \<Rightarrow> (Inr (''Applied '' @ show_nat (length edits) @ '' edit'' @
         (if length edits = 1 then [] else ''s'') @ '' to '' @ path), fs(path \<mapsto> content'))))"

definition edit_tool :: "(string \<Rightarrow> string \<Rightarrow> string) \<Rightarrow> 'ctx cwd \<Rightarrow> 'ctx \<Rightarrow> json \<Rightarrow> files \<Rightarrow> (string, string) result \<times> files" where
  "edit_tool resolve c ctx input fs =
     (case stringInput input ''path'' ''edit'' of
        Inl e \<Rightarrow> (Inl e, fs)
      | Inr p \<Rightarrow> (case replacements input of
          Inl e \<Rightarrow> (Inl e, fs)
        | Inr edits \<Rightarrow> edit_file (resolve (workingDirectory c ctx) p) edits fs))"

section \<open>Write\<close>

text \<open>\<open>Buffer.byteLength\<close>: a code unit below 128 is one byte, one from 128 to 255 two.\<close>

definition byteLength :: "string \<Rightarrow> nat" where
  "byteLength s = sum_list (map (\<lambda>c. if (of_char c :: nat) < 128 then 1 else 2) s)"

definition write_tool :: "(string \<Rightarrow> string \<Rightarrow> string) \<Rightarrow> 'ctx cwd \<Rightarrow> 'ctx \<Rightarrow> json \<Rightarrow> files \<Rightarrow> (string, string) result \<times> files" where
  "write_tool resolve c ctx input fs =
     (case stringInput input ''path'' ''write'' of
        Inl e \<Rightarrow> (Inl e, fs)
      | Inr p \<Rightarrow> (case stringInput input ''content'' ''write'' of
          Inl e \<Rightarrow> (Inl e, fs)
        | Inr content \<Rightarrow>
            let path = resolve (workingDirectory c ctx) p in
            (Inr (''Wrote '' @ show_nat (byteLength content) @ '' bytes to '' @ path), fs(path \<mapsto> content))))"

section \<open>Lemmas\<close>

text \<open>The specification of one edit: the text around an occurrence, which is the only one that does not
  overlap it.\<close>

definition edited :: "string \<Rightarrow> string \<Rightarrow> string \<Rightarrow> string \<Rightarrow> bool" where
  "edited old new content content' \<longleftrightarrow> (\<exists>pre post. content = pre @ old @ post \<and> content' = pre @ new @ post \<and>
     (\<forall>j. occurs_at old content j \<longrightarrow> length pre \<le> j \<and> j < length pre + length old))"

lemma occurs_at_split: "occurs_at p s i \<Longrightarrow> s = take i s @ p @ drop (i + length p) s"
  unfolding occurs_at_def by (metis append_take_drop_id drop_drop add.commute)

lemma apply_edit_Inr:
  assumes "apply_edit i e content = Inr content'"
  shows "re_oldText e \<noteq> [] \<and> edited (re_oldText e) (re_newText e) content content'"
proof -
  let ?old = "re_oldText e"
  from assms obtain f where f: "js_index_of ?old content 0 = Some f" "js_index_of ?old content (f + length ?old) = None"
    "?old \<noteq> []" and c': "content' = take f content @ re_newText e @ drop (f + length ?old) content"
    by (auto simp: apply_edit_def Let_def split: if_splits option.splits)
  note occ = js_index_of_Some [OF f(1)]
  have "f \<le> length content" using occ(2) by (simp add: occurs_at_def)
  moreover have "f \<le> j \<and> j < f + length ?old" if "occurs_at ?old content j" for j
    using that occ(3) [of j] f(2) by (auto simp: js_index_of_None) (meson not_le)+
  ultimately show ?thesis
    using occurs_at_split [OF occ(2)] c' f(3) unfolding edited_def
    by (intro conjI exI [of _ "take f content"] exI [of _ "drop (f + length ?old) content"]) auto
qed

fun edited_by :: "replacement list \<Rightarrow> string \<Rightarrow> string \<Rightarrow> bool" where
  "edited_by [] c c' = (c = c')"
| "edited_by (e # es) c c' = (\<exists>d. re_oldText e \<noteq> [] \<and> edited (re_oldText e) (re_newText e) c d \<and> edited_by es d c')"

lemma apply_edits_Inr: "apply_edits i es c = Inr c' \<Longrightarrow> edited_by es c c'"
  by (induction i es c rule: apply_edits.induct) (auto simp: bind_result_eq_Inr dest: apply_edit_Inr)

section \<open>Properties\<close>


definition demo_edit :: json where
  "demo_edit = JObj [(''path'', JStr ''a.txt''), (''edits'', JArr [JObj [(''oldText'', JStr ''ab''), (''newText'', JStr ''c'')]])]"

lemma show_one: "show_nat 1 = ''1''"
  by code_simp

lemma demo_edit_runs: "edit_tool (\<lambda>d p. d @ ''/'' @ p) (Fixed ''/w'') () demo_edit [''/w/a.txt'' \<mapsto> ''xaby'']
  = (Inr ''Applied 1 edit to /w/a.txt'', [''/w/a.txt'' \<mapsto> ''xcy''])"
  by (simp add: edit_tool_def demo_edit_def stringInput_def replacements_def read_replacement_def edit_file_def
      apply_edit_def js_index_of_def occurs_at_def workingDirectory_def upt_rec show_one [simplified] Let_def)


text \<open>An occurrence that overlaps the first one is not noticed.\<close>

lemma overlapping_edit_accepted:
  "apply_edit 0 \<lparr>re_oldText = ''aa'', re_newText = ''b''\<rparr> ''aaa'' = Inr ''ba''"
  by (simp add: apply_edit_def js_index_of_def occurs_at_def upt_rec Let_def)

end
