(* ===== verification/TaskTools.thy ===== *)
theory TaskTools
  imports RunMonad Fleet FileTools
begin

text \<open>
  Delegating work: the routing of a task to a part of the tools (\<^verbatim>\<open>packages/agent/src/subagents/tool-routing.ts\<close>), the
  tools the coordinator delegates with (\<^verbatim>\<open>task-tool.ts\<close>) and the dispatch of a run
  (\<open>#runSubagent\<close> of \<^verbatim>\<open>packages/agent/src/runtime.ts\<close>) over the fleet.

  A tool group is its name, checked against \<open>TASK_TOOL_GROUPS\<close> where it comes from a model.  The tools' descriptions and
  schemas are left out, and so are the start of the delegated run and its progress event, which only
  decide between the two ends of a dispatch.
\<close>

section \<open>Routing\<close>

definition TASK_TOOL_GROUPS :: "string list" where
  "TASK_TOOL_GROUPS = [''browser'', ''browser-research'', ''browser-read'', ''email-triage'', ''email-read'', ''email'',
     ''messages-read'', ''messages'', ''communications'', ''drive'', ''drive-read'', ''files'', ''files-read'', ''reminders'',
     ''tasks'', ''schedule'', ''recording'', ''workspace'', ''memory'', ''history'', ''computerHistory'', ''resume'', ''all'']"

definition BOUNDED_RESEARCH_GROUPS :: "string list" where
  "BOUNDED_RESEARCH_GROUPS = [''browser-research'', ''browser-read'', ''email-triage'', ''email-read'', ''messages-read'',
     ''drive-read'', ''files-read'', ''memory'', ''history'', ''computerHistory'']"

definition boundedResearchToolTurnBudget :: "string list option \<Rightarrow> tool_turn_budget option" where
  "boundedResearchToolTurnBudget groups = (case groups of
     None \<Rightarrow> None
   | Some gs \<Rightarrow>
       if ''browser-research'' \<notin> set gs \<or> ''all'' \<in> set gs \<or> list_ex (\<lambda>g. g \<notin> set BOUNDED_RESEARCH_GROUPS) gs then None
       else Some \<lparr>tb_maximum = (if length gs = 1 then 4 else 6),
         tb_synthesisPrompt = ''The bounded evidence phase is complete. Return a concise, self-contained answer using only the evidence already gathered. Distinguish verified facts from uncertainty, mention any important source limitation, and do not call tools or describe internal reasoning.''\<rparr>)"

definition APOSTROPHE :: string where "APOSTROPHE = [CHR 0x27]"

definition READ_ONLY_WORDS :: rx where
  "READ_ONLY_WORDS = RSeq RWordB (RSeq (rx_any
     (RSeq (rx_lit ''read'') (RSeq (RCls (\<lambda>c. c = CHR ''-'' \<or> c = CHR '' '')) (rx_lit ''only'')) #
      RSeq (rx_lit ''do not '') (rx_any (map rx_lit [''send'', ''submit'', ''modify'', ''change'', ''write'', ''book'', ''pay''])) #
      map rx_lit [''investigate'', ''research'', ''review'', ''verify'', ''check'', ''find'', ''look up''])) RWordB)"

definition NEGATION :: rx where
  "NEGATION = rx_words [''do not'', ''don'' @ APOSTROPHE @ ''t'', ''never'']"

definition MUTATION_WORDS :: rx where
  "MUTATION_WORDS = rx_words [''send'', ''submit'', ''modify'', ''change'', ''write'', ''delete'', ''remove'', ''book'', ''pay'',
     ''purchase'', ''upload'', ''fill'', ''edit'', ''create'']"

text \<open>\<open>replace(/\b(?:do not|don't|never)\b[^.;\n]*/g, "")\<close>: the text left to read, with what is left of a match to skip.\<close>

definition ends_clause :: "char \<Rightarrow> bool" where
  "ends_clause c \<longleftrightarrow> c = CHR ''.'' \<or> c = CHR '';'' \<or> c = CHR 0x0A"

fun strip_negated :: "string \<Rightarrow> nat \<Rightarrow> string \<Rightarrow> nat \<Rightarrow> string" where
  "strip_negated s i [] k = []"
| "strip_negated s i (c # cs) (Suc k) = strip_negated s (Suc i) cs k"
| "strip_negated s i (c # cs) 0 = (case rx_ends NEGATION s i of
     [] \<Rightarrow> c # strip_negated s (Suc i) cs 0
   | j # _ \<Rightarrow> strip_negated s (Suc i) cs (j + length (takeWhile (\<lambda>c. \<not> ends_clause c) (drop j s)) - Suc i))"

definition GROUP_WORDS :: "(string list \<times> string) list" where
  "GROUP_WORDS =
     [([''official'', ''web'', ''website'', ''browser'', ''page'', ''online'', ''source'', ''url'', ''portal''], ''browser-research''),
      ([''email'', ''mail'', ''inbox'', ''correspondence''], ''email-triage''),
      ([''drive'', ''cloud'', ''record'', ''records'', ''document'', ''documents'', ''file'', ''files'', ''folder'', ''folders''], ''drive-read''),
      ([''message'', ''chat'', ''whatsapp'', ''telegram'', ''imessage'', ''wechat''], ''messages-read'')]"

definition inferTaskToolGroups :: "string \<Rightarrow> string \<Rightarrow> string list option" where
  "inferTaskToolGroups description prompt =
     (let text = js_lower (description @ [CHR 0x0A] @ prompt);
          affirmative = strip_negated text 0 text 0 in
      if \<not> rx_test READ_ONLY_WORDS text \<or> rx_test MUTATION_WORDS affirmative then None
      else
        let groups = map snd (filter (\<lambda>(ws, g). rx_test (rx_words ws) text) GROUP_WORDS) in
        if groups = [] then None else Some groups)"

definition taskGroupEnabled :: "string list option \<Rightarrow> string \<Rightarrow> bool" where
  "taskGroupEnabled groups g = (case groups of None \<Rightarrow> True | Some gs \<Rightarrow> gs = [] \<or> ''all'' \<in> set gs \<or> g \<in> set gs)"

text \<open>\<open>name.split("__").at(-1)\<close>, with the part read so far in reverse.\<close>

fun last_leaf :: "string \<Rightarrow> string \<Rightarrow> string" where
  "last_leaf part (c # d # cs) = (if c = CHR ''_'' \<and> d = CHR ''_'' then last_leaf [] cs else last_leaf (c # part) (d # cs))"
| "last_leaf part cs = rev part @ cs"

definition MESSAGE_SUBJECTS :: "string list" where
  "MESSAGE_SUBJECTS = [''message'', ''messages'', ''chat'', ''chats'', ''room'', ''rooms'', ''channel'', ''channels'', ''contact'',
     ''contacts'', ''conversation'', ''conversations'']"

definition READ_VERBS :: "string list" where
  "READ_VERBS = [''read'', ''get'', ''list'', ''search'', ''find'', ''unread'', ''history'']"

definition MUTATION_VERBS :: "string list" where
  "MUTATION_VERBS = [''send'', ''post'', ''reply'', ''create'', ''update'', ''edit'', ''delete'', ''remove'', ''archive'', ''mark'', ''react'']"

definition isExternalMessageReadTool :: "string \<Rightarrow> bool" where
  "isExternalMessageReadTool name \<longleftrightarrow>
     (let words = term_runs (js_lower (last_leaf [] name)) [] in
      js_index_of ''__'' name 0 \<noteq> None \<and> list_ex (\<lambda>w. w \<in> set MESSAGE_SUBJECTS) words \<and>
      list_ex (\<lambda>w. w \<in> set READ_VERBS) words \<and> \<not> list_ex (\<lambda>w. w \<in> set MUTATION_VERBS) words)"

definition starts_with :: "string \<Rightarrow> string \<Rightarrow> bool" where
  "starts_with p s \<longleftrightarrow> take (length p) s = p"

definition RESUME_TOOLS :: "string list" where
  "RESUME_TOOLS = [''bash'', ''edit'', ''read'', ''write'', ''browser'', ''browser_tabs'', ''browser_current_read'', ''browser_read'',
     ''browser_snapshot_many'', ''browser_control'', ''email_accounts'', ''email_folders'', ''email_list'', ''email_read'',
     ''email_search'', ''email_search_all'', ''email_draft'', ''hub_state'', ''hub_draft'', ''message_chats'', ''message_contacts'',
     ''message_read'', ''message_search'', ''message_unread'', ''reminders_create'', ''reminders_list'', ''reminders_update'',
     ''schedule'', ''workspace_show'', ''record_workflow'']"

text \<open>What a group lets a task use.\<close>

definition group_tool :: "string \<Rightarrow> string \<Rightarrow> bool" where
  "group_tool g name \<longleftrightarrow>
     (if g = ''browser-research'' then name \<in> set [''browser'', ''browser_read'', ''browser_snapshot_many'', ''resolve_current_location'']
      else if g = ''browser-read'' then name = ''browser_current_read''
      else if g = ''browser'' then starts_with ''browser'' name
      else if g = ''email-triage'' then name \<in> set [''hub_state'', ''email_search_all'', ''email_read'']
      else if g = ''email-read'' then name \<in> set [''hub_state'', ''workspace_show'', ''email_accounts'', ''email_folders'', ''email_list'',
        ''email_read'', ''email_search'', ''email_search_all'']
      else if g = ''email'' then name = ''hub_state'' \<or> name = ''workspace_show'' \<or> starts_with ''email_'' name
      else if g = ''messages-read'' then name \<in> set [''hub_state'', ''workspace_show'', ''message_chats'', ''message_contacts'',
        ''message_read'', ''message_search'', ''message_unread''] \<or> isExternalMessageReadTool name
      else if g = ''messages'' then name \<in> set [''hub_state'', ''hub_draft'', ''workspace_show''] \<or> starts_with ''message_'' name
      else if g = ''communications'' then name \<in> set [''hub_state'', ''hub_draft'', ''workspace_show''] \<or> starts_with ''email_'' name \<or>
        starts_with ''message_'' name
      else if g = ''drive'' then name = ''workspace_show'' \<or> starts_with ''drive_'' name
      else if g = ''drive-read'' then name \<in> set [''drive_sources'', ''drive_list'', ''drive_read'', ''workspace_show'']
      else if g = ''files'' then name \<in> set [''read'', ''write'', ''edit'', ''bash'']
      else if g = ''files-read'' then name = ''read''
      else if g = ''reminders'' then starts_with ''reminders_'' name
      else if g = ''tasks'' then name \<in> set [''tasks'', ''workspace_show'']
      else if g = ''schedule'' then name \<in> set [''schedule'', ''workspace_show'']
      else if g = ''recording'' then name = ''record_workflow''
      else if g = ''workspace'' then name \<in> set [''hub_draft'', ''workspace_show'']
      else if g = ''resume'' then name \<in> set RESUME_TOOLS
      else False)"

definition selectTaskTools :: "'w agent_tool list \<Rightarrow> string list option \<Rightarrow> 'w agent_tool list" where
  "selectTaskTools tools groups = (case groups of
     None \<Rightarrow> tools
   | Some gs \<Rightarrow> if gs = [] \<or> ''all'' \<in> set gs then tools
       else filter (\<lambda>t. at_name t = ''read'' \<or> list_ex (\<lambda>g. group_tool g (at_name t)) gs) tools)"

record task_skill =
  sk_name :: string

definition selectTaskSkills :: "task_skill list \<Rightarrow> string list option \<Rightarrow> task_skill list" where
  "selectTaskSkills skills names = (case names of
     None \<Rightarrow> skills
   | Some ns \<Rightarrow> if ns = [] then []
       else let selected = filter (\<lambda>s. sk_name s \<in> set ns) skills in
         if length selected = length (remdups ns) then selected else skills)"

section \<open>Requests\<close>

datatype task_coordination = Independent | Dependent

record subagent_request =
  sr_description :: string
  sr_prompt :: string
  sr_recent :: bool  \<comment> \<open>\<open>context\<close> is \<open>"recent"\<close>\<close>
  sr_retain :: bool
  sr_continue :: "string option"
  sr_strictContinuation :: bool
  sr_coordination :: "task_coordination option"
  sr_dependsOn :: "string option"
  sr_toolGroups :: "string list option"
  sr_skillNames :: "string list option"

definition dependentDispatchError :: "fleet \<Rightarrow> subagent_request \<Rightarrow> string option" where
  "dependentDispatchError f rq =
     (if sr_coordination rq \<noteq> Some Dependent then None
      else case sr_dependsOn rq of
        None \<Rightarrow> Some ''A dependent task requires depends_on naming its prerequisite task.''
      | Some d \<Rightarrow> (case fleet_entry d f of
          None \<Rightarrow> Some (''Dependent task prerequisite '' @ d @ '' does not exist.'')
        | Some e \<Rightarrow>
            if su_status e = SubCompleted then None
            else if su_status e = SubRunning
            then Some (''Dependent task prerequisite '' @ d @ '' is still running. Wait for its notification before dispatching this step.'')
            else Some (''Dependent task prerequisite '' @ d @ '' '' @ status_name (su_status e) @
              ''; do not run work that depends on a failed prerequisite.'')))"

definition continuationDispatchError :: "fleet \<Rightarrow> subagent_request \<Rightarrow> string option" where
  "continuationDispatchError f rq = (case sr_continue rq of
     None \<Rightarrow> None
   | Some c \<Rightarrow>
       if \<not> sr_strictContinuation rq then None
       else case fleet_entry c f of
         None \<Rightarrow> Some (''Continuation target '' @ c @ '' does not exist.'')
       | Some e \<Rightarrow>
           if su_status e = SubRunning
           then Some (''Continuation target '' @ c @ '' is still running. Wait for its notification first.'')
           else if su_status e \<noteq> SubCompleted
           then Some (''Continuation target '' @ c @ '' '' @ status_name (su_status e) @
             ''; failed or cancelled work cannot be resumed as successful context.'')
           else if su_retained e = None \<or> su_retained e = Some []
           then Some (''Continuation target '' @ c @ '' has no retained context. Dispatch fresh explicitly instead of silently repeating work.'')
           else None)"

definition coordinationMode :: "json option \<Rightarrow> task_coordination option" where
  "coordinationMode v = (if v = Some (JStr ''independent'') then Some Independent
     else if v = Some (JStr ''dependent'') then Some Dependent else None)"

text \<open>A \<open>Set\<close> of a list keeps the first of equal elements.\<close>

definition unique :: "'a list \<Rightarrow> 'a list" where
  "unique xs = rev (remdups (rev xs))"

definition json_strings :: "json list \<Rightarrow> string list" where
  "json_strings vs = List.map_filter (\<lambda>v. case v of JStr s \<Rightarrow> Some s | _ \<Rightarrow> None) vs"

definition stringList :: "json option \<Rightarrow> string list option" where
  "stringList v = (case v of
     Some (JArr vs) \<Rightarrow> Some (unique (filter (\<lambda>s. s \<noteq> []) (map js_trim (json_strings vs))))
   | _ \<Rightarrow> None)"

definition taskToolGroups :: "json option \<Rightarrow> string list option" where
  "taskToolGroups v = (case v of
     Some (JArr vs) \<Rightarrow> let groups = filter (\<lambda>s. s \<in> set TASK_TOOL_GROUPS) (json_strings vs) in
       if groups = [] then None else Some (unique groups)
   | _ \<Rightarrow> None)"

definition required_text :: "json \<Rightarrow> string \<Rightarrow> (string, string) result" where
  "required_text input k = (case input_field input k of
     Some (JStr s) \<Rightarrow> if js_trim s = [] then Inl (k @ '' must be a non-empty string'') else Inr (js_trim s)
   | _ \<Rightarrow> Inl (k @ '' must be a non-empty string''))"

definition HUB_GROUPS :: "string list" where
  "HUB_GROUPS = [''email-triage'', ''email-read'', ''email'', ''messages-read'', ''messages'', ''communications'']"

text \<open>The table of skills a native group replaces is empty in the code, so no skill is dropped.\<close>

definition normalizedNativeSkills :: "string list option \<Rightarrow> string list option \<Rightarrow> string list option" where
  "normalizedNativeSkills groups names = (case groups of
     None \<Rightarrow> names
   | Some gs \<Rightarrow> if gs = [] \<or> ''all'' \<in> set gs then names
       else let kept = (case names of Some ns \<Rightarrow> ns | None \<Rightarrow> []) in
         Some (if list_ex (\<lambda>g. g \<in> set HUB_GROUPS) gs \<and> ''hub-use'' \<notin> set kept then kept @ [''hub-use''] else kept))"

text \<open>A trimmed optional text, \<open>None\<close> when empty.\<close>

definition optional_text :: "json option \<Rightarrow> string option" where
  "optional_text v = (case v of Some (JStr s) \<Rightarrow> if js_trim s = [] then None else Some (js_trim s) | _ \<Rightarrow> None)"

definition routed_groups :: "json \<Rightarrow> string \<Rightarrow> string \<Rightarrow> string list option" where
  "routed_groups input description prompt =
     (let explicit = taskToolGroups (input_field input ''tool_groups''); inferred = inferTaskToolGroups description prompt in
      case (explicit, inferred) of
        (Some gs, Some guess) \<Rightarrow> if ''all'' \<in> set gs then Some guess else Some gs
      | (Some gs, None) \<Rightarrow> Some gs
      | (None, _) \<Rightarrow> inferred)"

definition read_request :: "bool \<Rightarrow> json \<Rightarrow> (string, subagent_request) result" where
  "read_request capabilityRouting input =
     bind_result (required_text input ''description'') (\<lambda>description.
     bind_result (required_text input ''prompt'') (\<lambda>prompt.
     let routed = (if capabilityRouting then routed_groups input description prompt else None);
         explicitSkills = (if capabilityRouting then stringList (input_field input ''skill_names'') else None) in
     Inr \<lparr>sr_description = description, sr_prompt = prompt, sr_recent = (input_field input ''context'' = Some (JStr ''recent'')),
       sr_retain = (input_field input ''retain'' = Some (JBool True)),
       sr_continue = optional_text (input_field input ''continue''), sr_strictContinuation = capabilityRouting,
       sr_coordination = coordinationMode (input_field input ''coordination''),
       sr_dependsOn = optional_text (input_field input ''depends_on''), sr_toolGroups = routed,
       sr_skillNames = (if capabilityRouting
         then normalizedNativeSkills routed (case explicitSkills of Some ns \<Rightarrow> Some ns
           | None \<Rightarrow> (case routed of Some gs \<Rightarrow> if gs \<noteq> [] \<and> ''all'' \<notin> set gs then Some [] else None | None \<Rightarrow> None))
         else None)\<rparr>))"

section \<open>The dispatch tool\<close>

text \<open>
  A call up to the start of the run: refused, failed with an error, or started with a place reserved.  The counter
  is only kept under a maximum.
\<close>

datatype dispatch_begin = BatchComplete nat | BadRequest string | Reserved subagent_request

definition dispatch_begin_of :: "bool \<Rightarrow> nat option \<Rightarrow> json \<Rightarrow> nat \<Rightarrow> dispatch_begin \<times> nat" where
  "dispatch_begin_of capabilityRouting maxDispatches input dispatches =
     (case maxDispatches of
        Some n \<Rightarrow>
          if dispatches \<ge> n then (BatchComplete n, dispatches)
          else (case read_request capabilityRouting input of
            Inl e \<Rightarrow> (BadRequest e, dispatches) | Inr rq \<Rightarrow> (Reserved rq, Suc dispatches))
      | None \<Rightarrow> (case read_request capabilityRouting input of
            Inl e \<Rightarrow> (BadRequest e, dispatches) | Inr rq \<Rightarrow> (Reserved rq, dispatches)))"

text \<open>The run fails to start, which gives the place back.\<close>

definition dispatch_failed :: "nat option \<Rightarrow> nat \<Rightarrow> nat" where
  "dispatch_failed maxDispatches dispatches = (if maxDispatches = None then dispatches else dispatches - 1)"

text \<open>The answer to a call that started a run, and the answer to a refused one.\<close>

definition dispatch_reply :: "(json \<Rightarrow> string) \<Rightarrow> string \<Rightarrow> string option \<Rightarrow> string" where
  "dispatch_reply stringify name continuedFrom = stringify (JObj (
     [(''subagent'', JStr name), (''status'', JStr ''running'')] @
     (case continuedFrom of Some c \<Rightarrow> [(''resumed'', JStr c)] | None \<Rightarrow> []) @
     [(''note'', JStr ((case continuedFrom of
        Some c \<Rightarrow> ''Resumed '' @ c @ '' with its retained context.'' | None \<Rightarrow> ''Dispatched.'') @
        '' Its result arrives as a <subagent_notification>; carry on with other work until then.''))]))"

definition batch_complete_reply :: "nat \<Rightarrow> string" where
  "batch_complete_reply n = ''This goal-continuation batch already dispatched '' @ show_nat n @
     '' tasks. Synthesize the outcomes already available, state what remains, and leave the unfinished goal active instead of opening another wave.''"

text \<open>
  \<open>#runSubagent\<close> up to the start of the run: the name of the task and the messages it resumes from.
\<close>

definition dispatch_entry :: "subagent_request \<Rightarrow> string \<Rightarrow> fleet \<Rightarrow> (string, string \<times> inference_message list option) result \<times> fleet" where
  "dispatch_entry rq runId f =
     (case dependentDispatchError f rq of
        Some e \<Rightarrow> (Inl e, f)
      | None \<Rightarrow> (case continuationDispatchError f rq of
          Some e \<Rightarrow> (Inl e, f)
        | None \<Rightarrow>
            let prior = (case sr_continue rq of Some c \<Rightarrow> fleet_entry c f | None \<Rightarrow> None);
                seed = (case prior of Some e \<Rightarrow> if isFinal (su_status e) then su_retained e else None | None \<Rightarrow> None) in
            (case (seed, prior) of
               (Some ms, Some e) \<Rightarrow>
                 (Inr (su_name e, Some ms), describe (su_name e) (sr_description rq) (snd (resume (su_name e) runId None f)))
             | _ \<Rightarrow> (case spawn (sr_description rq) runId f of (e, f') \<Rightarrow>
                 (Inr (su_name e, None), describe (su_name e) (sr_description rq) f')))))"

section \<open>The other tools\<close>

definition DEFAULT_WAIT_MS :: int where "DEFAULT_WAIT_MS = 60000"
definition DEFAULT_WAIT_ALL_MS :: int where "DEFAULT_WAIT_ALL_MS = 120000"
definition MIN_WAIT_MS :: int where "MIN_WAIT_MS = 1000"
definition MAX_WAIT_MS :: int where "MAX_WAIT_MS = 600000"

text \<open>The time a wait is given, or the answer to one that is too long.\<close>

definition wait_time :: "int \<Rightarrow> json option \<Rightarrow> (string, rat) result" where
  "wait_time default_ms v =
     (let requested = (case v of Some (JNum n) \<Rightarrow> n | _ \<Rightarrow> of_int default_ms) in
      if requested > of_int MAX_WAIT_MS then Inl (''timeout_ms must be at most '' @ show_int MAX_WAIT_MS)
      else Inr (max (of_int MIN_WAIT_MS) requested))"

definition waitMessage :: "string list \<Rightarrow> string list \<Rightarrow> bool \<Rightarrow> string" where
  "waitMessage updated still timedOut =
     (if updated \<noteq> [] then js_join '', '' updated @ '' reported back '' @ [CHR 0x97] @ '' the result is in your next message.''
      else if timedOut then
        (if still \<noteq> [] then ''Nothing new yet; '' @ js_join '', '' still @ '' still running.''
         else ''Nothing new, and nothing running.'')
      else if still \<noteq> [] then ''Wait interrupted; '' @ js_join '', '' still @ '' still running.''
      else ''Every delegated subagent has already reported.'')"

definition STEERED_WAIT :: string where
  "STEERED_WAIT = ''The user added a message. Yield now so it can be handled before waiting longer.''"

definition wait_reply :: "(json \<Rightarrow> string) \<Rightarrow> string list \<Rightarrow> string list \<Rightarrow> bool \<Rightarrow> bool \<Rightarrow> string" where
  "wait_reply stringify updated still timedOut steered = stringify (JObj
     [(''updated'', JArr (map JStr updated)), (''running'', JArr (map JStr still)), (''timed_out'', JBool timedOut),
      (''steered'', JBool steered),
      (''message'', JStr (if steered then STEERED_WAIT else waitMessage updated still timedOut))])"

text \<open>What \<open>wait_subagent\<close> answers when its wait has returned.\<close>

definition wait_subagent_end :: "(json \<Rightarrow> string) \<Rightarrow> wait_result \<Rightarrow> fleet \<Rightarrow> string" where
  "wait_subagent_end stringify r f =
     wait_reply stringify (wr_updated r) (map su_name (outstanding f)) (wr_timedOut r) (wr_steered r)"

text \<open>
  The loop of \<open>wait_all_subagents\<close> between two waits: the answer (with \<open>timed_out\<close> and \<open>steered\<close>), or the time left
  for the next wait.  \<open>news\<close> is the result of the last one.
\<close>

definition wait_all_next :: "bool \<Rightarrow> int \<Rightarrow> wait_result option \<Rightarrow> fleet \<Rightarrow> (bool \<times> bool, int) result" where
  "wait_all_next aborted remaining news f =
     (case news of
        Some r \<Rightarrow>
          if wr_steered r then Inl (False, True)
          else if wr_timedOut r then Inl (True, False)
          else if outstanding f = [] \<or> aborted then Inl (False, False)
          else if remaining \<le> 0 then Inl (True, False) else Inr remaining
      | None \<Rightarrow>
          if outstanding f = [] \<or> aborted then Inl (False, False)
          else if remaining \<le> 0 then Inl (True, False) else Inr remaining)"

definition wait_all_end :: "(json \<Rightarrow> string) \<Rightarrow> string list \<Rightarrow> bool \<times> bool \<Rightarrow> fleet \<Rightarrow> string" where
  "wait_all_end stringify targets ended f = (case ended of (timedOut, steered) \<Rightarrow>
     wait_reply stringify
       (map su_name (filter (\<lambda>e. su_name e \<in> set targets \<and> su_status e \<noteq> SubRunning) (roster f)))
       (map su_name (outstanding f)) timedOut steered)"

definition check_subagents :: "(json \<Rightarrow> string) \<Rightarrow> fleet \<Rightarrow> string" where
  "check_subagents stringify f = stringify (JObj [(''subagents'', JArr (map (\<lambda>e. JObj
     [(''subagent'', JStr (su_name e)), (''description'', JStr (su_description e)), (''status'', JStr (status_name (su_status e)))])
     (roster f)))])"

text \<open>
  \<open>cancel_subagents\<close>: a request without a name and one without the user's steering change nothing but the
  latter's licence, which is spent by a request that goes through.
\<close>

datatype cancel_reply = NoNames | Refused | Cancelled_tasks "string list" "string list" "string list"

definition cancel_subagents :: "json \<Rightarrow> fleet \<Rightarrow> cancel_reply \<times> fleet" where
  "cancel_subagents input f =
     (let tasks = (case input_field input ''tasks'' of Some (JArr vs) \<Rightarrow> filter (\<lambda>s. s \<noteq> []) (json_strings vs) | _ \<Rightarrow> []) in
      if tasks = [] then (NoNames, f)
      else case consumeExternalSteering f of
        (False, f') \<Rightarrow> (Refused, f')
      | (True, f') \<Rightarrow> (case cancel_tasks tasks f' of ((cs, us, rs), f'') \<Rightarrow> (Cancelled_tasks cs us rs, f'')))"

section \<open>What routing keeps\<close>

lemma inferred_groups:
  assumes "inferTaskToolGroups description prompt = Some gs"
  shows "gs \<noteq> [] \<and> set gs \<subseteq> {''browser-research'', ''email-triage'', ''drive-read'', ''messages-read''} \<and>
    rx_test READ_ONLY_WORDS (js_lower (description @ [CHR 0x0A] @ prompt)) \<and>
    \<not> rx_test MUTATION_WORDS (strip_negated (js_lower (description @ [CHR 0x0A] @ prompt)) 0 (js_lower (description @ [CHR 0x0A] @ prompt)) 0)"
proof -
  let ?groups = "map snd (filter (\<lambda>(ws, g). rx_test (rx_words ws) (js_lower (description @ [CHR 0x0A] @ prompt))) GROUP_WORDS)"
  have "set ?groups \<subseteq> snd ` set GROUP_WORDS" by auto
  also have "\<dots> = {''browser-research'', ''email-triage'', ''drive-read'', ''messages-read''}"
    by (simp add: GROUP_WORDS_def insert_commute)
  finally have sub: "set ?groups \<subseteq> \<dots>" .
  with assms show ?thesis unfolding inferTaskToolGroups_def Let_def by (auto simp only: split: if_splits)
qed

definition READING_TOOLS :: "string list" where
  "READING_TOOLS = [''read'', ''browser'', ''browser_read'', ''browser_snapshot_many'', ''resolve_current_location'', ''hub_state'',
     ''email_search_all'', ''email_read'', ''workspace_show'', ''message_chats'', ''message_contacts'', ''message_read'',
     ''message_search'', ''message_unread'', ''drive_sources'', ''drive_list'', ''drive_read'']"

lemma reading_groups:
  assumes "g \<in> {''browser-research'', ''email-triage'', ''drive-read'', ''messages-read''}" and "group_tool g name"
  shows "name \<in> set READING_TOOLS \<or> isExternalMessageReadTool name"
  using assms by (auto simp: group_tool_def READING_TOOLS_def)

section \<open>A dispatch is a step of the fleet\<close>

lemma entry_name: "names_inv f \<Longrightarrow> fleet_entry k f = Some e \<Longrightarrow> su_name e = k"
  by (auto simp: names_inv_def fleet_entry_def dest: map_of_SomeD)

lemma describe_entry: "fleet_entry k (describe n d f) = (if k = n then map_option (\<lambda>e. e\<lparr>su_description := d\<rparr>) (fleet_entry n f) else fleet_entry k f)"
  by (simp add: describe_def fleet_entry_update)

lemma dispatch_entry_cases:
  assumes "dispatch_entry rq r f = (Inr (name, seed), f')"
  obtains (resumed) c e ms where "sr_continue rq = Some c" "fleet_entry c f = Some e" "isFinal (su_status e)"
      "su_retained e = Some ms" "name = su_name e" "seed = Some ms"
      "f' = describe name (sr_description rq) (snd (resume name r None f))"
  | (fresh) e f1 where "spawn (sr_description rq) r f = (e, f1)" "name = su_name e" "seed = None"
      "f' = describe name (sr_description rq) f1"
proof -
  from assms have ok: "dependentDispatchError f rq = None" "continuationDispatchError f rq = None"
    by (auto simp: dispatch_entry_def split: option.splits)
  show thesis
  proof (cases "\<exists>c e ms. sr_continue rq = Some c \<and> fleet_entry c f = Some e \<and> isFinal (su_status e) \<and> su_retained e = Some ms")
    case True
    then obtain c e ms where c: "sr_continue rq = Some c" "fleet_entry c f = Some e" "isFinal (su_status e)" "su_retained e = Some ms"
      by blast
    with assms ok have "name = su_name e" "seed = Some ms" "f' = describe name (sr_description rq) (snd (resume name r None f))"
      by (auto simp: dispatch_entry_def)
    with c show thesis by (intro resumed)
  next
    case False
    then have none: "(case (case sr_continue rq of Some c \<Rightarrow> fleet_entry c f | None \<Rightarrow> None) of
        Some e \<Rightarrow> if isFinal (su_status e) then su_retained e else None | None \<Rightarrow> None) = None"
      by (auto split: option.split)
    obtain e f1 where sp: "spawn (sr_description rq) r f = (e, f1)" by fastforce
    from assms ok none sp show thesis
      by - (rule fresh [OF sp], auto simp: dispatch_entry_def Let_def)
  qed
qed

lemma dispatch_entry_refused: "dispatch_entry rq r f = (Inl e, f') \<Longrightarrow> f' = f"
  by (auto simp: dispatch_entry_def Let_def split: option.splits if_splits prod.splits)

lemma dispatch_entry_steps:
  assumes "names_inv f" and "dispatch_entry rq r f = (Inr (name, seed), f')"
  shows "(fleet_step stringify)\<^sup>*\<^sup>* (f, h) (f', h\<lparr>fh_dispatched := fh_dispatched h @ [name]\<rparr>) \<and> running name f' \<and>
    (seed = None \<longrightarrow> fleet_entry name f = None) \<and>
    (seed \<noteq> None \<longrightarrow> sr_continue rq = Some name \<and> (\<exists>e. fleet_entry name f = Some e \<and> isFinal (su_status e) \<and> su_retained e = seed))"
  using assms(2)
proof (cases rule: dispatch_entry_cases)
  case (resumed c e ms)
  have name: "c = name" using entry_name [OF assms(1) resumed(2)] resumed(5) by simp
  let ?h = "h\<lparr>fh_dispatched := fh_dispatched h @ [name]\<rparr>"
  have "fleet_step stringify (f, h) (snd (resume name r None f), ?h)"
    using resumed name by (intro step_resume) auto
  moreover have "fleet_step stringify (snd (resume name r None f), ?h) (f', ?h)"
    unfolding resumed(7) by (rule step_describe)
  moreover have "running name f'"
    using resumed(2) name unfolding resumed(7)
    by (simp add: running_def describe_entry resume_def Let_def fleet_entry_update)
  ultimately show ?thesis using resumed name by (auto intro: converse_rtranclp_into_rtranclp)
next
  case (fresh e f1)
  let ?h = "h\<lparr>fh_dispatched := fh_dispatched h @ [name]\<rparr>"
  note new = spawn_effect [OF assms(1) fresh(1)]
  have "fleet_step stringify (f, h) (f1, ?h)" unfolding fresh(2) by (rule step_spawn [OF fresh(1)])
  moreover have "fleet_step stringify (f1, ?h) (f', ?h)" unfolding fresh(4) by (rule step_describe)
  moreover have "running name f'"
    using new(3,5) fresh(2) unfolding fresh(4) by (simp add: running_def describe_entry)
  ultimately show ?thesis using new(2) fresh by (auto intro: converse_rtranclp_into_rtranclp)
qed

section \<open>Properties\<close>

text \<open>
  C22: A dispatch is what it says.  One that is refused changes nothing.  One that is accepted is a sequence of steps
  of the fleet that leaves its task running: a dependent one only after its prerequisite has completed, a strict
  continuation only of a completed task, under its name and with exactly the messages it kept, and any
  other under a name no task has.
\<close>

theorem dispatch_refines_fleet:
  assumes "fleet_reachable stringify retained (f, h)" and "dispatch_entry rq r f = (res, f')"
  shows "(case res of
      Inl _ \<Rightarrow> f' = f
    | Inr (name, seed) \<Rightarrow>
        fleet_reachable stringify retained (f', h\<lparr>fh_dispatched := fh_dispatched h @ [name]\<rparr>) \<and>
        map_option su_status (fleet_entry name f') = Some SubRunning \<and>
        (sr_coordination rq = Some Dependent \<longrightarrow>
          (\<exists>d. sr_dependsOn rq = Some d \<and> map_option su_status (fleet_entry d f) = Some SubCompleted)) \<and>
        (sr_strictContinuation rq \<and> sr_continue rq \<noteq> None \<longrightarrow>
          sr_continue rq = Some name \<and> seed \<noteq> None \<and> seed \<noteq> Some [] \<and>
          (\<exists>e. fleet_entry name f = Some e \<and> su_status e = SubCompleted \<and> su_retained e = seed)) \<and>
        (seed = None \<longrightarrow> fleet_entry name f = None))"
proof (cases res)
  case (Inl e)
  with assms(2) show ?thesis by (simp add: dispatch_entry_refused)
next
  case (Inr p)
  obtain name seed where p: "p = (name, seed)" by (cases p)
  have disp: "dispatch_entry rq r f = (Inr (name, seed), f')" using assms(2) Inr p by simp
  have ok: "dependentDispatchError f rq = None" "continuationDispatchError f rq = None"
    using disp by (auto simp: dispatch_entry_def split: option.splits)
  have names: "names_inv f" using reachable_inv [OF assms(1)] by (simp add: fleet_inv_def)
  note steps = dispatch_entry_steps [OF names disp, of stringify h]
  have "fleet_reachable stringify retained (f', h\<lparr>fh_dispatched := fh_dispatched h @ [name]\<rparr>)"
    using assms(1) steps unfolding fleet_reachable_def by (meson rtranclp_trans)
  moreover have "\<exists>d. sr_dependsOn rq = Some d \<and> map_option su_status (fleet_entry d f) = Some SubCompleted"
    if "sr_coordination rq = Some Dependent"
    using that ok(1) by (auto simp: dependentDispatchError_def split: option.splits if_splits)
  moreover have "sr_continue rq = Some name \<and> seed \<noteq> None \<and> seed \<noteq> Some [] \<and>
      (\<exists>e. fleet_entry name f = Some e \<and> su_status e = SubCompleted \<and> su_retained e = seed)"
    if strict: "sr_strictContinuation rq" "sr_continue rq = Some c" for c
  proof -
    from strict ok(2) obtain e ms where e: "fleet_entry c f = Some e" "su_status e = SubCompleted" "su_retained e = Some ms" "ms \<noteq> []"
      by (auto simp: continuationDispatchError_def split: option.splits if_splits)
    with disp ok strict(2) have "name = su_name e" "seed = Some ms"
      by (auto simp: dispatch_entry_def isFinal_def)
    with e strict(2) entry_name [OF names e(1)] show ?thesis by simp
  qed
  ultimately show ?thesis using Inr p steps by (auto simp: running_def)
qed

definition demo_task_request :: subagent_request where
  "demo_task_request = \<lparr>sr_description = ''rent'', sr_prompt = ''Find it.'', sr_recent = False, sr_retain = False, sr_continue = None,
     sr_strictContinuation = True, sr_coordination = Some Independent, sr_dependsOn = None, sr_toolGroups = None, sr_skillNames = None\<rparr>"

lemma dispatch_refines_fleet_witness:
  "map_option su_status (fleet_entry ''subagent_2'' (snd (dispatch_entry demo_task_request ''r2'' demo_settled))) = Some SubRunning"
proof -
  have "fst (dispatch_entry demo_task_request ''r2'' demo_settled) = Inr (''subagent_2'', None)" by code_simp
  then have "dispatch_entry demo_task_request ''r2'' demo_settled =
      (Inr (''subagent_2'', None), snd (dispatch_entry demo_task_request ''r2'' demo_settled))" by (simp add: prod_eq_iff)
  from dispatch_refines_fleet [OF demo_fleet_reachable this] show ?thesis by simp
qed



definition demo_tool :: "string \<Rightarrow> unit agent_tool" where
  "demo_tool name = \<lparr>at_name = name, at_description = [], at_parameters = JNull, at_strict = None, at_executionMode = None,
     at_execute = (\<lambda>_ _ w. (([], Inr \<lparr>rs_content = TCText [], rs_isError = None, rs_metadata = None\<rparr>), [], w))\<rparr>"

lemma demo_inferred: "inferTaskToolGroups ''Find'' ''web; never pay'' = Some [''browser-research'']"
proof -
  let ?s = "''find\<newline>web; never pay''"
  have low: "js_lower (''Find'' @ [CHR 0x0A] @ ''web; never pay'') = ?s" by code_simp
  have reads: "rx_test READ_ONLY_WORDS ?s" by code_simp
  have kept: "strip_negated ?s 0 ?s 0 = ''find\<newline>web; ''" by code_simp
  have safe: "\<not> rx_test MUTATION_WORDS ''find\<newline>web; ''" by code_simp
  have groups: "map snd (filter (\<lambda>(ws, g). rx_test (rx_words ws) ?s) GROUP_WORDS) = [''browser-research'']" by code_simp
  show ?thesis by (simp only: inferTaskToolGroups_def Let_def low reads kept safe groups) simp
qed


text \<open>
  A clause that begins with a negation is taken out whole, so a request inside it is not seen: the task that is told not to fail to
  send a mail is routed as one that only reads.
\<close>

lemma negated_clause_hides_request:
  "inferTaskToolGroups ''Find'' ''mail; don't fail to send'' = Some [''email-triage'']"
proof -
  let ?s = "''find\<newline>mail; don't fail to send''"
  have low: "js_lower (''Find'' @ [CHR 0x0A] @ ''mail; don't fail to send'') = ?s" by code_simp
  have reads: "rx_test READ_ONLY_WORDS ?s" by code_simp
  have kept: "strip_negated ?s 0 ?s 0 = ''find\<newline>mail; ''" by code_simp
  have safe: "\<not> rx_test MUTATION_WORDS ''find\<newline>mail; ''" by code_simp
  have groups: "map snd (filter (\<lambda>(ws, g). rx_test (rx_words ws) ?s) GROUP_WORDS) = [''email-triage'']" by code_simp
  show ?thesis by (simp only: inferTaskToolGroups_def Let_def low reads kept safe groups) simp
qed

end
