(* ===== verification/QrField.thy ===== *)
theory QrField
  imports Prelude
begin

unbundle bit_operations_syntax

text \<open>
  The arithmetic of the QR encoder (\<^verbatim>\<open>packages/protocol/src/qr.ts\<close>): the tables of the field with 256 elements, its
  product, the generator polynomials and the error-correction codewords of a block.

  A number on which the code works bit by bit is a 32-bit word, an entry of a \<open>Uint8Array\<close> and a codeword an 8-bit word.
  The field laws are proved from the way the tables are filled: an entry of \<open>GF_EXP\<close> is a power of the map
  \<open>times_x\<close>, which is linear, and every byte but 0 is such a power.
\<close>

type_synonym byte = "8 word"
type_synonym number = "32 word"

section \<open>The code\<close>

text \<open>\<open>x = x << 1 ^ (x & 0x80 ? 0x11d : 0)\<close>, and the two loops that fill the tables.\<close>

definition gf_next :: "number \<Rightarrow> number" where
  "gf_next x = push_bit 1 x XOR (if x AND 0x80 \<noteq> 0 then 0x11d else 0)"

fun gf_fill :: "nat \<Rightarrow> nat \<Rightarrow> number \<Rightarrow> byte list \<times> byte list \<Rightarrow> byte list \<times> byte list" where
  "gf_fill 0 i x t = t"
| "gf_fill (Suc k) i x (e, l) = gf_fill k (Suc i) (gf_next x) (e[i := ucast x], l[unat x := of_nat i])"

definition gf_double :: "byte list \<Rightarrow> byte list" where
  "gf_double e = fold (\<lambda>i e. e[i := e ! (i - 255)]) [255..<512] e"

definition GF_EXP :: "byte list" where
  "GF_EXP = gf_double (fst (gf_fill 255 0 1 (replicate 512 0, replicate 256 0)))"

definition GF_LOG :: "byte list" where
  "GF_LOG = snd (gf_fill 255 0 1 (replicate 512 0, replicate 256 0))"

definition gfMultiply :: "byte \<Rightarrow> byte \<Rightarrow> byte" where
  "gfMultiply a b = (if a = 0 \<or> b = 0 then 0 else GF_EXP ! (unat (GF_LOG ! unat a) + unat (GF_LOG ! unat b)))"

text \<open>One round of \<open>generatorPoly\<close>: the product of \<open>poly\<close> with \<open>x - a\<close>, leading coefficient first.\<close>

definition times_root :: "byte list \<Rightarrow> byte \<Rightarrow> byte list" where
  "times_root poly a = map2 (XOR) (poly @ [0]) (0 # map (\<lambda>c. gfMultiply c a) poly)"

definition generatorPoly :: "nat \<Rightarrow> byte list" where
  "generatorPoly degree = fold (\<lambda>i poly. times_root poly (GF_EXP ! i)) [0..<degree] [1]"

text \<open>One round of \<open>ecCodewords\<close>.\<close>

definition ec_step :: "byte list \<Rightarrow> byte \<Rightarrow> byte list \<Rightarrow> byte list" where
  "ec_step generator b remainder =
     (let factor = b XOR hd remainder in
      map2 (XOR) (tl remainder @ [0]) (map (\<lambda>g. gfMultiply g factor) (tl generator)))"

definition ecCodewords :: "byte list \<Rightarrow> nat \<Rightarrow> byte list" where
  "ecCodewords block degree = fold (ec_step (generatorPoly degree)) block (replicate degree 0)"

section \<open>The field\<close>

text \<open>Multiplication by \<open>x\<close> on bytes, and its powers of one.\<close>

definition times_x :: "byte \<Rightarrow> byte" where
  "times_x b = push_bit 1 b XOR (if bit b 7 then 0x1d else 0)"

definition POWERS :: "byte list" where
  "POWERS =
    [1, 2, 4, 8, 16, 32, 64, 128, 29, 58, 116, 232, 205, 135, 19, 38, 76, 152, 45, 90,
     180, 117, 234, 201, 143, 3, 6, 12, 24, 48, 96, 192, 157, 39, 78, 156, 37, 74, 148, 53,
     106, 212, 181, 119, 238, 193, 159, 35, 70, 140, 5, 10, 20, 40, 80, 160, 93, 186, 105, 210,
     185, 111, 222, 161, 95, 190, 97, 194, 153, 47, 94, 188, 101, 202, 137, 15, 30, 60, 120, 240,
     253, 231, 211, 187, 107, 214, 177, 127, 254, 225, 223, 163, 91, 182, 113, 226, 217, 175, 67, 134,
     17, 34, 68, 136, 13, 26, 52, 104, 208, 189, 103, 206, 129, 31, 62, 124, 248, 237, 199, 147,
     59, 118, 236, 197, 151, 51, 102, 204, 133, 23, 46, 92, 184, 109, 218, 169, 79, 158, 33, 66,
     132, 21, 42, 84, 168, 77, 154, 41, 82, 164, 85, 170, 73, 146, 57, 114, 228, 213, 183, 115,
     230, 209, 191, 99, 198, 145, 63, 126, 252, 229, 215, 179, 123, 246, 241, 255, 227, 219, 171, 75,
     150, 49, 98, 196, 149, 55, 110, 220, 165, 87, 174, 65, 130, 25, 50, 100, 200, 141, 7, 14,
     28, 56, 112, 224, 221, 167, 83, 166, 81, 162, 89, 178, 121, 242, 249, 239, 195, 155, 43, 86,
     172, 69, 138, 9, 18, 36, 72, 144, 61, 122, 244, 245, 247, 243, 251, 235, 203, 139, 11, 22,
     44, 88, 176, 125, 250, 233, 207, 131, 27, 54, 108, 216, 173, 71, 142]"

lemma test_high_bit: "x AND 0x80 \<noteq> 0 \<longleftrightarrow> bit (x :: number) 7"
  using and_exp_eq_0_iff_not_bit [of x 7] by simp

lemma byte_cases: "n < LENGTH(8) \<Longrightarrow> n = 0 \<or> n = 1 \<or> n = 2 \<or> n = 3 \<or> n = 4 \<or> n = 5 \<or> n = 6 \<or> n = 7"
  by auto

lemma bit_twice: "bit (push_bit 1 (x :: 'a :: len word)) n \<longleftrightarrow> n < LENGTH('a) \<and> 0 < n \<and> bit x (n - 1)"
  unfolding bit_push_bit_iff possible_bit_word by auto

lemma bit_times_2: "bit ((x :: 'a :: len word) * 2) n \<longleftrightarrow> n < LENGTH('a) \<and> 0 < n \<and> bit x (n - 1)"
  using bit_double_iff [of x n] by (auto simp: mult.commute)

lemma gf_next_byte: "ucast (gf_next x) = times_x (ucast x)"
proof (rule bit_word_eqI)
  fix n assume n: "n < LENGTH(8)"
  have "bit (0x11d :: number) n = bit (0x1d :: byte) n" using byte_cases [OF n] by (elim disjE) simp_all
  moreover have "bit (ucast x :: byte) (n - 1) = bit x (n - 1)" using n by (auto simp: bit_ucast_iff)
  moreover have "bit (ucast x :: byte) 7 = bit x 7" by (simp add: bit_ucast_iff)
  ultimately show "bit (ucast (gf_next x) :: byte) n = bit (times_x (ucast x)) n"
    using n unfolding gf_next_def times_x_def test_high_bit bit_ucast_iff bit_xor_iff bit_twice by auto
qed

lemma small_bits: "x < 256 \<longleftrightarrow> (\<forall>n \<ge> 8. \<not> bit (x :: number) n)"
proof -
  have "take_bit 8 x = x mod 256" by (simp add: take_bit_eq_mod)
  then have "x < 256 \<longleftrightarrow> take_bit 8 x = x"
    using mod_word_less [of x 256] word_mod_less_divisor [of 256 x] by auto
  also have "\<dots> \<longleftrightarrow> (\<forall>n \<ge> 8. \<not> bit x n)"
    unfolding bit_eq_iff bit_take_bit_iff using bit_imp_le_length [of x] by (metis leD leI possible_bit_word)
  finally show ?thesis .
qed

lemma gf_next_small:
  assumes "x < 256"
  shows "gf_next x < 256"
  unfolding small_bits
proof (intro allI impI)
  fix n :: nat assume n: "8 \<le> n"
  have high: "\<not> bit x (n - 1)" if "n \<noteq> 8" using assms n that unfolding small_bits by auto
  have "bit (take_bit 9 (0x11d :: number)) n \<longleftrightarrow> n = 8"
    using n unfolding bit_take_bit_iff by (cases "n = 8") auto
  then have "bit (0x11d :: number) n \<longleftrightarrow> n = 8" by simp
  with high n show "\<not> bit (gf_next x) n"
    unfolding gf_next_def test_high_bit bit_xor_iff by (cases "n = 8"; cases "bit x 7") (auto simp: bit_times_2)
qed

lemma times_x_xor: "times_x (a XOR b) = times_x a XOR times_x b"
proof (rule bit_word_eqI)
  fix n assume "n < LENGTH(8)"
  then show "bit (times_x (a XOR b)) n = bit (times_x a XOR times_x b) n"
    unfolding times_x_def bit_xor_iff bit_twice by auto
qed

lemma xor_cancel: "(a :: byte) XOR b = 0 \<Longrightarrow> b = a"
proof -
  assume "a XOR b = 0"
  moreover have "a = (a XOR b) XOR b" by (simp add: xor.assoc)
  ultimately show "b = a" by simp
qed

lemma times_x_0 [simp]: "times_x 0 = 0"
  by (simp add: times_x_def)

lemma powers_step: "map times_x POWERS = tl POWERS @ [1]"
  by (simp add: POWERS_def times_x_def)

lemma powers_one: "1 \<notin> set (tl POWERS)" "length POWERS = 255" "hd POWERS = 1"
  by (simp_all add: POWERS_def)


lemma powers_nth: "k < 255 \<Longrightarrow> POWERS ! k = (times_x ^^ k) 1"
proof (induction k)
  case 0
  then show ?case using powers_one by (simp add: hd_conv_nth flip: length_greater_0_conv)
next
  case (Suc k)
  then have "POWERS ! Suc k = (tl POWERS @ [1]) ! k" using powers_one(2) by (simp add: nth_append nth_tl)
  also have "\<dots> = times_x (POWERS ! k)" using Suc powers_one(2) by (simp flip: powers_step)
  finally show ?case using Suc by simp
qed

lemma power_period: "(times_x ^^ 255) 1 = 1"
proof -
  have nat: "(255 :: nat) = Suc 254" by simp
  have "(times_x ^^ 255) 1 = times_x ((times_x ^^ 254) 1)"
    unfolding nat by (simp only: funpow.simps comp_apply)
  also have "\<dots> = map times_x POWERS ! 254" using powers_nth [of 254] powers_one(2) by simp
  also have "\<dots> = 1" unfolding powers_step using powers_one(2) by (simp add: nth_append)
  finally show ?thesis .
qed

lemma power_not_one: "0 < k \<Longrightarrow> k < 255 \<Longrightarrow> (times_x ^^ k) 1 \<noteq> 1"
proof -
  assume k: "0 < k" "k < 255"
  then have "tl POWERS ! (k - 1) = (times_x ^^ k) 1" using powers_nth powers_one(2) by (simp add: nth_tl)
  moreover have "tl POWERS ! (k - 1) \<in> set (tl POWERS)" using k powers_one(2) by (intro nth_mem) simp
  ultimately show ?thesis using powers_one(1) by auto
qed

lemma times_x_inj: "times_x a = times_x b \<Longrightarrow> a = b"
proof -
  assume "times_x a = times_x b"
  then have z: "times_x (a XOR b) = 0" by (simp add: times_x_xor)
  define d where "d = a XOR b"
  have bits: "\<not> bit (times_x d) n" for n using z by (simp add: d_def)
  have high: "\<not> bit d 7" using bits [of 0] unfolding times_x_def by (auto simp: bit_xor_iff bit_times_2 split: if_splits)
  have low: "\<not> bit d n" if "n < 7" for n
    using bits [of "Suc n"] that high unfolding times_x_def by (auto simp: bit_times_2)
  have "d = 0"
  proof (rule bit_word_eqI)
    fix n assume "n < LENGTH(8)"
    then show "bit d n = bit (0 :: byte) n" using low high by (cases "n = 7") auto
  qed
  moreover have "a = d XOR b" by (simp add: d_def xor.assoc)
  ultimately show "a = b" by simp
qed

lemma power_inj:
  assumes "i < 255" and "j < 255" and "(times_x ^^ i) 1 = (times_x ^^ j) 1"
  shows "i = j"
proof -
  have inj: "(times_x ^^ i) a = (times_x ^^ i) b \<Longrightarrow> a = b" for i a b by (induction i) (auto dest: times_x_inj)
  have *: False if "i < j" "j < 255" "(times_x ^^ i) 1 = (times_x ^^ j) 1" for i j
  proof -
    have "(times_x ^^ i) ((times_x ^^ (j - i)) 1) = (times_x ^^ i) 1"
      using that by (simp flip: funpow_add [THEN fun_cong, unfolded comp_def])
    then have "(times_x ^^ (j - i)) 1 = 1" by (rule inj)
    moreover have "0 < j - i" "j - i < 255" using that by auto
    ultimately show False using power_not_one by blast
  qed
  show ?thesis using assms * [of i j] * [of j i] by (metis linorder_neqE_nat)
qed

lemma power_nonzero: "(times_x ^^ k) 1 \<noteq> 0"
  by (induction k) (auto dest: times_x_inj [of _ 0, simplified])

text \<open>Every byte but 0 is a power.\<close>

lemma power_of: "a \<noteq> 0 \<Longrightarrow> \<exists>k<255. a = (times_x ^^ k) 1"
proof -
  let ?P = "(\<lambda>k. (times_x ^^ k) 1) ` {..<255}"
  have card: "card (UNIV :: byte set) = 256" by (simp add: card_word)
  have "card ?P = 255" by (subst card_image) (auto simp: inj_on_def intro: power_inj)
  moreover have "card (UNIV - {0 :: byte}) = 255" using card by (simp add: card_Diff_singleton)
  moreover have "?P \<subseteq> UNIV - {0}" using power_nonzero by auto
  ultimately have "?P = UNIV - {0}" by (intro card_subset_eq) simp_all
  moreover assume "a \<noteq> 0"
  ultimately show ?thesis by auto
qed


section \<open>The tables\<close>

lemma gf_fill_exp:
  "i + k \<le> length e \<Longrightarrow> fst (gf_fill k i x (e, l)) =
     take i e @ map (\<lambda>j. ucast ((gf_next ^^ j) x)) [0..<k] @ drop (i + k) e"
proof (induction k arbitrary: i x e l)
  case (Suc k)
  then have "fst (gf_fill (Suc k) i x (e, l)) =
      take (Suc i) (e[i := ucast x]) @ map (\<lambda>j. ucast ((gf_next ^^ j) (gf_next x))) [0..<k] @ drop (Suc i + k) (e[i := ucast x])"
    by simp
  also have "take (Suc i) (e[i := ucast x]) = take i e @ [ucast x]"
    using Suc.prems by (simp add: take_Suc_conv_app_nth)
  also have "map (\<lambda>j. ucast ((gf_next ^^ j) (gf_next x))) [0..<k] = map (\<lambda>j. ucast ((gf_next ^^ Suc j) x)) [0..<k]"
    by (simp add: funpow_swap1)
  also have "drop (Suc i + k) (e[i := ucast x]) = drop (i + Suc k) e" by (simp add: drop_update_cancel)
  finally show ?case by (simp add: upt_conv_Cons map_Suc_upt [symmetric] del: upt_Suc funpow.simps)
qed simp

lemma gf_fill_log_other:
  "(\<And>j. j < k \<Longrightarrow> unat ((gf_next ^^ j) x) \<noteq> v) \<Longrightarrow> snd (gf_fill k i x (e, l)) ! v = l ! v"
proof (induction k arbitrary: i x e l)
  case (Suc k)
  have "unat ((gf_next ^^ j) (gf_next x)) \<noteq> v" if "j < k" for j
    using Suc.prems [of "Suc j"] that by (simp add: funpow_swap1)
  moreover have "unat x \<noteq> v" using Suc.prems [of 0] by simp
  ultimately show ?case using Suc.IH [of "gf_next x"] by simp
qed simp

lemma gf_fill_log:
  assumes "\<And>i j. i < k \<Longrightarrow> j < k \<Longrightarrow> (gf_next ^^ i) x = (gf_next ^^ j) x \<Longrightarrow> i = j"
    and "\<And>j. j < k \<Longrightarrow> unat ((gf_next ^^ j) x) < length l" and "j < k"
  shows "snd (gf_fill k i x (e, l)) ! unat ((gf_next ^^ j) x) = of_nat (i + j)"
  using assms
proof (induction k arbitrary: i x e l j)
  case (Suc k)
  show ?case
  proof (cases j)
    case 0
    have "unat ((gf_next ^^ m) (gf_next x)) \<noteq> unat x" if "m < k" for m
      using Suc.prems(1) [of "Suc m" 0] that by (auto simp: funpow_swap1 dest: word_unat_eq_iff [THEN iffD2])
    then have "snd (gf_fill k (Suc i) (gf_next x) (e[i := ucast x], l[unat x := of_nat i])) ! unat x = l[unat x := of_nat i] ! unat x"
      by (rule gf_fill_log_other)
    also have "\<dots> = of_nat i" using Suc.prems(2) [of 0] by simp
    finally show ?thesis using 0 by simp
  next
    case (Suc m)
    have "snd (gf_fill k (Suc i) (gf_next x) (e[i := ucast x], l[unat x := of_nat i])) ! unat ((gf_next ^^ m) (gf_next x)) = of_nat (Suc i + m)"
    proof (rule Suc.IH)
      show "a = b" if "a < k" "b < k" "(gf_next ^^ a) (gf_next x) = (gf_next ^^ b) (gf_next x)" for a b
        using Suc.prems(1) [of "Suc a" "Suc b"] that by (simp add: funpow_swap1)
      show "unat ((gf_next ^^ a) (gf_next x)) < length (l[unat x := of_nat i])" if "a < k" for a
        using Suc.prems(2) [of "Suc a"] that by (simp add: funpow_swap1)
      show "m < k" using Suc.prems(3) Suc by simp
    qed
    with Suc show ?thesis by (simp add: funpow_swap1)
  qed
qed simp

lemma next_power: "(gf_next ^^ j) 1 < 256 \<and> ucast ((gf_next ^^ j) 1) = (times_x ^^ j) 1"
  by (induction j) (auto simp: gf_next_small gf_next_byte)

lemma unat_next_power: "unat ((gf_next ^^ j) 1) = unat ((times_x ^^ j) 1)"
proof -
  have "unat ((gf_next ^^ j) 1) < 256" using next_power [of j] by (simp add: word_less_nat_alt)
  then have "unat (ucast ((gf_next ^^ j) 1) :: byte) = unat ((gf_next ^^ j) 1)"
    by (simp add: unsigned_ucast_eq take_bit_nat_eq_self)
  with next_power [of j] show ?thesis by simp
qed

lemma log_power: "j < 255 \<Longrightarrow> GF_LOG ! unat ((times_x ^^ j) 1) = of_nat j"
proof -
  assume j: "j < 255"
  have "GF_LOG ! unat ((gf_next ^^ j) 1) = of_nat (0 + j)"
    unfolding GF_LOG_def
  proof (rule gf_fill_log)
    show "a = b" if "a < 255" "b < 255" "(gf_next ^^ a) 1 = (gf_next ^^ b) 1" for a b
      using that power_inj next_power by metis
    show "unat ((gf_next ^^ a) 1) < length (replicate 256 0 :: byte list)" for a
      using next_power [of a] by (simp add: word_less_nat_alt)
  qed (rule j)
  then show ?thesis by (simp add: unat_next_power)
qed

lemma gf_double_nth:
  assumes "length e = 512" and "m \<le> 257"
  shows "length (fold (\<lambda>i e. e[i := e ! (i - 255)]) [255..<255 + m] e) = 512 \<and>
    (\<forall>n < 512. fold (\<lambda>i e. e[i := e ! (i - 255)]) [255..<255 + m] e ! n =
      (if n < 255 \<or> 255 + m \<le> n then e ! n else e ! ((n - 255) mod 255)))"
  using assms(2)
proof (induction m)
  case (Suc m)
  define g where "g = fold (\<lambda>i e. e[i := e ! (i - 255)]) [255..<255 + m] e"
  have IH: "length g = 512" "\<And>n. n < 512 \<Longrightarrow> g ! n = (if n < 255 \<or> 255 + m \<le> n then e ! n else e ! ((n - 255) mod 255))"
    using Suc by (simp_all add: g_def)
  have "[255..<255 + Suc m] = [255..<255 + m] @ [255 + m]" unfolding add_Suc_right by (rule upt_Suc_append) simp
  then have "fold (\<lambda>i e. e[i := e ! (i - 255)]) [255..<255 + Suc m] e = g[255 + m := g ! m]"
    by (simp only: g_def fold_append comp_apply) simp
  moreover have "g ! m = e ! (m mod 255)" using IH(2) [of m] Suc.prems by (auto simp: mod_if)
  ultimately show ?case using IH Suc.prems by (auto simp: nth_list_update)
qed (use assms(1) in auto)

lemma exp_power: "n < 510 \<Longrightarrow> GF_EXP ! n = (times_x ^^ n) 1"
proof -
  assume n: "n < 510"
  define e where "e = fst (gf_fill 255 0 1 (replicate 512 (0 :: byte), replicate 256 0))"
  have e: "e = map (\<lambda>j. (times_x ^^ j) 1) [0..<255] @ replicate 257 0"
    unfolding e_def by (subst gf_fill_exp) (simp_all add: next_power del: upt_rec_numeral)
  have "length e = 512" by (simp add: e del: upt_rec_numeral)
  with n have "GF_EXP ! n = (if n < 255 then e ! n else e ! ((n - 255) mod 255))"
    using gf_double_nth [of e 257] by (simp add: GF_EXP_def gf_double_def e_def del: upt_rec_numeral)
  also have "\<dots> = (if n < 255 then (times_x ^^ n) 1 else (times_x ^^ (n - 255)) 1)"
    using n by (auto simp: e nth_append simp del: upt_rec_numeral)
  also have "\<dots> = (times_x ^^ n) 1"
  proof (cases "n < 255")
    case False
    then have "(times_x ^^ n) 1 = (times_x ^^ (n - 255)) ((times_x ^^ 255) 1)"
      by (simp flip: funpow_add [THEN fun_cong, unfolded comp_def])
    with False show ?thesis by (simp add: power_period)
  qed simp
  finally show ?thesis .
qed

text \<open>So the product with a power of \<open>x\<close> is that power of \<open>times_x\<close>.\<close>

lemma multiply_power: "j < 255 \<Longrightarrow> gfMultiply a ((times_x ^^ j) 1) = (times_x ^^ j) a"
proof (cases "a = 0")
  case True
  have "(times_x ^^ j) 0 = 0" by (induction j) simp_all
  with True show ?thesis by (simp add: gfMultiply_def)
next
  case False
  assume j: "j < 255"
  from False obtain i where i: "i < 255" "a = (times_x ^^ i) 1" using power_of by blast
  have "gfMultiply a ((times_x ^^ j) 1) = GF_EXP ! (i + j)"
    using False power_nonzero [of j] i j by (simp add: gfMultiply_def log_power unat_of_nat)
  also have "\<dots> = (times_x ^^ (j + i)) 1" using i j by (simp add: exp_power add.commute)
  finally show ?thesis by (simp add: i funpow_add)
qed


lemma powers_xor: "(times_x ^^ k) (a XOR b) = (times_x ^^ k) a XOR (times_x ^^ k) b"
  by (induction k) (simp_all add: times_x_xor)

lemma gf_zero [simp]: "gfMultiply 0 b = 0" "gfMultiply a 0 = 0"
  by (simp_all add: gfMultiply_def)

lemma gf_commute: "gfMultiply a b = gfMultiply b a"
  by (simp add: gfMultiply_def add.commute)

lemma gf_xor_left: "gfMultiply (a XOR b) c = gfMultiply a c XOR gfMultiply b c"
proof (cases "c = 0")
  case False
  then obtain k where "k < 255" "c = (times_x ^^ k) 1" using power_of by blast
  then show ?thesis by (simp add: multiply_power powers_xor)
qed simp

lemma gf_xor_right: "gfMultiply c (a XOR b) = gfMultiply c a XOR gfMultiply c b"
  by (simp add: gf_xor_left gf_commute [of c])

lemma gf_assoc: "gfMultiply (gfMultiply a b) c = gfMultiply a (gfMultiply b c)"
proof (cases "a = 0 \<or> c = 0")
  case False
  then obtain i k where i: "i < 255" "a = (times_x ^^ i) 1" and k: "k < 255" "c = (times_x ^^ k) 1"
    using power_of by metis
  have "gfMultiply (gfMultiply a b) c = (times_x ^^ k) ((times_x ^^ i) b)"
    using i k by (simp add: gf_commute [of _ b] multiply_power)
  also have "\<dots> = (times_x ^^ i) ((times_x ^^ k) b)" by (simp flip: funpow_add [THEN fun_cong, unfolded comp_def] add: add.commute)
  also have "\<dots> = gfMultiply ((times_x ^^ k) b) a" using i by (simp add: multiply_power)
  also have "(times_x ^^ k) b = gfMultiply b c" using k by (simp add: multiply_power)
  finally show ?thesis by (simp add: gf_commute [of a "gfMultiply b c"])
qed auto

section \<open>Codewords vanish at the roots\<close>

text \<open>The value of a polynomial, leading coefficient first.\<close>

definition poly_at :: "byte \<Rightarrow> byte list \<Rightarrow> byte" where
  "poly_at x p = fold (\<lambda>c v. gfMultiply v x XOR c) p 0"

fun gf_power :: "byte \<Rightarrow> nat \<Rightarrow> byte" where
  "gf_power x 0 = 1"
| "gf_power x (Suc n) = gfMultiply (gf_power x n) x"

lemma gf_one [simp]: "gfMultiply a 1 = a" "gfMultiply 1 a = a"
  using multiply_power [of 0 a] gf_commute [of 1 a] by simp_all

lemma poly_at_Nil [simp]: "poly_at x [] = 0"
  by (simp add: poly_at_def)

lemma poly_at_snoc: "poly_at x (p @ [c]) = gfMultiply (poly_at x p) x XOR c"
  by (simp add: poly_at_def)

lemma poly_at_Cons: "poly_at x (c # p) = gfMultiply c (gf_power x (length p)) XOR poly_at x p"
proof (induction p rule: rev_induct)
  case (snoc d p)
  then show ?case
    using poly_at_snoc [of x "c # p" d] by (simp add: poly_at_snoc gf_xor_left gf_assoc xor.assoc)
qed (simp add: poly_at_def)

lemma poly_at_append: "poly_at x (p @ q) = gfMultiply (poly_at x p) (gf_power x (length q)) XOR poly_at x q"
proof (induction q rule: rev_induct)
  case (snoc d q)
  then show ?case by (simp add: poly_at_snoc gf_xor_left gf_assoc xor.assoc flip: append_assoc)
qed simp

lemma poly_at_xor: "length p = length q \<Longrightarrow> poly_at x (map2 (XOR) p q) = poly_at x p XOR poly_at x q"
  by (induction p q rule: list_induct2) (auto simp: poly_at_Cons gf_xor_left ac_simps)

lemma poly_at_scale: "poly_at x (map (\<lambda>c. gfMultiply c a) p) = gfMultiply (poly_at x p) a"
proof (induction p rule: rev_induct)
  case (snoc c p)
  have "gfMultiply (gfMultiply (poly_at x p) a) x = gfMultiply (gfMultiply (poly_at x p) x) a"
    by (metis gf_assoc gf_commute)
  with snoc show ?case by (simp add: poly_at_snoc gf_xor_left)
qed simp

lemma poly_at_times_root: "poly_at x (times_root p a) = gfMultiply (poly_at x p) (x XOR a)"
proof -
  have "poly_at x (times_root p a) = poly_at x (p @ [0]) XOR poly_at x (0 # map (\<lambda>c. gfMultiply c a) p)"
    unfolding times_root_def by (rule poly_at_xor) simp
  then show ?thesis by (simp add: poly_at_snoc poly_at_Cons poly_at_scale gf_xor_right)
qed

lemma generator_shape: "length (generatorPoly d) = Suc d \<and> hd (generatorPoly d) = 1"
proof (induction d)
  case (Suc d)
  then obtain p where "generatorPoly d = 1 # p" "length p = d" by (cases "generatorPoly d") auto
  then show ?case by (simp add: generatorPoly_def times_root_def)
qed (simp add: generatorPoly_def)

lemma generator_roots: "i < d \<Longrightarrow> poly_at (GF_EXP ! i) (generatorPoly d) = 0"
proof (induction d)
  case (Suc d)
  then show ?case by (auto simp: generatorPoly_def poly_at_times_root less_Suc_eq)
qed simp

lemma ec_step_length: "length r = d \<Longrightarrow> 0 < d \<Longrightarrow> length g = Suc d \<Longrightarrow> length (ec_step g b r) = d"
  by (simp add: ec_step_def Let_def)

text \<open>One step keeps the remainder equal to the block read so far times a power of \<open>x\<close>, at every root.\<close>

lemma ec_step_at:
  assumes "length r = d" and "0 < d" and "length g = Suc d" and "hd g = 1" and "poly_at x g = 0"
  shows "poly_at x (ec_step g b r) = gfMultiply (poly_at x r) x XOR gfMultiply b (gf_power x d)"
proof -
  obtain r0 rs where r: "r = r0 # rs" "length rs = d - 1" using assms(1,2) by (cases r) auto
  obtain gs where g: "g = 1 # gs" "length gs = d" using assms(3,4) by (cases g) auto
  have gs: "poly_at x gs = gf_power x d"
    using assms(5) g xor_cancel by (simp add: poly_at_Cons)
  have "poly_at x (ec_step g b r) = poly_at x (rs @ [0]) XOR gfMultiply (gf_power x d) (b XOR r0)"
    using r g assms(2) by (simp add: ec_step_def poly_at_xor poly_at_scale gs)
  then have "poly_at x (ec_step g b r) = gfMultiply (poly_at x rs) x XOR gfMultiply r0 (gf_power x d) XOR gfMultiply b (gf_power x d)"
    by (simp add: poly_at_snoc gf_xor_right gf_commute [of "gf_power x d"] ac_simps)
  moreover have "gfMultiply (poly_at x r) x = gfMultiply (poly_at x rs) x XOR gfMultiply r0 (gf_power x d)"
    using r assms(2) by (cases d) (simp_all add: poly_at_Cons gf_xor_left gf_assoc xor.commute)
  ultimately show ?thesis by (simp add: xor.assoc)
qed

lemma ec_remainder:
  assumes "0 < d" and "i < d"
  shows "length (ecCodewords block d) = d \<and>
    poly_at (GF_EXP ! i) (ecCodewords block d) = gfMultiply (poly_at (GF_EXP ! i) block) (gf_power (GF_EXP ! i) d)"
proof (induction block rule: rev_induct)
  case Nil
  have "poly_at x (replicate n 0) = 0" for x n by (induction n) (simp_all add: poly_at_Cons)
  then show ?case by (simp add: ecCodewords_def)
next
  case (snoc b block)
  let ?x = "GF_EXP ! i" and ?r = "ecCodewords block d"
  have step: "ecCodewords (block @ [b]) d = ec_step (generatorPoly d) b ?r" by (simp add: ecCodewords_def)
  have "poly_at ?x (ec_step (generatorPoly d) b ?r) = gfMultiply (poly_at ?x ?r) ?x XOR gfMultiply b (gf_power ?x d)"
    using snoc.IH assms generator_shape [of d] generator_roots [OF assms(2)] by (intro ec_step_at) auto
  also have "\<dots> = gfMultiply (poly_at ?x (block @ [b])) (gf_power ?x d)"
    using snoc.IH by (simp add: poly_at_snoc gf_xor_left) (metis gf_assoc gf_commute)
  finally show ?case using step snoc.IH assms generator_shape [of d] by (simp add: ec_step_length)
qed

lemma ec_block_vanishes:
  assumes "i < d"
  shows "poly_at (GF_EXP ! i) (block @ ecCodewords block d) = 0"
  using ec_remainder [of d i block] assms by (simp add: poly_at_append)

end
