(* ===== verification/QrCode.thy ===== *)
theory QrCode
  imports QrField
begin

text \<open>
  The codewords of a QR symbol (\<^verbatim>\<open>packages/protocol/src/qr.ts\<close>): the tables of the standard, the geometry and
  capacity of the forty versions, the bit stream of a payload, its blocks and their interleaving, with a reader that
  takes the payload out of the codewords again.

  A list of bits is a list of truth values; \<open>TextEncoder\<close> is \<open>utf8\<close>, on the characters of the model.
\<close>

section \<open>Tables and capacity\<close>

datatype ec_level = EcL | EcM

definition MAX_VERSION :: nat where "MAX_VERSION = 40"

definition EC_PER_BLOCK :: "ec_level \<Rightarrow> nat list" where
  "EC_PER_BLOCK level = (case level of
     EcL \<Rightarrow> [7, 10, 15, 20, 26, 18, 20, 24, 30, 18, 20, 24, 26, 30, 22, 24, 28, 30, 28, 28,
       28, 28, 30, 30, 26, 28, 30, 30, 30, 30, 30, 30, 30, 30, 30, 30, 30, 30, 30, 30]
   | EcM \<Rightarrow> [10, 16, 26, 18, 24, 16, 18, 22, 22, 26, 30, 22, 22, 24, 24, 28, 28, 26, 26, 26,
       26, 28, 28, 28, 28, 28, 28, 28, 28, 28, 28, 28, 28, 28, 28, 28, 28, 28, 28, 28])"

definition BLOCK_COUNT :: "ec_level \<Rightarrow> nat list" where
  "BLOCK_COUNT level = (case level of
     EcL \<Rightarrow> [1, 1, 1, 1, 1, 2, 2, 2, 2, 4, 4, 4, 4, 4, 6, 6, 6, 6, 7, 8,
       8, 9, 9, 10, 12, 12, 12, 13, 14, 15, 16, 17, 18, 19, 19, 20, 21, 22, 24, 25]
   | EcM \<Rightarrow> [1, 1, 1, 2, 2, 4, 4, 4, 5, 5, 5, 8, 9, 9, 10, 10, 11, 13, 14, 16,
       17, 17, 18, 20, 21, 23, 25, 26, 28, 29, 31, 33, 35, 37, 38, 40, 43, 45, 47, 49])"

definition moduleCount :: "nat \<Rightarrow> nat" where
  "moduleCount version = version * 4 + 17"

text \<open>The loop that inserts the remaining positions after the first.\<close>

fun insert_positions :: "nat \<Rightarrow> nat \<Rightarrow> nat \<Rightarrow> nat list \<Rightarrow> nat list" where
  "insert_positions (Suc k) pos step (p # ps) = insert_positions k (pos - step) step (p # pos # ps)"
| "insert_positions k pos step ps = ps"

definition alignmentPositions :: "nat \<Rightarrow> nat list" where
  "alignmentPositions version =
     (if version = 1 then []
      else
        let count = version div 7 + 2;
            step = (if version = 32 then 26 else (version * 4 + count * 2 + 1) div (count * 2 - 2) * 2) in
        insert_positions (count - 1) (version * 4 + 10) step [6])"

definition rawDataModules :: "nat \<Rightarrow> nat" where
  "rawDataModules version =
     (let size = moduleCount version;
          n1 = size * size - 3 * 8 * 8 - 2 * (size - 16) - 31;
          n2 = (if version \<ge> 7 then n1 - 2 * 18 else n1);
          centres = length (alignmentPositions version) in
      if centres > 0 then n2 - 25 * (centres * centres - 3) + 10 * (centres - 2) else n2)"

definition totalCodewords :: "nat \<Rightarrow> nat" where
  "totalCodewords version = rawDataModules version div 8"

definition dataCodewords :: "nat \<Rightarrow> ec_level \<Rightarrow> nat" where
  "dataCodewords version level =
     totalCodewords version - EC_PER_BLOCK level ! (version - 1) * BLOCK_COUNT level ! (version - 1)"

definition charCountBits :: "nat \<Rightarrow> nat" where
  "charCountBits version = (if version \<le> 9 then 8 else 16)"

definition smallestVersion :: "nat \<Rightarrow> ec_level \<Rightarrow> nat option" where
  "smallestVersion byteLength level =
     List.find (\<lambda>version. 4 + charCountBits version + byteLength * 8 \<le> dataCodewords version level * 8) [1..<Suc MAX_VERSION]"

section \<open>The bit stream\<close>

text \<open>\<open>appendBits\<close>: the bits from the highest; a negative length, which appends nothing, is 0 here.\<close>

definition appendBits :: "bool list \<Rightarrow> number \<Rightarrow> nat \<Rightarrow> bool list" where
  "appendBits bits value n = bits @ map (bit value) (rev [0..<n])"

definition codeword_of :: "bool list \<Rightarrow> byte" where
  "codeword_of bits = fold (\<lambda>b word. push_bit 1 word OR of_bool b) bits 0"

fun to_codewords :: "bool list \<Rightarrow> byte list" where
  "to_codewords [] = []"
| "to_codewords (b # bits) = codeword_of (take 8 (b # bits)) # to_codewords (drop 8 (b # bits))"

definition buildDataCodewords :: "byte list \<Rightarrow> nat \<Rightarrow> ec_level \<Rightarrow> byte list" where
  "buildDataCodewords bytes version level =
     (let capacity = dataCodewords version level;
          bits1 = appendBits (appendBits [] 4 4) (of_nat (length bytes)) (charCountBits version);
          bits2 = fold (\<lambda>b bits. appendBits bits (ucast b) 8) bytes bits1;
          bits3 = appendBits bits2 0 (min 4 (capacity * 8 - length bits2));
          bits4 = appendBits bits3 0 ((8 - length bits3 mod 8) mod 8);
          codewords = to_codewords bits4 in
      codewords @ map (\<lambda>i. if i mod 2 = 0 then 0xec else 0x11) [0..<capacity - length codewords])"

text \<open>\<open>TextEncoder\<close> on characters below 256: one byte, or two from 128 on.\<close>

definition utf8_char :: "char \<Rightarrow> byte list" where
  "utf8_char c = (let n = of_char c :: nat in
     if n < 128 then [of_nat n] else [of_nat (192 + n div 64), of_nat (128 + n mod 64)])"

definition utf8 :: "string \<Rightarrow> byte list" where
  "utf8 s = concat (map utf8_char s)"

section \<open>Blocks\<close>

fun slices :: "nat list \<Rightarrow> 'a list \<Rightarrow> 'a list list" where
  "slices [] xs = []"
| "slices (n # ns) xs = take n xs # slices ns (drop n xs)"

definition block_lengths :: "nat \<Rightarrow> nat \<Rightarrow> nat list" where
  "block_lengths n blocks = map (\<lambda>i. n div blocks + (if i < blocks - n mod blocks then 0 else 1)) [0..<blocks]"

definition interleave :: "byte list \<Rightarrow> nat \<Rightarrow> ec_level \<Rightarrow> byte list" where
  "interleave data version level =
     (let blocks = BLOCK_COUNT level ! (version - 1);
          ecLength = EC_PER_BLOCK level ! (version - 1);
          shortLength = length data div blocks;
          dataBlocks = slices (block_lengths (length data) blocks) data;
          ecBlocks = map (\<lambda>block. ecCodewords block ecLength) dataBlocks in
      concat (map (\<lambda>i. concat (map (\<lambda>block. if i < length block then [block ! i] else []) dataBlocks)) [0..<Suc shortLength]) @
      concat (map (\<lambda>i. map (\<lambda>block. block ! i) ecBlocks) [0..<ecLength]))"

section \<open>Capacities\<close>

definition known_version :: "nat \<Rightarrow> bool" where
  "known_version version \<longleftrightarrow> 1 \<le> version \<and> version \<le> 40"

lemma version_list: "[1..<41] =
    [1, 2, 3, 4, 5, 6, 7, 8, 9, 10, 11, 12, 13, 14, 15, 16, 17, 18, 19, 20,
     21, 22, 23, 24, 25, 26, 27, 28, 29, 30, 31, 32, 33, 34, 35, 36, 37, 38, 39, 40]"
  by code_simp

lemma versions: "known_version v \<longleftrightarrow> v \<in> set [1..<41]"
  by (auto simp: known_version_def)

text \<open>What the tables say of each version and level: there is room for the blocks and for their error correction.\<close>

definition table_ok :: "nat \<Rightarrow> ec_level \<Rightarrow> bool" where
  "table_ok v level \<longleftrightarrow> 
     (let blocks = BLOCK_COUNT level ! (v - 1); ec = EC_PER_BLOCK level ! (v - 1) in
      0 < blocks \<and> 0 < ec \<and> blocks \<le> dataCodewords v level \<and> dataCodewords v level + ec * blocks = totalCodewords v \<and>
      dataCodewords v level < 2 ^ charCountBits v)"

lemma insert_positions_length: "ps \<noteq> [] \<Longrightarrow> length (insert_positions k pos step ps) = k + length ps"
  by (induction k arbitrary: pos ps) (auto simp: neq_Nil_conv)

lemma centre_count: "length (alignmentPositions v) = (if v = 1 then 0 else v div 7 + 2)"
  by (simp add: alignmentPositions_def Let_def insert_positions_length)

lemma raw_modules: "rawDataModules v =
   (let size = v * 4 + 17; n1 = size * size - 192 - 2 * (size - 16) - 31; n2 = (if v \<ge> 7 then n1 - 36 else n1); k = v div 7 + 2 in
    if v = 1 then n1 else n2 - 25 * (k * k - 3) + 10 * (k - 2))"
  by (simp add: rawDataModules_def moduleCount_def centre_count Let_def)

lemma codeword_counts: "map totalCodewords [1..<41] =
   [26, 44, 70, 100, 134, 172, 196, 242, 292, 346, 404, 466, 532, 581, 655, 733, 815, 901, 991, 1085, 1156, 1258, 1364, 1474,
    1588, 1706, 1828, 1921, 2051, 2185, 2323, 2465, 2611, 2761, 2876, 3034, 3196, 3362, 3532, 3706]"
  unfolding version_list by (simp add: totalCodewords_def raw_modules)

lemma tables: "known_version v \<Longrightarrow> table_ok v level"
proof -
  have "list_all (\<lambda>v. table_ok v EcL) [1..<41]"
    unfolding version_list by (simp add: table_ok_def dataCodewords_def totalCodewords_def raw_modules EC_PER_BLOCK_def BLOCK_COUNT_def charCountBits_def)
  moreover have "list_all (\<lambda>v. table_ok v EcM) [1..<41]"
    unfolding version_list by (simp add: table_ok_def dataCodewords_def totalCodewords_def raw_modules EC_PER_BLOCK_def BLOCK_COUNT_def charCountBits_def)
  ultimately show "known_version v \<Longrightarrow> table_ok v level" unfolding versions list_all_iff by (cases level) auto
qed

section \<open>Reading codewords\<close>

text \<open>The reader's side: the bits of a codeword, a number, and the payload of the data codewords.\<close>

definition byte_bits :: "byte \<Rightarrow> bool list" where
  "byte_bits w = map (bit w) (rev [0..<8])"

definition read_number :: "bool list \<Rightarrow> nat" where
  "read_number bits = fold (\<lambda>b n. 2 * n + of_bool b) bits 0"

definition read_payload :: "nat \<Rightarrow> byte list \<Rightarrow> byte list option" where
  "read_payload version codewords =
     (let bits = concat (map byte_bits codewords); rest = drop 4 bits; k = charCountBits version in
      if take 4 bits = [False, True, False, False]
      then Some (take (read_number (take k rest)) (to_codewords (drop k rest))) else None)"

lemma byte_bits_length [simp]: "length (byte_bits w) = 8"
  by (simp add: byte_bits_def)

lemma bit_codeword_of: "bit (codeword_of bits) n \<longleftrightarrow> n < 8 \<and> n < length bits \<and> rev bits ! n"
proof (induction bits arbitrary: n rule: rev_induct)
  case (snoc b bits)
  have "bit (codeword_of (bits @ [b])) n \<longleftrightarrow> bit (push_bit 1 (codeword_of bits)) n \<or> bit (of_bool b :: byte) n"
    by (simp add: codeword_of_def bit_or_iff)
  then show ?case unfolding bit_twice snoc by (cases n) (auto simp: bit_of_bool_iff)
qed (simp add: codeword_of_def)

lemma codeword_of_bits [simp]: "codeword_of (byte_bits w) = w"
  by (rule bit_word_eqI) (simp add: bit_codeword_of byte_bits_def rev_map del: upt_rec_numeral)

lemma bits_of_codeword: "length bits = 8 \<Longrightarrow> byte_bits (codeword_of bits) = bits"
  by (rule nth_equalityI) (auto simp: byte_bits_def bit_codeword_of rev_nth simp del: upt_rec_numeral)

lemma to_codewords_append: "length bits = 8 \<Longrightarrow> to_codewords (bits @ rest) = codeword_of bits # to_codewords rest"
  by (cases bits) simp_all

lemma to_codewords_bytes: "to_codewords (concat (map byte_bits ws) @ rest) = ws @ to_codewords rest"
  by (induction ws) (simp_all add: to_codewords_append)

lemma bytes_of_bits: "8 dvd length bits \<Longrightarrow> concat (map byte_bits (to_codewords bits)) = bits \<and> length (to_codewords bits) = length bits div 8"
proof (induction bits rule: to_codewords.induct)
  case (2 b bits)
  from 2(2) have "8 \<le> length (b # bits)" by (intro dvd_imp_le) simp_all
  then have len: "length (take 8 (b # bits)) = 8" by simp
  have "8 dvd length (drop 8 (b # bits))" using 2(2) unfolding length_drop by (rule dvd_diff_nat) simp
  note IH = 2(1) [OF this]
  have "concat (map byte_bits (to_codewords (b # bits))) = take 8 (b # bits) @ drop 8 (b # bits)"
    using IH by (simp only: to_codewords.simps list.map concat.simps bits_of_codeword [OF len])
  moreover have "length (to_codewords (b # bits)) = Suc ((length (b # bits) - 8) div 8)"
    using IH by (simp only: to_codewords.simps list.size length_drop)
  moreover have "Suc ((length (b # bits) - 8) div 8) = length (b # bits) div 8"
    using \<open>8 \<le> length (b # bits)\<close> by (simp only: le_div_geq)
  ultimately show ?case by (simp only: append_take_drop_id)
qed simp

lemma read_number_bits: "read_number bits = horner_sum of_bool 2 (rev bits)"
  by (induction bits rule: rev_induct) (simp_all add: read_number_def)

lemma read_appended: "n < 2 ^ k \<Longrightarrow> k \<le> 32 \<Longrightarrow> read_number (map (bit (of_nat n :: number)) (rev [0..<k])) = n"
proof -
  assume n: "n < 2 ^ k" and k: "k \<le> 32"
  have "map (bit (of_nat n :: number)) [0..<k] = map (bit n) [0..<k]"
    using k by (auto simp: bit_of_nat_iff)
  then have "read_number (map (bit (of_nat n :: number)) (rev [0..<k])) = horner_sum of_bool 2 (map (bit n) [0..<k])"
    by (simp only: read_number_bits rev_map rev_rev_ident)
  also have "\<dots> = take_bit k n" by (rule horner_sum_bit_eq_take_bit)
  finally show ?thesis using n by (simp add: take_bit_nat_eq_self)
qed

lemma append_bytes: "fold (\<lambda>b bits. appendBits bits (ucast b) 8) bytes bits = bits @ concat (map byte_bits bytes)"
proof (induction bytes arbitrary: bits)
  case (Cons b bytes)
  have "map (bit (ucast b :: number)) (rev [0..<8]) = byte_bits b"
    by (auto simp: byte_bits_def bit_ucast_iff simp del: upt_rec_numeral)
  with Cons show ?case by (simp add: appendBits_def)
qed simp

text \<open>The data codewords fill the capacity and hold the payload.\<close>

lemma padded:
  assumes "(n :: nat) \<le> c * 8"
  shows "8 dvd n + (8 - n mod 8) mod 8" and "n + (8 - n mod 8) mod 8 \<le> c * 8"
proof -
  define q r where "q = n div 8" and "r = n mod 8"
  have n: "n = q * 8 + r" and r: "r < 8" by (simp_all add: q_def r_def)
  have "8 dvd n + (8 - r) mod 8 \<and> n + (8 - r) mod 8 \<le> c * 8"
  proof (cases "r = 0")
    case True
    with assms n show ?thesis by simp
  next
    case False
    then have "(8 - r) mod 8 = 8 - r" by simp
    then have e: "n + (8 - r) mod 8 = Suc q * 8" using n r by simp
    have "q < c" using assms n False by (cases "q < c") auto
    then have "Suc q * 8 \<le> c * 8" by simp
    then show ?thesis unfolding e by simp
  qed
  then show "8 dvd n + (8 - n mod 8) mod 8" "n + (8 - n mod 8) mod 8 \<le> c * 8" by (simp_all add: r_def)
qed

lemma data_codewords:
  assumes fits: "4 + charCountBits v + length bytes * 8 \<le> dataCodewords v level * 8" and v: "known_version v"
  shows "length (buildDataCodewords bytes v level) = dataCodewords v level \<and>
    read_payload v (buildDataCodewords bytes v level) = Some bytes"
proof -
  define k where "k = charCountBits v"
  define capacity where "capacity = dataCodewords v level"
  define bits2 where "bits2 = [False, True, False, False] @ map (bit (of_nat (length bytes) :: number)) (rev [0..<k]) @ concat (map byte_bits bytes)"
  define bits3 where "bits3 = bits2 @ replicate (min 4 (capacity * 8 - length bits2)) False"
  define bits4 where "bits4 = bits3 @ replicate ((8 - length bits3 mod 8) mod 8) False"
  have zeros: "map (bit (0 :: number)) xs = replicate (length xs) False" for xs by (induction xs) simp_all
  have four: "map (bit (4 :: number)) (rev [0..<4]) = [False, True, False, False]" by code_simp
  define pads where "pads = map (\<lambda>i. if i mod 2 = 0 then 0xec else 0x11 :: byte) [0..<capacity - length (to_codewords bits4)]"
  have built: "buildDataCodewords bytes v level = to_codewords bits4 @ pads"
    unfolding buildDataCodewords_def Let_def append_bytes
    unfolding appendBits_def zeros four append_Nil pads_def bits4_def bits3_def bits2_def k_def capacity_def
    by (simp only: append_assoc length_rev length_upt minus_nat.diff_0)
  have l2: "length bits2 = 4 + k + length bytes * 8"
    by (simp add: bits2_def length_concat comp_def sum_list_triv)
  have l3: "length bits3 \<le> capacity * 8" using fits l2 by (simp add: bits3_def k_def capacity_def)
  have l4: "8 dvd length bits4" "length bits4 \<le> capacity * 8"
    using padded [OF l3] by (simp_all add: bits4_def)
  note bytes4 = bytes_of_bits [OF l4(1)]
  have len: "length (to_codewords bits4) \<le> capacity" using bytes4 l4 by auto
  have small: "length bytes < 2 ^ k" using fits tables [OF v, of level] by (simp add: table_ok_def Let_def k_def)
  have count: "read_number (map (bit (of_nat (length bytes) :: number)) (rev [0..<k])) = length bytes"
    by (rule read_appended [OF small]) (simp add: k_def charCountBits_def)
  have "concat (map byte_bits (to_codewords bits4 @ pads)) = bits4 @ concat (map byte_bits pads)" using bytes4 by simp
  also have "\<dots> = [False, True, False, False] @ map (bit (of_nat (length bytes) :: number)) (rev [0..<k]) @ concat (map byte_bits bytes) @
      (replicate (min 4 (capacity * 8 - length bits2)) False @ replicate ((8 - length bits3 mod 8) mod 8) False @ concat (map byte_bits pads))"
    (is "_ = _ @ _ @ _ @ ?rest")
    by (simp add: bits4_def bits3_def bits2_def)
  finally have "read_payload v (to_codewords bits4 @ pads) = Some (take (length bytes) (bytes @ to_codewords ?rest))"
    using count by (simp add: read_payload_def Let_def to_codewords_bytes flip: k_def)
  then show ?thesis using len by (simp add: built pads_def capacity_def)
qed

section \<open>Reading blocks\<close>

text \<open>The reader's side of \<open>interleave\<close>: the data codewords of a block, its error correction, and all the data.\<close>

definition data_of_block :: "nat \<Rightarrow> ec_level \<Rightarrow> byte list \<Rightarrow> nat \<Rightarrow> byte list" where
  "data_of_block version level codewords j =
     (let blocks = BLOCK_COUNT level ! (version - 1); n = dataCodewords version level;
          short = n div blocks; longFrom = blocks - n mod blocks in
      map (\<lambda>i. codewords ! (i * blocks + j)) [0..<short] @
      (if j < longFrom then [] else [codewords ! (short * blocks + (j - longFrom))]))"

definition ec_of_block :: "nat \<Rightarrow> ec_level \<Rightarrow> byte list \<Rightarrow> nat \<Rightarrow> byte list" where
  "ec_of_block version level codewords j =
     map (\<lambda>i. codewords ! (dataCodewords version level + i * BLOCK_COUNT level ! (version - 1) + j))
       [0..<EC_PER_BLOCK level ! (version - 1)]"

definition deinterleave :: "nat \<Rightarrow> ec_level \<Rightarrow> byte list \<Rightarrow> byte list" where
  "deinterleave version level codewords =
     concat (map (data_of_block version level codewords) [0..<BLOCK_COUNT level ! (version - 1)])"

lemma rows_length: "(\<And>i. i < n \<Longrightarrow> length (f i) = b) \<Longrightarrow> length (concat (map f [0..<n])) = n * b"
  by (induction n) simp_all

lemma rows_nth: "(\<And>i. i < n \<Longrightarrow> length (f i) = b) \<Longrightarrow> i < n \<Longrightarrow> j < b \<Longrightarrow> concat (map f [0..<n]) ! (i * b + j) = f i ! j"
proof (induction n)
  case (Suc n)
  have len: "length (concat (map f [0..<n])) = n * b" using Suc.prems by (intro rows_length) simp
  show ?case
  proof (cases "i = n")
    case False
    with Suc.prems have "i < n" by simp
    then have "Suc i * b \<le> n * b" by (intro mult_le_mono1) simp
    with Suc.prems have "i * b + j < n * b" by simp
    with Suc \<open>i < n\<close> len show ?thesis by (simp add: nth_append)
  qed (use len in \<open>simp add: nth_append\<close>)
qed simp

lemma slices_props:
  "sum_list ns \<le> length xs \<Longrightarrow> concat (slices ns xs) = take (sum_list ns) xs \<and> map length (slices ns xs) = ns"
  by (induction ns xs rule: slices.induct) (auto simp: take_add)

lemma block_lengths_sum:
  assumes "0 < blocks"
  shows "sum_list (block_lengths n blocks) = n"
proof -
  have "sum_list (map (\<lambda>i. q + (if i < m then 0 else 1)) [0..<b]) = b * q + (b - m)" for q m b :: nat
    by (induction b) auto
  then have "sum_list (block_lengths n blocks) = blocks * (n div blocks) + (blocks - (blocks - n mod blocks))"
    by (simp add: block_lengths_def)
  also have "blocks - (blocks - n mod blocks) = n mod blocks" using assms by (simp add: less_imp_le)
  finally show ?thesis by simp
qed

lemma interleaved:
  assumes v: "known_version v" and len: "length data = dataCodewords v level"
  defines "codewords \<equiv> interleave data v level"
  shows "length codewords = totalCodewords v"
    and "deinterleave v level codewords = data"
    and "j < BLOCK_COUNT level ! (v - 1) \<Longrightarrow>
      ec_of_block v level codewords j = ecCodewords (data_of_block v level codewords j) (EC_PER_BLOCK level ! (v - 1))"
proof -
  define b where "b = BLOCK_COUNT level ! (v - 1)"
  define e where "e = EC_PER_BLOCK level ! (v - 1)"
  define n where "n = dataCodewords v level"
  define q where "q = n div b"
  define m where "m = b - n mod b"
  define blocks where "blocks = slices (block_lengths n b) data"
  define row where "row i = concat (map (\<lambda>block. if i < length block then [block ! i] else []) blocks)" for i
  define ecs where "ecs = map (\<lambda>block. ecCodewords block e) blocks"
  have b: "0 < b" "0 < e" "n + e * b = totalCodewords v"
    using tables [OF v, of level] by (simp_all add: table_ok_def Let_def b_def e_def n_def)
  have sum: "sum_list (block_lengths n b) = n" by (rule block_lengths_sum [OF b(1)])
  have all: "concat blocks = data" and lens: "map length blocks = block_lengths n b"
    using slices_props [of "block_lengths n b" data] sum len by (simp_all add: blocks_def n_def)
  have count: "length blocks = b" using arg_cong [OF lens, of length] by (simp add: block_lengths_def)
  have size: "length (blocks ! j) = q + (if j < m then 0 else 1)" if "j < b" for j
    using arg_cong [OF lens, of "\<lambda>xs. xs ! j"] that count by (simp add: block_lengths_def q_def m_def)
  have m: "m \<le> b" "b - m = n mod b" using b(1) by (auto simp: m_def less_imp_le)
  have full: "row i = map (\<lambda>block. block ! i) blocks" if "i < q" for i
  proof -
    have "i < length block" if "block \<in> set blocks" for block
      using that \<open>i < q\<close> size count by (metis in_set_conv_nth trans_less_add1)
    then have "map (\<lambda>block. if i < length block then [block ! i] else []) blocks = map (\<lambda>block. [block ! i]) blocks" by simp
    then show ?thesis unfolding row_def by (simp only: concat_map_singleton)
  qed
  have last: "row q = map (\<lambda>block. block ! q) (drop m blocks)"
  proof -
    have short: "\<not> q < length block" if "block \<in> set (take m blocks)" for block
      using that size m(1) count by (auto simp: in_set_conv_nth)
    have long: "q < length block" if "block \<in> set (drop m blocks)" for block
      using that size m(1) count by (auto simp: in_set_conv_nth)
    have "map (\<lambda>block. if q < length block then [block ! q] else []) (take m blocks) = map (\<lambda>_. []) (take m blocks)"
      using short by simp
    moreover have "map (\<lambda>block. if q < length block then [block ! q] else []) (drop m blocks) = map (\<lambda>block. [block ! q]) (drop m blocks)"
      using long by simp
    moreover have "row q = concat (map (\<lambda>block. if q < length block then [block ! q] else []) (take m blocks @ drop m blocks))"
      by (simp add: row_def)
    ultimately show ?thesis by (simp only: map_append concat_append concat_map_singleton) simp
  qed
  define rows where "rows = concat (map row [0..<q])"
  define ecrows where "ecrows = concat (map (\<lambda>i. map (\<lambda>block. block ! i) ecs) [0..<e])"
  have code: "codewords = rows @ row q @ ecrows"
    using len unfolding codewords_def interleave_def Let_def rows_def ecrows_def ecs_def row_def blocks_def q_def b_def e_def n_def by (simp del: One_nat_def)
  have rows_len: "length rows = q * b" unfolding rows_def using full count by (intro rows_length) simp
  have row_len: "length (row q) = n mod b" using last m count by simp
  have data_len: "length rows + length (row q) = n" unfolding rows_len row_len by (simp add: q_def)
  have ec_len: "length ecrows = e * b" unfolding ecrows_def ecs_def using count by (intro rows_length) simp
  show "length codewords = totalCodewords v" using code data_len ec_len b(3) by simp
  have block: "data_of_block v level codewords j = blocks ! j" if j: "j < b" for j
  proof -
    have nth: "codewords ! (i * b + j) = blocks ! j ! i" if "i < q" for i
    proof -
      have "Suc i * b \<le> q * b" using that by (intro mult_le_mono1) simp
      then have "i * b + j < length rows" using j rows_len by simp
      then have "codewords ! (i * b + j) = rows ! (i * b + j)" by (simp add: code nth_append)
      also have "\<dots> = row i ! j" unfolding rows_def using full count that j by (intro rows_nth) auto
      finally show ?thesis using full [OF that] j count by simp
    qed
    have long: "codewords ! (q * b + (j - m)) = blocks ! j ! q" if "\<not> j < m"
    proof -
      have "j - m < length (row q)" using that j m row_len by auto
      then have "codewords ! (q * b + (j - m)) = row q ! (j - m)" using rows_len by (simp add: code nth_append)
      then show ?thesis using last that j count by simp
    qed
    have shape: "data_of_block v level codewords j =
        map (\<lambda>i. codewords ! (i * b + j)) [0..<q] @ (if j < m then [] else [codewords ! (q * b + (j - m))])"
      unfolding data_of_block_def Let_def b_def n_def q_def m_def by (rule refl)
    show ?thesis unfolding shape
      using nth long size [OF j] by (intro nth_equalityI) (auto simp: nth_append less_Suc_eq)
  qed
  have "map (data_of_block v level codewords) [0..<b] = map (\<lambda>j. blocks ! j) [0..<b]"
    using block by (intro map_cong) simp_all
  then have "deinterleave v level codewords = concat (map (\<lambda>j. blocks ! j) [0..<b])"
    unfolding deinterleave_def b_def [symmetric] by (rule arg_cong)
  then show "deinterleave v level codewords = data" using map_nth [of blocks] count all by simp
  show "ec_of_block v level codewords j = ecCodewords (data_of_block v level codewords j) (EC_PER_BLOCK level ! (v - 1))"
    if "j < BLOCK_COUNT level ! (v - 1)"
  proof -
    have j: "j < b" using that by (simp add: b_def)
    have "codewords ! (n + i * b + j) = ecs ! j ! i" if "i < e" for i
    proof -
      have "codewords = (rows @ row q) @ ecrows" by (simp add: code)
      then have "codewords ! (n + (i * b + j)) = ecrows ! (i * b + j)"
        using data_len nth_append_length_plus [of "rows @ row q" ecrows] by simp
      then have "codewords ! (n + i * b + j) = ecrows ! (i * b + j)" by (simp add: add.assoc)
      also have "\<dots> = map (\<lambda>block. block ! i) ecs ! j" unfolding ecrows_def using that j count by (intro rows_nth) (auto simp: ecs_def)
      finally show ?thesis using j count by (simp add: ecs_def)
    qed
    moreover have "length (ecs ! j) = e" using j count ec_remainder [of e 0] b(2) by (simp add: ecs_def)
    ultimately have "ec_of_block v level codewords j = ecs ! j"
      unfolding ec_of_block_def b_def [symmetric] e_def [symmetric] n_def [symmetric] by (intro nth_equalityI) simp_all
    then show ?thesis using block [OF j] j count unfolding e_def [symmetric] by (simp add: ecs_def)
  qed
qed

end
