(* ===== verification/QrMatrix.thy ===== *)
theory QrMatrix
  imports QrCode
begin

text \<open>
  The modules of a QR symbol (\<^verbatim>\<open>packages/protocol/src/qr.ts\<close>): the function patterns, the placement of the codewords, the
  masks with their penalties, the format information, and the whole encoder, with a reader of symbols.

  A matrix is a list of rows.  Two matrices are drawn together, the modules and which of them are reserved: a
  \<open>canvas\<close>.  A drawing is the list of its assignments in the order of the loops.
\<close>

section \<open>Drawing\<close>

type_synonym matrix = "bool list list"

definition emptyMatrix :: "nat \<Rightarrow> matrix" where
  "emptyMatrix sz = replicate sz (replicate sz False)"

definition put :: "matrix \<Rightarrow> nat \<Rightarrow> nat \<Rightarrow> bool \<Rightarrow> matrix" where
  "put m r c x = m[r := (m ! r)[c := x]]"

record canvas =
  cv_modules :: matrix
  cv_reserved :: matrix

text \<open>An assignment to a module, to a reservation, or to both.\<close>

datatype stroke = Ink nat nat bool | Reserve nat nat | Pattern nat nat bool

fun draw :: "stroke \<Rightarrow> canvas \<Rightarrow> canvas" where
  "draw (Ink r c x) cv = cv\<lparr>cv_modules := put (cv_modules cv) r c x\<rparr>"
| "draw (Reserve r c) cv = cv\<lparr>cv_reserved := put (cv_reserved cv) r c True\<rparr>"
| "draw (Pattern r c x) cv = cv\<lparr>cv_modules := put (cv_modules cv) r c x, cv_reserved := put (cv_reserved cv) r c True\<rparr>"

definition draw_all :: "stroke list \<Rightarrow> canvas \<Rightarrow> canvas" where
  "draw_all ss cv = fold draw ss cv"

text \<open>\<open>drawFinder\<close>, with \<open>dr\<close> and \<open>dc\<close> from -1 to 7; what falls outside is skipped.\<close>

definition finder :: "nat \<Rightarrow> nat \<Rightarrow> nat \<Rightarrow> stroke list" where
  "finder sz row col = concat (map (\<lambda>dr. concat (map (\<lambda>dc.
     let r = int row + dr; c = int col + dc; ring = max \<bar>dr - 3\<bar> \<bar>dc - 3\<bar> in
     if r < 0 \<or> int sz \<le> r \<or> c < 0 \<or> int sz \<le> c then []
     else [Pattern (nat r) (nat c) (ring \<le> 3 \<and> ring \<noteq> 2)]) [-1..7])) [-1..7])"

definition timing :: "nat \<Rightarrow> stroke list" where
  "timing sz = concat (map (\<lambda>i. [Pattern 6 i (i mod 2 = 0), Pattern i 6 (i mod 2 = 0)]) [0..<sz])"

definition alignment :: "nat \<Rightarrow> stroke list" where
  "alignment version =
     (let positions = alignmentPositions version in
      concat (map (\<lambda>row. concat (map (\<lambda>col.
        if row = 6 \<and> (col = 6 \<or> col = last positions) \<or> row = last positions \<and> col = 6 then []
        else concat (map (\<lambda>dr. map (\<lambda>dc.
          Pattern (nat (int row + dr)) (nat (int col + dc)) (max \<bar>dr\<bar> \<bar>dc\<bar> \<noteq> 1)) [-2..2]) [-2..2])) positions)) positions))"

definition format_strips :: "nat \<Rightarrow> stroke list" where
  "format_strips sz =
     concat (map (\<lambda>i. [Reserve 8 i, Reserve i 8]) [0..<9]) @
     concat (map (\<lambda>i. [Reserve 8 (sz - 1 - i), Reserve (sz - 1 - i) 8]) [0..<8]) @
     [Ink (sz - 8) 8 True]"

definition version_strips :: "nat \<Rightarrow> nat \<Rightarrow> stroke list" where
  "version_strips sz version =
     (if version \<ge> 7 then concat (map (\<lambda>i. let a = sz - 11 + i mod 3; b = i div 3 in [Reserve b a, Reserve a b]) [0..<18]) else [])"

definition drawFunctionPatterns :: "nat \<Rightarrow> canvas \<Rightarrow> canvas" where
  "drawFunctionPatterns version cv =
     (let sz = length (cv_modules cv) in
      draw_all (timing sz @ alignment version @ finder sz 0 0 @ finder sz (sz - 7) 0 @ finder sz 0 (sz - 7) @
        format_strips sz @ version_strips sz version) cv)"

text \<open>The two check words.\<close>

definition EC_INDICATOR :: "ec_level \<Rightarrow> number" where
  "EC_INDICATOR level = (case level of EcL \<Rightarrow> 1 | EcM \<Rightarrow> 0)"

definition bch_remainder :: "number \<Rightarrow> nat list \<Rightarrow> nat \<Rightarrow> number \<Rightarrow> number" where
  "bch_remainder poly is n value = fold (\<lambda>i r. if bit r i then r XOR push_bit (i - n) poly else r) is value"

definition formatBits :: "ec_level \<Rightarrow> nat \<Rightarrow> number" where
  "formatBits level pattern =
     (let data = push_bit 3 (EC_INDICATOR level) OR of_nat pattern;
          remainder = bch_remainder 0x537 (rev [10..<15]) 10 (push_bit 10 data) in
      (push_bit 10 data OR remainder) XOR 0x5412)"

definition versionInfoBits :: "nat \<Rightarrow> number" where
  "versionInfoBits version =
     (let remainder = bch_remainder 0x1f25 (rev [12..<18]) 12 (push_bit 12 (of_nat version)) in
      push_bit 12 (of_nat version) OR remainder)"

definition format_strokes :: "nat \<Rightarrow> number \<Rightarrow> stroke list" where
  "format_strokes sz bits =
     map (\<lambda>i. Ink i 8 (bit bits i)) [0..<6] @ [Ink 7 8 (bit bits 6), Ink 8 8 (bit bits 7), Ink 8 7 (bit bits 8)] @
     map (\<lambda>i. Ink 8 (14 - i) (bit bits i)) [9..<15] @
     map (\<lambda>i. Ink 8 (sz - 1 - i) (bit bits i)) [0..<8] @ map (\<lambda>i. Ink (sz - 15 + i) 8 (bit bits i)) [8..<15]"

definition drawVersionInfo :: "nat \<Rightarrow> canvas \<Rightarrow> canvas" where
  "drawVersionInfo version cv =
     (if version < 7 then cv
      else let sz = length (cv_modules cv); bits = versionInfoBits version in
        draw_all (concat (map (\<lambda>i. let dark = bit bits i; a = sz - 11 + i mod 3; b = i div 3 in [Ink b a dark, Ink a b dark]) [0..<18])) cv)"

section \<open>Placement\<close>

function column_starts :: "nat \<Rightarrow> nat list" where
  "column_starts right =
     (if right < 1 then [] else let right' = (if right = 6 then 5 else right) in right' # column_starts (right' - 2))"
  by auto
termination by (relation "measure id") auto

declare column_starts.simps [simp del]

definition walk :: "nat \<Rightarrow> (nat \<times> nat) list" where
  "walk sz = concat (map (\<lambda>right. concat (map (\<lambda>vertical. map (\<lambda>j.
     let upward = ((right + 1) AND 2 = 0); row = (if upward then sz - 1 - vertical else vertical) in
     (row, right - j)) [0, 1]) [0..<sz])) (column_starts (sz - 1)))"

fun place :: "(nat \<times> nat) list \<Rightarrow> byte list \<Rightarrow> nat \<Rightarrow> canvas \<Rightarrow> canvas" where
  "place [] codewords i cv = cv"
| "place ((row, col) # cells) codewords i cv =
     (if cv_reserved cv ! row ! col \<or> i \<ge> length codewords * 8 then place cells codewords i cv
      else place cells codewords (i + 1)
        (cv\<lparr>cv_modules := put (cv_modules cv) row col (bit (codewords ! (i div 8)) (7 - i mod 8))\<rparr>))"

definition placeCodewords :: "byte list \<Rightarrow> canvas \<Rightarrow> canvas" where
  "placeCodewords codewords cv = place (walk (length (cv_modules cv))) codewords 0 cv"

section \<open>Masks\<close>

definition MASKS :: "(nat \<Rightarrow> nat \<Rightarrow> bool) list" where
  "MASKS =
     [\<lambda>row col. (row + col) mod 2 = 0,
      \<lambda>row col. row mod 2 = 0,
      \<lambda>row col. col mod 3 = 0,
      \<lambda>row col. (row + col) mod 3 = 0,
      \<lambda>row col. (row div 2 + col div 3) mod 2 = 0,
      \<lambda>row col. row * col mod 2 + row * col mod 3 = 0,
      \<lambda>row col. (row * col mod 2 + row * col mod 3) mod 2 = 0,
      \<lambda>row col. ((row + col) mod 2 + row * col mod 3) mod 2 = 0]"

definition N1 :: nat where "N1 = 3"
definition N2 :: nat where "N2 = 3"
definition N3 :: nat where "N3 = 40"
definition N4 :: nat where "N4 = 10"

text \<open>Runs of one colour, then the finder-like patterns of a line; the edge counts as light.\<close>

fun run_penalty :: "bool list \<Rightarrow> nat \<Rightarrow> nat list \<Rightarrow> nat" where
  "run_penalty line start [] = 0"
| "run_penalty line start (i # is) =
     (if i < length line \<and> line ! i = line ! start then run_penalty line start is
      else (if i - start \<ge> 5 then N1 + (i - start) - 5 else 0) + run_penalty line i is)"

definition light :: "bool list \<Rightarrow> int \<Rightarrow> bool" where
  "light line i \<longleftrightarrow> i < 0 \<or> int (length line) \<le> i \<or> \<not> line ! nat i"

definition finder_penalty :: "bool list \<Rightarrow> nat \<Rightarrow> nat" where
  "finder_penalty line i =
     (if line ! i \<and> light line (int i + 1) \<and> line ! (i + 2) \<and> line ! (i + 3) \<and> line ! (i + 4) \<and> light line (int i + 5) \<and> line ! (i + 6)
      then (if light line (int i - 1) \<and> light line (int i - 2) \<and> light line (int i - 3) \<and> light line (int i - 4) then N3 else 0) +
        (if light line (int i + 7) \<and> light line (int i + 8) \<and> light line (int i + 9) \<and> light line (int i + 10) then N3 else 0)
      else 0)"

definition linePenalty :: "bool list \<Rightarrow> nat" where
  "linePenalty line = run_penalty line 0 [1..<Suc (length line)] +
     sum_list (map (finder_penalty line) (filter (\<lambda>i. i + 7 \<le> length line) [0..<length line]))"

definition penalty :: "matrix \<Rightarrow> nat" where
  "penalty modules =
     (let sz = length modules;
          lines = sum_list (map (\<lambda>i. linePenalty (modules ! i) + linePenalty (map (\<lambda>row. row ! i) modules)) [0..<sz]);
          blocks = sum_list (map (\<lambda>r. sum_list (map (\<lambda>c.
            if modules ! r ! c = modules ! r ! (c + 1) \<and> modules ! r ! c = modules ! (r + 1) ! c \<and>
               modules ! r ! c = modules ! (r + 1) ! (c + 1) then N2 else 0) [0..<sz - 1])) [0..<sz - 1]);
          dark = length (filter id (concat modules)) in
      lines + blocks + N4 * nat \<lfloor>\<bar>rat_of_nat (dark * 100) / of_nat (sz * sz) - 50\<bar> / 5\<rfloor>)"

definition drawFormatInfo :: "ec_level \<Rightarrow> nat \<Rightarrow> matrix \<Rightarrow> matrix" where
  "drawFormatInfo level pattern m =
     cv_modules (draw_all (format_strokes (length m) (formatBits level pattern)) \<lparr>cv_modules = m, cv_reserved = []\<rparr>)"

definition applyMask :: "matrix \<Rightarrow> matrix \<Rightarrow> nat \<Rightarrow> ec_level \<Rightarrow> matrix" where
  "applyMask base reserved pattern level =
     (let condition = MASKS ! pattern in
      drawFormatInfo level pattern (map (\<lambda>r. map (\<lambda>c.
        base ! r ! c \<noteq> (\<not> reserved ! r ! c \<and> condition r c)) [0..<length (base ! r)]) [0..<length base]))"

text \<open>The pattern of least penalty, the first of several; \<open>None\<close> is \<open>Infinity\<close>.\<close>

definition best_mask :: "(nat \<Rightarrow> nat) \<Rightarrow> nat list \<Rightarrow> nat" where
  "best_mask score masks = fst (fold (\<lambda>pattern (best, least).
     case least of Some s \<Rightarrow> if score pattern < s then (pattern, Some (score pattern)) else (best, least)
     | None \<Rightarrow> (pattern, Some (score pattern))) masks (0, None))"

definition symbol_canvas :: "byte list \<Rightarrow> nat \<Rightarrow> canvas" where
  "symbol_canvas codewords version =
     (let sz = moduleCount version in
      placeCodewords codewords (drawVersionInfo version
        (drawFunctionPatterns version \<lparr>cv_modules = emptyMatrix sz, cv_reserved = emptyMatrix sz\<rparr>)))"

definition render :: "byte list \<Rightarrow> nat \<Rightarrow> ec_level \<Rightarrow> matrix" where
  "render codewords version level =
     (let cv = symbol_canvas codewords version;
          pattern = best_mask (\<lambda>pattern. penalty (applyMask (cv_modules cv) (cv_reserved cv) pattern level)) [0..<length MASKS] in
      applyMask (cv_modules cv) (cv_reserved cv) pattern level)"

definition qr_error :: "nat \<Rightarrow> string" where
  "qr_error n = ''Cannot encode '' @ show_nat n @ '' bytes as a QR code; the limit is '' @
     show_nat (dataCodewords MAX_VERSION EcL - 3) @ '' bytes.''"

definition qrMatrix :: "string \<Rightarrow> (string, matrix) result" where
  "qrMatrix text =
     (let bytes = utf8 text;
          level = (if smallestVersion (length bytes) EcM = None then EcL else EcM) in
      case smallestVersion (length bytes) level of
        None \<Rightarrow> Inl (qr_error (length bytes))
      | Some version \<Rightarrow> Inr (render (interleave (buildDataCodewords bytes version level) version level) version level))"

text \<open>\<open>qrSvgPath\<close>: one subpath for each run of dark modules of a row.\<close>

definition svg_part :: "nat \<Rightarrow> nat \<Rightarrow> nat \<Rightarrow> string" where
  "svg_part start r run = ''M'' @ show_nat start @ '','' @ show_nat r @ ''h'' @ show_nat run @ ''v1h-'' @ show_nat run @ ''z''"

function svg_row :: "nat \<Rightarrow> nat \<Rightarrow> bool list \<Rightarrow> string list" where
  "svg_row r c [] = []"
| "svg_row r c (False # bs) = svg_row r (c + 1) bs"
| "svg_row r c (True # bs) =
     (let run = 1 + length (takeWhile id bs) in svg_part c r run # svg_row r (c + run) (drop (run - 1) bs))"
  by pat_completeness auto
termination by (relation "measure (\<lambda>(r, c, bs). length bs)") auto

definition qrSvgPath :: "string \<Rightarrow> (string, nat \<times> string) result" where
  "qrSvgPath text = bind_result (qrMatrix text) (\<lambda>modules.
     Inr (length modules, concat (concat (map (\<lambda>r. svg_row r 0 (modules ! r)) [0..<length modules]))))"

end
