(* ===== verification/QrReader.thy ===== *)
theory QrReader
  imports QrMatrix
begin

text \<open>
  What the encoder draws, cell by cell, and a reader of symbols.  The modules the standard reserves are described by a
  predicate of their own, \<open>function_module\<close>; the drawn reservations are exactly these, their number is the one the
  encoder computes its capacity from, and a symbol drawn by the encoder reads back as its payload.
\<close>

section \<open>Cells\<close>

definition square :: "nat \<Rightarrow> matrix \<Rightarrow> bool" where
  "square n m \<longleftrightarrow> length m = n \<and> (\<forall>row \<in> set m. length row = n)"

lemma square_row: "square n m \<Longrightarrow> r < n \<Longrightarrow> length (m ! r) = n"
  by (simp add: square_def)

lemma square_empty [simp]: "square n (emptyMatrix n)"
  by (simp add: square_def emptyMatrix_def)

lemma square_put [simp]: "square n m \<Longrightarrow> square n (put m r c x)"
  by (cases "r < length m") (auto simp: square_def put_def list_update_beyond dest: set_update_subset_insert [THEN subsetD])

lemma put_cell: "square n m \<Longrightarrow> r < n \<Longrightarrow> c < n \<Longrightarrow> put m r' c' x ! r ! c = (if r' = r \<and> c' = c then x else m ! r ! c)"
  by (cases "r' = r"; cases "c' = c") (auto simp: put_def square_def)

definition canvas_ok :: "nat \<Rightarrow> canvas \<Rightarrow> bool" where
  "canvas_ok n cv \<longleftrightarrow> square n (cv_modules cv) \<and> square n (cv_reserved cv)"

lemma draw_ok: "canvas_ok n cv \<Longrightarrow> canvas_ok n (draw s cv)"
  by (cases s) (simp_all add: canvas_ok_def)

lemma draw_all_ok: "canvas_ok n cv \<Longrightarrow> canvas_ok n (draw_all ss cv)"
  unfolding draw_all_def by (induction ss arbitrary: cv) (simp_all add: draw_ok)

text \<open>Which cells a stroke reserves, and which it gives a colour.\<close>

fun reserves :: "stroke \<Rightarrow> nat \<times> nat \<Rightarrow> bool" where
  "reserves (Ink r c x) p = False"
| "reserves (Reserve r c) p = (p = (r, c))"
| "reserves (Pattern r c x) p = (p = (r, c))"

fun inks :: "stroke \<Rightarrow> nat \<times> nat \<Rightarrow> bool \<Rightarrow> bool" where
  "inks (Ink r c x) p y = (p = (r, c) \<and> y = x)"
| "inks (Reserve r c) p y = False"
| "inks (Pattern r c x) p y = (p = (r, c) \<and> y = x)"

lemma draw_reserved:
  assumes "canvas_ok n cv" and "r < n" and "c < n"
  shows "cv_reserved (draw_all ss cv) ! r ! c \<longleftrightarrow> cv_reserved cv ! r ! c \<or> (\<exists>s \<in> set ss. reserves s (r, c))"
  using assms(1)
proof (induction ss arbitrary: cv)
  case (Cons s ss)
  have "cv_reserved (draw s cv) ! r ! c \<longleftrightarrow> cv_reserved cv ! r ! c \<or> reserves s (r, c)"
    using Cons.prems assms(2,3) by (cases s) (auto simp: canvas_ok_def put_cell split: if_splits)
  with Cons.IH [OF draw_ok [OF Cons.prems, of s]] show ?case by (auto simp: draw_all_def)
qed (simp add: draw_all_def)

lemma draw_module:
  assumes "square n (cv_modules cv)" and "r < n" and "c < n"
    and "\<And>s y. s \<in> set ss \<Longrightarrow> inks s (r, c) y \<Longrightarrow> y = x"
    and "(\<exists>s \<in> set ss. inks s (r, c) x) \<or> cv_modules cv ! r ! c = x"
  shows "cv_modules (draw_all ss cv) ! r ! c = x"
  using assms(1,4,5)
proof (induction ss arbitrary: cv)
  case (Cons s ss)
  have sq: "square n (cv_modules (draw s cv))" using Cons.prems(1) by (cases s) simp_all
  have "cv_modules (draw s cv) ! r ! c = (if \<exists>y. inks s (r, c) y then x else cv_modules cv ! r ! c)"
    using Cons.prems(1) Cons.prems(2) [of s] assms(2,3) by (cases s) (auto simp: put_cell)
  then have "(\<exists>s \<in> set ss. inks s (r, c) x) \<or> cv_modules (draw s cv) ! r ! c = x"
    using Cons.prems(2) [of s] Cons.prems(3) by auto
  moreover have "y = x" if "s' \<in> set ss" "inks s' (r, c) y" for s' y using Cons.prems(2) [of s' y] that by simp
  ultimately show ?case using Cons.IH [OF sq] by (simp add: draw_all_def)
qed (simp add: draw_all_def)

section \<open>Alignment positions\<close>

lemma insert_positions_shape:
  "insert_positions k pos step (p # ps) = p # map (\<lambda>i. pos - (k - 1 - i) * step) [0..<k] @ ps"
proof (induction k arbitrary: pos ps)
  case (Suc k)
  have "map (\<lambda>i. pos - step - (k - 1 - i) * step) [0..<k] = map (\<lambda>i. pos - (Suc k - 1 - i) * step) [0..<k]"
  proof (rule map_cong [OF refl])
    fix i assume "i \<in> set [0..<k]"
    then have "Suc k - 1 - i = Suc (k - 1 - i)" by auto
    then show "pos - step - (k - 1 - i) * step = pos - (Suc k - 1 - i) * step" by simp
  qed
  with Suc show ?case by simp
qed simp

definition spacing :: "nat \<Rightarrow> nat" where
  "spacing v = (if v = 32 then 26 else (v * 4 + (v div 7 + 2) * 2 + 1) div ((v div 7 + 2) * 2 - 2) * 2)"

definition spacing_ok :: "nat \<Rightarrow> bool" where
  "spacing_ok v \<longleftrightarrow> 12 \<le> spacing v \<and> 18 + (v div 7) * spacing v \<le> v * 4 + 10 \<and> (7 \<le> v \<longrightarrow> 16 \<le> spacing v)"

lemma spacings: "known_version v \<Longrightarrow> v \<noteq> 1 \<Longrightarrow> spacing_ok v"
proof -
  have "list_all (\<lambda>v. v \<noteq> 1 \<longrightarrow> spacing_ok v) [1..<41]"
    unfolding version_list by (simp add: spacing_ok_def spacing_def)
  then show "known_version v \<Longrightarrow> v \<noteq> 1 \<Longrightarrow> spacing_ok v" unfolding versions list_all_iff by blast
qed

lemma positions: "v \<noteq> 1 \<Longrightarrow>
  alignmentPositions v = 6 # map (\<lambda>i. v * 4 + 10 - (v div 7 - i) * spacing v) [0..<Suc (v div 7)]"
  by (simp add: alignmentPositions_def Let_def insert_positions_shape spacing_def del: upt_Suc)

lemma positions_props:
  assumes v: "known_version v" and "v \<noteq> 1"
  shows "sorted_wrt (\<lambda>p q. p + 12 \<le> q) (alignmentPositions v)" and "last (alignmentPositions v) = v * 4 + 10"
    and "hd (alignmentPositions v) = 6"
    and "q \<in> set (alignmentPositions v) \<Longrightarrow> q = 6 \<or> 18 \<le> q \<and> q \<le> v * 4 + 10 \<and> (q \<noteq> v * 4 + 10 \<longrightarrow> q + 16 \<le> v * 4 + 10)"
proof -
  have ok: "spacing_ok v" by (rule spacings [OF assms])
  define k where "k = v div 7"
  define s where "s = spacing v"
  define t where "t = v * 4 + 10"
  have k: "12 \<le> s" "18 + k * s \<le> t" "0 < k \<Longrightarrow> 16 \<le> s"
    using ok by (auto simp: spacing_ok_def k_def s_def t_def div_greater_zero_iff)
  have pos: "alignmentPositions v = 6 # map (\<lambda>i. t - (k - i) * s) [0..<Suc k]"
    using positions [OF assms(2)] by (simp only: k_def s_def t_def)
  show "last (alignmentPositions v) = v * 4 + 10" "hd (alignmentPositions v) = 6" unfolding pos by (simp_all add: t_def)
  have gap: "t - (k - i) * s + s \<le> t - (k - j) * s" if "i < j" "j \<le> k" for i j
  proof -
    have "Suc (k - j) * s \<le> (k - i) * s" using that by (intro mult_le_mono1) simp
    moreover have "(k - i) * s \<le> k * s" by (intro mult_le_mono1) simp
    ultimately show ?thesis using k(2) unfolding mult_Suc by linarith
  qed
  have low: "18 \<le> t - (k - i) * s" for i
  proof -
    have "(k - i) * s \<le> k * s" by (intro mult_le_mono1) simp
    with k(2) show ?thesis by linarith
  qed
  show "sorted_wrt (\<lambda>p q. p + 12 \<le> q) (alignmentPositions v)"
    unfolding pos sorted_wrt.simps
  proof
    show "\<forall>y \<in> set (map (\<lambda>i. t - (k - i) * s) [0..<Suc k]). 6 + 12 \<le> y" using low k(2) by auto
    show "sorted_wrt (\<lambda>p q. p + 12 \<le> q) (map (\<lambda>i. t - (k - i) * s) [0..<Suc k])"
      unfolding sorted_wrt_map using gap k(1) by (intro sorted_wrt_mono_rel [OF _ sorted_wrt_upt]) fastforce+
  qed
  show "q = 6 \<or> 18 \<le> q \<and> q \<le> v * 4 + 10 \<and> (q \<noteq> v * 4 + 10 \<longrightarrow> q + 16 \<le> v * 4 + 10)"
    if "q \<in> set (alignmentPositions v)"
  proof (cases "q = 6")
    case False
    with that obtain i where i: "i \<le> k" "q = t - (k - i) * s" unfolding pos by (auto simp: less_Suc_eq_le simp del: upt_Suc)
    have "q + 16 \<le> t" if "q \<noteq> t"
    proof -
      from that i have "i < k" by (cases "i = k") auto
      moreover from this have "16 \<le> s" by (intro k(3)) simp
      ultimately show ?thesis using gap [of i k] i by simp
    qed
    with i low show ?thesis by (auto simp: t_def)
  qed simp
qed

section \<open>The reserved modules\<close>

definition in_alignment :: "nat \<Rightarrow> nat \<Rightarrow> nat \<Rightarrow> bool" where
  "in_alignment v r c \<longleftrightarrow> (let ps = alignmentPositions v in
     list_ex (\<lambda>p. list_ex (\<lambda>q. \<not> (p = 6 \<and> (q = 6 \<or> q = last ps) \<or> p = last ps \<and> q = 6) \<and>
       p \<le> r + 2 \<and> r \<le> p + 2 \<and> q \<le> c + 2 \<and> c \<le> q + 2) ps) ps)"

definition function_module :: "nat \<Rightarrow> nat \<Rightarrow> nat \<Rightarrow> bool" where
  "function_module v r c \<longleftrightarrow> (let n = moduleCount v in
     r = 6 \<or> c = 6 \<or> r < 9 \<and> c < 9 \<or> n - 8 \<le> r \<and> c < 9 \<or> r < 9 \<and> n - 8 \<le> c \<or>
     7 \<le> v \<and> (r < 6 \<and> n - 11 \<le> c \<and> c < n - 8 \<or> c < 6 \<and> n - 11 \<le> r \<and> r < n - 8) \<or> in_alignment v r c)"

lemma bex_concat_map: "(\<exists>s \<in> set (concat (map f xs)). P s) \<longleftrightarrow> (\<exists>x \<in> set xs. \<exists>s \<in> set (f x). P s)"
  by auto

lemma bex_if: "(\<exists>s \<in> set (if b then [] else ys). P s) \<longleftrightarrow> \<not> b \<and> (\<exists>s \<in> set ys. P s)"
  by auto

lemma bex_map: "(\<exists>s \<in> set (map f xs). P s) \<longleftrightarrow> (\<exists>x \<in> set xs. P (f x))"
  by auto

lemma timing_reserves: "r < n \<Longrightarrow> c < n \<Longrightarrow> (\<exists>s \<in> set (timing n). reserves s (r, c)) \<longleftrightarrow> r = 6 \<or> c = 6"
  by (auto simp: timing_def)

lemma finder_reserves:
  assumes "r < n" and "c < n"
  shows "(\<exists>s \<in> set (finder n R C). reserves s (r, c)) \<longleftrightarrow> R \<le> r + 1 \<and> r \<le> R + 7 \<and> C \<le> c + 1 \<and> c \<le> C + 7"
proof
  assume "\<exists>s \<in> set (finder n R C). reserves s (r, c)"
  then show "R \<le> r + 1 \<and> r \<le> R + 7 \<and> C \<le> c + 1 \<and> c \<le> C + 7"
    by (auto simp: finder_def Let_def split: if_splits)
next
  assume in_range: "R \<le> r + 1 \<and> r \<le> R + 7 \<and> C \<le> c + 1 \<and> c \<le> C + 7"
  define dr dc where "dr = int r - int R" and "dc = int c - int C"
  have "dr \<in> set [-1..7]" "dc \<in> set [-1..7]" using in_range by (auto simp: dr_def dc_def)
  moreover have "nat (int R + dr) = r" "nat (int C + dc) = c" by (simp_all add: dr_def dc_def)
  moreover have "\<not> (int R + dr < 0 \<or> int n \<le> int R + dr \<or> int C + dc < 0 \<or> int n \<le> int C + dc)"
    using assms by (simp add: dr_def dc_def)
  ultimately show "\<exists>s \<in> set (finder n R C). reserves s (r, c)"
    unfolding finder_def Let_def set_concat set_map by (intro bexI [of _ "Pattern r c (max \<bar>dr - 3\<bar> \<bar>dc - 3\<bar> \<le> 3 \<and> max \<bar>dr - 3\<bar> \<bar>dc - 3\<bar> \<noteq> 2)"]) force+
qed

lemma alignment_reserves:
  assumes v: "known_version v" and "r < n" and "c < n"
  shows "(\<exists>s \<in> set (alignment v). reserves s (r, c)) \<longleftrightarrow> in_alignment v r c"
proof (cases "v = 1")
  case True
  then show ?thesis by (simp add: alignment_def in_alignment_def alignmentPositions_def)
next
  case False
  have low: "6 \<le> p" if "p \<in> set (alignmentPositions v)" for p
    using positions_props(4) [OF v False that] by auto
  have pat: "(\<exists>dr \<in> set [-2..2]. \<exists>dc \<in> set [-2..2]. (r, c) = (nat (int p + dr), nat (int q + dc))) \<longleftrightarrow>
      p \<le> r + 2 \<and> r \<le> p + 2 \<and> q \<le> c + 2 \<and> c \<le> q + 2" if "6 \<le> p" "6 \<le> q" for p q
  proof
    assume "p \<le> r + 2 \<and> r \<le> p + 2 \<and> q \<le> c + 2 \<and> c \<le> q + 2"
    then show "\<exists>dr \<in> set [-2..2]. \<exists>dc \<in> set [-2..2]. (r, c) = (nat (int p + dr), nat (int q + dc))"
      by (intro bexI [of _ "int r - int p"] bexI [of _ "int c - int q"]) auto
  qed (use that in auto)
  have "(\<exists>s \<in> set (alignment v). reserves s (r, c)) \<longleftrightarrow>
      (\<exists>p \<in> set (alignmentPositions v). \<exists>q \<in> set (alignmentPositions v).
        \<not> (p = 6 \<and> (q = 6 \<or> q = last (alignmentPositions v)) \<or> p = last (alignmentPositions v) \<and> q = 6) \<and>
        (\<exists>dr \<in> set [-2..2]. \<exists>dc \<in> set [-2..2]. (r, c) = (nat (int p + dr), nat (int q + dc))))"
    unfolding alignment_def Let_def bex_concat_map bex_if bex_map reserves.simps by (rule refl)
  also have "\<dots> \<longleftrightarrow>
      (\<exists>p \<in> set (alignmentPositions v). \<exists>q \<in> set (alignmentPositions v).
        \<not> (p = 6 \<and> (q = 6 \<or> q = last (alignmentPositions v)) \<or> p = last (alignmentPositions v) \<and> q = 6) \<and>
        p \<le> r + 2 \<and> r \<le> p + 2 \<and> q \<le> c + 2 \<and> c \<le> q + 2)"
    by (intro bex_cong refl) (simp only: pat low)
  finally show ?thesis unfolding in_alignment_def Let_def list_ex_iff .
qed

lemma format_reserves:
  assumes "17 \<le> n" and "r < n" and "c < n"
  shows "(\<exists>s \<in> set (format_strips n). reserves s (r, c)) \<longleftrightarrow>
    r = 8 \<and> (c < 9 \<or> n - 8 \<le> c) \<or> c = 8 \<and> (r < 9 \<or> n - 8 \<le> r)"
proof -
  have strip: "(\<exists>i \<in> set [0..<8]. x = n - 1 - i) \<longleftrightarrow> n - 8 \<le> x" if "x < n" for x
  proof
    assume "n - 8 \<le> x"
    then show "\<exists>i \<in> set [0..<8]. x = n - 1 - i" using that assms(1) by (intro bexI [of _ "n - 1 - x"]) auto
  qed (use assms(1) in auto)
  have "(\<exists>s \<in> set (format_strips n). reserves s (r, c)) \<longleftrightarrow>
      (\<exists>i \<in> set [0..<9]. (r, c) = (8, i) \<or> (r, c) = (i, 8)) \<or>
      (\<exists>i \<in> set [0..<8]. (r, c) = (8, n - 1 - i) \<or> (r, c) = (n - 1 - i, 8))"
    unfolding format_strips_def set_append bex_Un bex_concat_map by (simp del: upt_rec_numeral)
  also have "\<dots> \<longleftrightarrow> (r = 8 \<and> c < 9 \<or> c = 8 \<and> r < 9) \<or> (r = 8 \<and> (\<exists>i \<in> set [0..<8]. c = n - 1 - i) \<or> c = 8 \<and> (\<exists>i \<in> set [0..<8]. r = n - 1 - i))"
    by (auto simp del: upt_rec_numeral)
  finally show ?thesis using strip [OF assms(2)] strip [OF assms(3)] by auto
qed

lemma version_reserves:
  assumes "17 \<le> n" and "r < n" and "c < n"
  shows "(\<exists>s \<in> set (version_strips n v). reserves s (r, c)) \<longleftrightarrow>
    7 \<le> v \<and> (r < 6 \<and> n - 11 \<le> c \<and> c < n - 8 \<or> c < 6 \<and> n - 11 \<le> r \<and> r < n - 8)"
proof -
  have block: "(\<exists>i \<in> set [0..<18]. x = n - 11 + i mod 3 \<and> y = i div 3) \<longleftrightarrow> y < 6 \<and> n - 11 \<le> x \<and> x < n - 8" for x y
  proof
    assume xy: "y < 6 \<and> n - 11 \<le> x \<and> x < n - 8"
    define d where "d = x - (n - 11)"
    have d: "d < 3" "x = n - 11 + d" using xy assms(1) by (auto simp: d_def)
    have "(y * 3 + d) mod 3 = d" "(y * 3 + d) div 3 = y" using d by auto
    then show "\<exists>i \<in> set [0..<18]. x = n - 11 + i mod 3 \<and> y = i div 3"
      using d xy by (intro bexI [of _ "y * 3 + d"]) auto
  qed (use assms(1) in \<open>auto simp del: upt_rec_numeral\<close>)
  have "(\<exists>s \<in> set (version_strips n v). reserves s (r, c)) \<longleftrightarrow>
      7 \<le> v \<and> (\<exists>i \<in> set [0..<18]. (r, c) = (i div 3, n - 11 + i mod 3) \<or> (r, c) = (n - 11 + i mod 3, i div 3))"
  proof (cases "7 \<le> v")
    case True
    then show ?thesis unfolding version_strips_def Let_def if_P [OF True] bex_concat_map by simp
  qed (simp add: version_strips_def)
  also have "\<dots> \<longleftrightarrow> 7 \<le> v \<and> ((\<exists>i \<in> set [0..<18]. c = n - 11 + i mod 3 \<and> r = i div 3) \<or> (\<exists>i \<in> set [0..<18]. r = n - 11 + i mod 3 \<and> c = i div 3))"
    by (auto simp del: upt_rec_numeral)
  finally show ?thesis unfolding block .
qed

definition blank_canvas :: "nat \<Rightarrow> canvas" where
  "blank_canvas n = \<lparr>cv_modules = emptyMatrix n, cv_reserved = emptyMatrix n\<rparr>"

text \<open>The drawn reservations are the reserved modules.\<close>

lemma drawn_reserved:
  assumes v: "known_version v" and "r < moduleCount v" and "c < moduleCount v"
  shows "cv_reserved (drawFunctionPatterns v (blank_canvas (moduleCount v))) ! r ! c \<longleftrightarrow> function_module v r c"
proof -
  let ?n = "moduleCount v"
  have n: "21 \<le> ?n" using v by (simp add: moduleCount_def known_version_def)
  have ok: "canvas_ok ?n (blank_canvas ?n)" by (simp add: canvas_ok_def blank_canvas_def)
  have len: "length (cv_modules (blank_canvas ?n)) = ?n" by (simp add: blank_canvas_def emptyMatrix_def)
  have blank: "\<not> cv_reserved (blank_canvas ?n) ! r ! c" using assms by (simp add: blank_canvas_def emptyMatrix_def)
  have "cv_reserved (drawFunctionPatterns v (blank_canvas ?n)) ! r ! c \<longleftrightarrow>
      (r = 6 \<or> c = 6) \<or> in_alignment v r c \<or> (r \<le> 7 \<and> c \<le> 7) \<or> (?n - 7 \<le> r + 1 \<and> r \<le> ?n - 7 + 7 \<and> c \<le> 7) \<or>
      (r \<le> 7 \<and> ?n - 7 \<le> c + 1 \<and> c \<le> ?n - 7 + 7) \<or>
      (r = 8 \<and> (c < 9 \<or> ?n - 8 \<le> c) \<or> c = 8 \<and> (r < 9 \<or> ?n - 8 \<le> r)) \<or>
      (7 \<le> v \<and> (r < 6 \<and> ?n - 11 \<le> c \<and> c < ?n - 8 \<or> c < 6 \<and> ?n - 11 \<le> r \<and> r < ?n - 8))"
    unfolding drawFunctionPatterns_def Let_def len draw_reserved [OF ok assms(2,3)] set_append bex_Un
      timing_reserves [OF assms(2,3)] finder_reserves [OF assms(2,3)] alignment_reserves [OF v assms(2,3)]
    using n format_reserves [of ?n r c] version_reserves [of ?n r c v] assms(2,3) blank by simp
  moreover have "?n - 7 \<le> x + 1 \<longleftrightarrow> ?n - 8 \<le> x" for x using n by auto
  moreover have "r \<le> ?n - 7 + 7" "c \<le> ?n - 7 + 7" using n assms(2,3) by simp_all
  moreover have "r \<le> 7 \<and> c \<le> 7 \<or> r = 8 \<and> c < 9 \<or> c = 8 \<and> r < 9 \<longleftrightarrow> r < 9 \<and> c < 9" by auto
  moreover have "x \<le> 7 \<or> x = 8 \<longleftrightarrow> x < 9" for x :: nat by auto
  ultimately show ?thesis unfolding function_module_def Let_def by blast
qed

end
