(* ===== verification/QrCount.thy ===== *)
theory QrCount
  imports QrReader
begin

text \<open>
  The capacity of a QR symbol: \<open>rawDataModules\<close>, which the encoder computes from a formula, is the number of modules its
  function patterns leave.  The reserved modules are split into disjoint rectangles and counted.
\<close>

section \<open>Rectangles\<close>

definition grid :: "nat \<Rightarrow> (nat \<times> nat) set" where
  "grid n = {..<n} \<times> {..<n}"

definition frame :: "nat \<Rightarrow> (nat \<times> nat) set" where
  "frame n = {..<9} \<times> {..<9} \<union> {n - 8..<n} \<times> {..<9} \<union> {..<9} \<times> {n - 8..<n} \<union> {6} \<times> {9..<n - 8} \<union> {9..<n - 8} \<times> {6}"

definition version_blocks :: "nat \<Rightarrow> nat \<Rightarrow> (nat \<times> nat) set" where
  "version_blocks v n = (if 7 \<le> v then {..<6} \<times> {n - 11..<n - 8} \<union> {n - 11..<n - 8} \<times> {..<6} else {})"

definition band :: "nat \<Rightarrow> nat set" where
  "band p = {p - 2..p + 2} - {6}"

definition centres :: "nat \<Rightarrow> (nat \<times> nat) set" where
  "centres v = (let ps = alignmentPositions v in
     set ps \<times> set ps - {(6, 6), (6, last ps), (last ps, 6)})"

lemma card_frame: "21 \<le> n \<Longrightarrow> card (frame n) = 191 + 2 * n"
proof -
  assume n: "21 \<le> n"
  then have "9 \<le> n - 8" by simp
  then have "card (frame n) = card ({..<9 :: nat} \<times> {..<9 :: nat}) + card ({n - 8..<n} \<times> {..<9 :: nat}) + card ({..<9 :: nat} \<times> {n - 8..<n}) +
      card ({6 :: nat} \<times> {9..<n - 8}) + card ({9..<n - 8} \<times> {6 :: nat})"
    unfolding frame_def by (subst card_Un_disjoint, simp, simp, force)+ simp
  with n show ?thesis by (simp add: card_cartesian_product)
qed

lemma card_version_blocks: "45 \<le> n \<or> v < 7 \<Longrightarrow> card (version_blocks v n) = (if 7 \<le> v then 36 else 0)"
proof (cases "7 \<le> v")
  case True
  assume "45 \<le> n \<or> v < 7"
  with True have n: "45 \<le> n" by simp
  then have "card ({..<6 :: nat} \<times> {n - 11..<n - 8} \<union> {n - 11..<n - 8} \<times> {..<6 :: nat}) =
      card ({..<6 :: nat} \<times> {n - 11..<n - 8}) + card ({n - 11..<n - 8} \<times> {..<6 :: nat})"
    by (intro card_Un_disjoint) auto
  with n True show ?thesis by (simp add: version_blocks_def card_cartesian_product)
qed (simp add: version_blocks_def)

lemma card_band: "p = 6 \<or> 18 \<le> p \<Longrightarrow> card (band p) = (if p = 6 then 4 else 5)"
  by (auto simp: band_def card_Diff_singleton_if)

lemma band_apart: "p + 12 \<le> q \<or> q + 12 \<le> p \<Longrightarrow> band p \<inter> band q = {}"
  by (auto simp: band_def)

text \<open>The alignment patterns without the modules they share with the timing patterns.\<close>

lemma alignment_cards:
  assumes v: "known_version v" and "v \<noteq> 1"
  defines "k \<equiv> v div 7 + 2"
  shows "card (\<Union>(p, q) \<in> centres v. band p \<times> band q) = 25 * (k * k - 3) - 10 * (k - 2)"
proof -
  let ?ps = "alignmentPositions v"
  let ?w = "\<lambda>p :: nat. if p = 6 then 4 else 5 :: nat"
  note props = positions_props [OF assms(1,2)]
  have len: "length ?ps = k" using assms(2) by (simp add: centre_count k_def)
  have low: "p = 6 \<or> 18 \<le> p" if "p \<in> set ?ps" for p using props(4) [OF that] by auto
  have "sorted_wrt (<) ?ps" by (rule sorted_wrt_mono_rel [OF _ props(1)]) simp
  then have dist: "distinct ?ps" by (simp add: strict_sorted_iff)
  have apart: "p + 12 \<le> q \<or> q + 12 \<le> p" if "p \<in> set ?ps" "q \<in> set ?ps" "p \<noteq> q" for p q
    using that props(1) by (metis in_set_conv_nth linorder_neqE_nat sorted_wrt_nth_less)
  have disjoint: "(band p \<times> band q) \<inter> (band p' \<times> band q') = {}"
    if "(p, q) \<in> centres v" "(p', q') \<in> centres v" "(p, q) \<noteq> (p', q')" for p q p' q'
  proof -
    have mem: "p \<in> set ?ps" "q \<in> set ?ps" "p' \<in> set ?ps" "q' \<in> set ?ps" using that by (auto simp: centres_def Let_def)
    from that(3) have "band p \<inter> band p' = {} \<or> band q \<inter> band q' = {}"
      using band_apart [OF apart [OF mem(1,3)]] band_apart [OF apart [OF mem(2,4)]] by auto
    then show ?thesis by (auto simp: Times_Int_Times)
  qed
  have ne: "?ps \<noteq> []" using len by (auto simp: k_def)
  have six: "6 \<in> set ?ps" and last: "last ?ps \<in> set ?ps" using ne props(3) hd_in_set [OF ne] by auto
  have l6: "last ?ps \<noteq> 6" using props(2) v assms(2) by (simp add: known_version_def)
  have sum: "(\<Sum>p \<in> set ?ps. ?w p) = 5 * k - 1"
  proof -
    have "(\<Sum>p \<in> set ?ps. ?w p) = ?w 6 + (\<Sum>p \<in> set ?ps - {6}. ?w p)" by (rule sum.remove [OF _ six]) simp
    also have "(\<Sum>p \<in> set ?ps - {6}. ?w p) = (\<Sum>p \<in> set ?ps - {6}. 5)" by (rule sum.cong) auto
    also have "\<dots> = (k - 1) * 5" using dist six len by (simp add: card_Diff_singleton distinct_card)
    finally show ?thesis using len k_def by simp
  qed
  have corners: "(\<Sum>(p, q) \<in> {(6, 6), (6, last ?ps), (last ?ps, 6)}. ?w p * ?w q) = 56" using l6 by simp
  have "card (\<Union>x \<in> centres v. case x of (p, q) \<Rightarrow> band p \<times> band q) = (\<Sum>x \<in> centres v. card (case x of (p, q) \<Rightarrow> band p \<times> band q))"
  proof (rule card_UN_disjoint)
    show "finite (centres v)" by (simp add: centres_def Let_def)
    show "\<forall>x \<in> centres v. finite (case x of (p, q) \<Rightarrow> band p \<times> band q)" by (auto simp: band_def)
    show "\<forall>x \<in> centres v. \<forall>y \<in> centres v. x \<noteq> y \<longrightarrow>
        (case x of (p, q) \<Rightarrow> band p \<times> band q) \<inter> (case y of (p, q) \<Rightarrow> band p \<times> band q) = {}"
      using disjoint by (simp add: split_paired_all)
  qed
  also have "\<dots> = (\<Sum>(p, q) \<in> centres v. ?w p * ?w q)"
  proof (rule sum.cong [OF refl])
    fix x assume "x \<in> centres v"
    then obtain p q where x: "x = (p, q)" "p \<in> set ?ps" "q \<in> set ?ps" by (auto simp: centres_def Let_def)
    then show "card (case x of (p, q) \<Rightarrow> band p \<times> band q) = (case x of (p, q) \<Rightarrow> ?w p * ?w q)"
      using card_band [OF low [OF x(2)]] card_band [OF low [OF x(3)]] by (simp add: card_cartesian_product)
  qed
  also have "\<dots> = (\<Sum>(p, q) \<in> set ?ps \<times> set ?ps. ?w p * ?w q) - 56"
    unfolding centres_def Let_def corners [symmetric] using six last by (intro sum_diff_nat) auto
  also have "(\<Sum>(p, q) \<in> set ?ps \<times> set ?ps. ?w p * ?w q) = (5 * k - 1) * (5 * k - 1)"
    by (simp only: sum.cartesian_product [symmetric] sum_product [symmetric] sum)
  also have "\<dots> - 56 = 25 * (k * k - 3) - 10 * (k - 2)"
  proof -
    have "25 * (Suc (Suc j) * Suc (Suc j) - 3) - 10 * (Suc (Suc j) - 2) = (5 * Suc (Suc j) - 1) * (5 * Suc (Suc j) - 1) - 56" for j :: nat
      by (simp add: algebra_simps)
    from this [of "v div 7"] show ?thesis by (simp add: k_def)
  qed
  finally show ?thesis .
qed

section \<open>The reserved modules are disjoint rectangles\<close>

lemma in_alignment_iff: "in_alignment v r c \<longleftrightarrow> (\<exists>(p, q) \<in> centres v. r \<in> {p - 2..p + 2} \<and> c \<in> {q - 2..q + 2})"
  unfolding in_alignment_def centres_def Let_def list_ex_iff by (auto simp: le_diff_conv)

lemma centre_cases:
  assumes "known_version v" and "(p, q) \<in> centres v" and "n = moduleCount v"
  shows "(p = 6 \<or> 18 \<le> p) \<and> (q = 6 \<or> 18 \<le> q) \<and> p + 7 \<le> n \<and> q + 7 \<le> n \<and> (p = 6 \<longrightarrow> 18 \<le> q \<and> q + 23 \<le> n) \<and> (q = 6 \<longrightarrow> 18 \<le> p \<and> p + 23 \<le> n)"
proof -
  have v: "v \<noteq> 1" using assms(2) by (auto simp: centres_def alignmentPositions_def)
  note props = positions_props [OF assms(1) v]
  have mem: "p \<in> set (alignmentPositions v)" "q \<in> set (alignmentPositions v)"
    and ne: "(p, q) \<noteq> (6, 6)" "(p, q) \<noteq> (6, last (alignmentPositions v))" "(p, q) \<noteq> (last (alignmentPositions v), 6)"
    using assms(2) by (auto simp: centres_def Let_def)
  from ne props(2) have "\<not> (p = 6 \<and> q = 6)" "\<not> (p = 6 \<and> q = v * 4 + 10)" "\<not> (p = v * 4 + 10 \<and> q = 6)" by auto
  with props(4) [OF mem(1)] props(4) [OF mem(2)] assms(3) show ?thesis
    unfolding moduleCount_def by linarith
qed

lemma timing_in_frame: "21 \<le> n \<Longrightarrow> x < n \<Longrightarrow> (6, x) \<in> frame n \<and> (x, 6) \<in> frame n"
  by (auto simp: frame_def)

lemma three_parts:
  "fm \<longleftrightarrow> P \<or> Q \<or> S \<Longrightarrow> (g \<and> P \<longleftrightarrow> F) \<Longrightarrow> (g \<and> Q \<longleftrightarrow> V) \<Longrightarrow> (S \<longleftrightarrow> B) \<Longrightarrow> (S \<longrightarrow> g) \<Longrightarrow> g \<and> fm \<longleftrightarrow> F \<or> V \<or> B"
  by blast

lemma frame_in_grid: "21 \<le> n \<Longrightarrow> (r, c) \<in> frame n \<Longrightarrow> r < n \<and> c < n"
  by (auto simp: frame_def)

lemma reserved_split:
  assumes v: "known_version v" and n: "n = moduleCount v"
  shows "{(r, c) \<in> grid n. function_module v r c} = frame n \<union> version_blocks v n \<union> (\<Union>(p, q) \<in> centres v. band p \<times> band q)"
proof -
  have n21: "21 \<le> n" and n45: "7 \<le> v \<Longrightarrow> 45 \<le> n" using v by (auto simp: n moduleCount_def known_version_def)
  have frame: "(r < n \<and> c < n) \<and> (r = 6 \<or> c = 6 \<or> r < 9 \<and> c < 9 \<or> n - 8 \<le> r \<and> c < 9 \<or> r < 9 \<and> n - 8 \<le> c) \<longleftrightarrow> (r, c) \<in> frame n" for r c
  proof (cases "r = 6 \<or> c = 6")
    case True
    then show ?thesis using timing_in_frame [OF n21] frame_in_grid [OF n21, of r c] by blast
  next
    case False
    then show ?thesis using n21 by (simp add: frame_def) (cases "r < 9"; cases "c < 9"; auto)
  qed
  have version: "(r < n \<and> c < n) \<and> (7 \<le> v \<and> (r < 6 \<and> n - 11 \<le> c \<and> c < n - 8 \<or> c < 6 \<and> n - 11 \<le> r \<and> r < n - 8)) \<longleftrightarrow> (r, c) \<in> version_blocks v n" for r c
    using n45 by (auto simp: version_blocks_def)
  have bands: "r < n \<and> c < n" if "(p, q) \<in> centres v" "r \<in> {p - 2..p + 2}" "c \<in> {q - 2..q + 2}" for p q r c
    using centre_cases [OF v that(1) n] that(2,3) by auto
  have align: "(\<exists>(p, q) \<in> centres v. r \<in> {p - 2..p + 2} \<and> c \<in> {q - 2..q + 2}) \<longleftrightarrow>
      (r, c) \<in> (\<Union>(p, q) \<in> centres v. band p \<times> band q)" if "r \<noteq> 6" "c \<noteq> 6" for r c
    using that by (simp add: band_def split_beta)
  have "(r, c) \<in> {(r, c) \<in> grid n. function_module v r c} \<longleftrightarrow>
      (r, c) \<in> frame n \<union> version_blocks v n \<union> (\<Union>(p, q) \<in> centres v. band p \<times> band q)" for r c
  proof (cases "r = 6 \<or> c = 6")
    case True
    have "(r, c) \<notin> (\<Union>(p, q) \<in> centres v. band p \<times> band q)" using True by (auto simp: band_def)
    moreover have "(r, c) \<in> version_blocks v n \<Longrightarrow> (r, c) \<in> frame n"
      using True timing_in_frame [OF n21] version by blast
    moreover have "(r, c) \<in> frame n \<longleftrightarrow> r < n \<and> c < n" using True frame by blast
    ultimately show ?thesis using True by (auto simp: grid_def function_module_def Let_def)
  next
    case False
    have modules: "function_module v r c \<longleftrightarrow>
        (r = 6 \<or> c = 6 \<or> r < 9 \<and> c < 9 \<or> n - 8 \<le> r \<and> c < 9 \<or> r < 9 \<and> n - 8 \<le> c) \<or>
        (7 \<le> v \<and> (r < 6 \<and> n - 11 \<le> c \<and> c < n - 8 \<or> c < 6 \<and> n - 11 \<le> r \<and> r < n - 8)) \<or>
        (\<exists>(p, q) \<in> centres v. r \<in> {p - 2..p + 2} \<and> c \<in> {q - 2..q + 2})"
      unfolding function_module_def Let_def n in_alignment_iff by (simp only: disj_assoc)
    have inside: "(\<exists>(p, q) \<in> centres v. r \<in> {p - 2..p + 2} \<and> c \<in> {q - 2..q + 2}) \<longrightarrow> r < n \<and> c < n"
      using bands by auto
    show ?thesis
      using three_parts [OF modules frame version align inside] False by (simp add: grid_def)
  qed
  then show ?thesis by auto
qed

lemma reserved_count:
  assumes v: "known_version v" and n: "n = moduleCount v"
  shows "card {(r, c) \<in> grid n. function_module v r c} =
    191 + 2 * n + (if 7 \<le> v then 36 else 0) + (if v = 1 then 0 else let k = v div 7 + 2 in 25 * (k * k - 3) - 10 * (k - 2))"
proof -
  let ?A = "\<Union>(p, q) \<in> centres v. band p \<times> band q"
  have n21: "21 \<le> n" and n45: "45 \<le> n \<or> v < 7" using v by (auto simp: n moduleCount_def known_version_def)
  have away: "(r, c) \<notin> frame n \<and> (r, c) \<notin> version_blocks v n" if "(p, q) \<in> centres v" "r \<in> band p" "c \<in> band q" for p q r c
    using centre_cases [OF v that(1) n] that(2,3) by (auto simp: band_def frame_def version_blocks_def)
  have fin: "finite (frame n)" "finite (version_blocks v n)" "finite ?A"
    by (auto simp: frame_def version_blocks_def centres_def Let_def band_def)
  have "frame n \<inter> version_blocks v n = {}" using n45 by (auto simp: frame_def version_blocks_def)
  moreover have "(frame n \<union> version_blocks v n) \<inter> ?A = {}" using away by blast
  ultimately have "card {(r, c) \<in> grid n. function_module v r c} = card (frame n) + card (version_blocks v n) + card ?A"
    unfolding reserved_split [OF assms] using fin by (simp add: card_Un_disjoint)
  moreover have "card ?A = (if v = 1 then 0 else let k = v div 7 + 2 in 25 * (k * k - 3) - 10 * (k - 2))"
    using alignment_cards [OF v] by (simp add: Let_def centres_def alignmentPositions_def)
  ultimately show ?thesis using card_frame [OF n21] card_version_blocks [OF n45] by simp
qed

lemma raw_modules_counted:
  assumes v: "known_version v"
  shows "card {(r, c) \<in> grid (moduleCount v). \<not> function_module v r c} = rawDataModules v"
proof -
  let ?n = "moduleCount v"
  have fin: "finite (grid ?n)" by (simp add: grid_def)
  have "{(r, c) \<in> grid ?n. \<not> function_module v r c} = grid ?n - {(r, c) \<in> grid ?n. function_module v r c}" by auto
  moreover have "card (grid ?n - {(r, c) \<in> grid ?n. function_module v r c}) = card (grid ?n) - card {(r, c) \<in> grid ?n. function_module v r c}"
    by (rule card_Diff_subset) (auto intro: finite_subset [OF _ fin])
  moreover have "card (grid ?n) = ?n * ?n" by (simp add: grid_def card_cartesian_product)
  ultimately have count: "card {(r, c) \<in> grid ?n. \<not> function_module v r c} = ?n * ?n - card {(r, c) \<in> grid ?n. function_module v r c}"
    by simp
  have "list_all (\<lambda>v. (v * 4 + 17) * (v * 4 + 17) - (191 + 2 * (v * 4 + 17) + (if 7 \<le> v then 36 else 0) +
      (if v = 1 then 0 else 25 * ((v div 7 + 2) * (v div 7 + 2) - 3) - 10 * (v div 7 + 2 - 2))) = rawDataModules v) [1..<41]"
    unfolding version_list by (simp add: raw_modules)
  with v have formula: "(v * 4 + 17) * (v * 4 + 17) - (191 + 2 * (v * 4 + 17) + (if 7 \<le> v then 36 else 0) +
      (if v = 1 then 0 else 25 * ((v div 7 + 2) * (v div 7 + 2) - 3) - 10 * (v div 7 + 2 - 2))) = rawDataModules v"
    unfolding versions list_all_iff by blast
  with count show ?thesis using reserved_count [OF v refl] unfolding moduleCount_def Let_def by (simp only:)
qed

end
