(* ===== verification/QrRoundtrip.thy ===== *)
theory QrRoundtrip
  imports QrCount
begin

text \<open>
  Reading a QR symbol: the walk over the modules, what placing codewords and masking leave in each module, and the reader
  that takes version, level and mask from the symbol itself and returns its text.
\<close>

section \<open>The walk\<close>

lemma column_cover:
  "odd right \<and> right \<le> 5 \<or> even right \<and> 6 \<le> right \<or> right = 0 \<Longrightarrow>
   (\<Union>x \<in> set (column_starts right). {x, x - 1}) = (if right = 0 then {} else {..right} - {6}) \<and>
   2 * length (column_starts right) = (if right = 0 then 0 else if right \<le> 5 then right + 1 else right)"
proof (induction right rule: column_starts.induct)
  case (1 right)
  show ?case
  proof (cases "right = 0")
    case True
    then show ?thesis by (simp add: column_starts.simps)
  next
    case False
    define x where "x = (if right = 6 then 5 else right)"
    have unfold: "column_starts right = x # column_starts (x - 2)" using False by (simp add: column_starts.simps [of right] x_def Let_def)
    have six: "right = 6 \<or> right = 1 \<or> right = 3 \<or> right = 5 \<or> 8 \<le> right \<and> even right"
      using 1(2) False by presburger
    have kind: "odd (x - 2) \<and> x - 2 \<le> 5 \<or> even (x - 2) \<and> 6 \<le> x - 2 \<or> x - 2 = 0"
      using six by (auto simp: x_def)
    have IH: "(\<Union>x \<in> set (column_starts (x - 2)). {x, x - 1}) = (if x - 2 = 0 then {} else {..x - 2} - {6}) \<and>
        2 * length (column_starts (x - 2)) = (if x - 2 = 0 then 0 else if x - 2 \<le> 5 then x - 2 + 1 else x - 2)"
      using 1(1) [OF _ x_def kind] False by simp
    have cover: "insert x (insert (x - 1) (if x - 2 = 0 then {} else {..x - 2} - {6})) = {..right} - {6}"
      using six by (auto simp: x_def)
    have "2 * Suc (length (column_starts (x - 2))) = (if right \<le> 5 then right + 1 else right)"
      using six IH by (auto simp: x_def)
    with cover IH False show ?thesis by (simp add: unfold)
  qed
qed

lemma walk_cells:
  assumes "odd n" and "9 \<le> n"
  shows "set (walk n) = {(r, c). r < n \<and> c < n \<and> c \<noteq> 6}" and "distinct (walk n)"
proof -
  have kind: "even (n - 1)" "6 \<le> n - 1" using assms by auto
  note cols = column_cover [of "n - 1"]
  have flip: "(\<lambda>i. n - 1 - i) ` {0..<n} = {0..<n}"
  proof -
    have "x \<in> (\<lambda>i. n - 1 - i) ` {0..<n}" if "x < n" for x using that by (intro image_eqI [of _ _ "n - 1 - x"]) auto
    then show ?thesis by auto
  qed
  have "set (walk n) = (\<Union>right \<in> set (column_starts (n - 1)). {0..<n} \<times> {right, right - 1})"
  proof -
    have "(\<Union>vertical \<in> {0..<n}. {(if up then n - 1 - vertical else vertical, right), (if up then n - 1 - vertical else vertical, right - 1)}) =
        {0..<n} \<times> {right, right - 1 :: nat}" for up right
    proof (cases up)
      case True
      have "(\<Union>vertical \<in> {0..<n}. {(n - 1 - vertical, right), (n - 1 - vertical, right - 1)}) =
          (\<lambda>i. n - 1 - i) ` {0..<n} \<times> {right, right - 1}" by auto
      with True show ?thesis by (simp only: flip if_True)
    qed auto
    then show ?thesis by (simp add: walk_def Let_def)
  qed
  also have "\<dots> = {0..<n} \<times> (\<Union>right \<in> set (column_starts (n - 1)). {right, right - 1})" by auto
  also have "\<dots> = {(r, c). r < n \<and> c < n \<and> c \<noteq> 6}" using cols kind by auto
  finally show cells: "set (walk n) = {(r, c). r < n \<and> c < n \<and> c \<noteq> 6}" .
  have "length (walk n) = length (column_starts (n - 1)) * (n * 2)"
    by (simp add: walk_def Let_def length_concat comp_def sum_list_triv)
  moreover have "2 * length (column_starts (n - 1)) = n - 1"
    using conjunct2 [OF cols] kind by (simp split: if_splits)
  ultimately have len: "length (walk n) = n * (n - 1)" by (metis mult.assoc mult.commute)
  have "{(r, c). r < n \<and> c < n \<and> c \<noteq> 6} = {..<n} \<times> ({..<n} - {6})" by auto
  then have "card (set (walk n)) = n * (n - 1)" unfolding cells using assms(2) by (simp add: card_cartesian_product)
  with len show "distinct (walk n)" by (intro card_distinct) simp
qed

text \<open>The modules the walk may fill, in order; there are as many as the encoder counts.\<close>

definition free_cells :: "nat \<Rightarrow> (nat \<times> nat) list" where
  "free_cells v = filter (\<lambda>(r, c). \<not> function_module v r c) (walk (moduleCount v))"

lemma free_cells:
  assumes v: "known_version v"
  shows "distinct (free_cells v)" and "length (free_cells v) = rawDataModules v"
    and "(r, c) \<in> set (free_cells v) \<Longrightarrow> r < moduleCount v \<and> c < moduleCount v \<and> \<not> function_module v r c"
proof -
  have n: "odd (moduleCount v)" "9 \<le> moduleCount v" by (simp_all add: moduleCount_def)
  note walk = walk_cells [OF n]
  show dist: "distinct (free_cells v)" using walk(2) by (simp add: free_cells_def)
  have "c \<noteq> 6" if "\<not> function_module v r c" for r c using that by (auto simp: function_module_def Let_def)
  then have set: "set (free_cells v) = {(r, c) \<in> grid (moduleCount v). \<not> function_module v r c}"
    unfolding free_cells_def set_filter walk(1) grid_def by auto
  show "length (free_cells v) = rawDataModules v"
    using raw_modules_counted [OF v] distinct_card [OF dist] set by simp
  show "(r, c) \<in> set (free_cells v) \<Longrightarrow> r < moduleCount v \<and> c < moduleCount v \<and> \<not> function_module v r c"
    unfolding set grid_def by simp
qed

section \<open>Placing\<close>

lemma place_effect:
  assumes "canvas_ok n cv" and "distinct cells" and "\<forall>(r, c) \<in> set cells. r < n \<and> c < n"
  defines "free \<equiv> filter (\<lambda>(r, c). \<not> cv_reserved cv ! r ! c) cells"
  shows "cv_reserved (place cells cw i cv) = cv_reserved cv \<and> canvas_ok n (place cells cw i cv) \<and>
    (\<forall>r < n. \<forall>c < n. (r, c) \<notin> set cells \<longrightarrow> cv_modules (place cells cw i cv) ! r ! c = cv_modules cv ! r ! c) \<and>
    (\<forall>k < length free. i + k < length cw * 8 \<longrightarrow>
      cv_modules (place cells cw i cv) ! fst (free ! k) ! snd (free ! k) = bit (cw ! ((i + k) div 8)) (7 - (i + k) mod 8))"
  using assms(1-3) unfolding free_def
proof (induction cells arbitrary: i cv)
  case (Cons cell cells)
  obtain r c where cell: "cell = (r, c)" by (cases cell)
  have rc: "r < n" "c < n" "(r, c) \<notin> set cells" using Cons.prems cell by auto
  show ?case
  proof (cases "cv_reserved cv ! r ! c")
    case True
    with Cons cell show ?thesis by simp
  next
    case False
    show ?thesis
    proof (cases "i \<ge> length cw * 8")
      case True
      with False have "place (cell # cells) cw i cv = place cells cw i cv" by (simp add: cell)
      moreover have "cv_reserved (place cells cw i cv) = cv_reserved cv \<and> canvas_ok n (place cells cw i cv) \<and>
          (\<forall>r < n. \<forall>c < n. (r, c) \<notin> set cells \<longrightarrow> cv_modules (place cells cw i cv) ! r ! c = cv_modules cv ! r ! c)"
        using Cons.IH [of cv i] Cons.prems by simp
      ultimately show ?thesis using True by simp
    next
      case less: False
      define cv' where "cv' = cv\<lparr>cv_modules := put (cv_modules cv) r c (bit (cw ! (i div 8)) (7 - i mod 8))\<rparr>"
      have step: "place (cell # cells) cw i cv = place cells cw (i + 1) cv'" using False less by (simp add: cell cv'_def)
      have ok: "canvas_ok n cv'" using Cons.prems(1) by (simp add: canvas_ok_def cv'_def)
      have res: "cv_reserved cv' = cv_reserved cv" by (simp add: cv'_def)
      note IH = Cons.IH [OF ok, of "i + 1", unfolded res]
      have here: "cv_modules cv' ! a ! b = (if (a, b) = (r, c) then bit (cw ! (i div 8)) (7 - i mod 8) else cv_modules cv ! a ! b)"
        if "a < n" "b < n" for a b
        using Cons.prems(1) that by (auto simp: cv'_def canvas_ok_def put_cell)
      have free: "filter (\<lambda>(r, c). \<not> cv_reserved cv ! r ! c) (cell # cells) = (r, c) # filter (\<lambda>(r, c). \<not> cv_reserved cv ! r ! c) cells"
        using False by (simp add: cell)
      have "cv_modules (place cells cw (i + 1) cv') ! r ! c = bit (cw ! (i div 8)) (7 - i mod 8)"
        using IH Cons.prems rc here by auto
      then show ?thesis
        unfolding step free using IH Cons.prems rc here
        by (auto simp: cell nth_Cons split: nat.splits)
    qed
  qed
qed simp

lemma codeword_bits_nth: "m < length cw * 8 \<Longrightarrow> concat (map byte_bits cw) ! m = bit (cw ! (m div 8)) (7 - m mod 8)"
proof -
  assume m: "m < length cw * 8"
  then have "m div 8 < length cw" by (simp add: less_mult_imp_div_less)
  then have "concat (map (\<lambda>i. byte_bits (cw ! i)) [0..<length cw]) ! (m div 8 * 8 + m mod 8) = byte_bits (cw ! (m div 8)) ! (m mod 8)"
    by (intro rows_nth) simp_all
  also have "map (\<lambda>i. byte_bits (cw ! i)) [0..<length cw] = map byte_bits cw" by (rule nth_equalityI) simp_all
  finally show ?thesis by (simp add: byte_bits_def rev_nth del: upt_rec_numeral)
qed

section \<open>Format information\<close>

definition FORMATS :: "(ec_level \<times> nat) list" where
  "FORMATS = List.product [EcL, EcM] [0..<8]"

lemma formats: "FORMATS =
    [(EcL, 0), (EcL, 1), (EcL, 2), (EcL, 3), (EcL, 4), (EcL, 5), (EcL, 6), (EcL, 7),
     (EcM, 0), (EcM, 1), (EcM, 2), (EcM, 3), (EcM, 4), (EcM, 5), (EcM, 6), (EcM, 7)]"
  by code_simp

lemma format_words: "map (\<lambda>(level, pattern). formatBits level pattern) FORMATS =
    [30660, 29427, 32170, 30877, 26159, 25368, 27713, 26998, 21522, 20773, 24188, 23371, 17913, 16590, 20375, 19104]"
  unfolding formats list.map prod.case
  by (simp add: formatBits_def Let_def bch_remainder_def EC_INDICATOR_def)

lemma format_injective:
  assumes "x \<in> set FORMATS" and "y \<in> set FORMATS"
    and "\<forall>i < 15. bit (case x of (level, pattern) \<Rightarrow> formatBits level pattern) i =
      bit (case y of (level, pattern) \<Rightarrow> formatBits level pattern) i"
  shows "x = y"
proof -
  let ?f = "\<lambda>(level, pattern). formatBits level pattern"
  have "distinct (map ?f FORMATS)" "list_all (\<lambda>w. take_bit 15 w = w) (map ?f FORMATS)"
    unfolding format_words by simp_all
  then have inj: "inj_on ?f (set FORMATS)" and small: "take_bit 15 (?f z) = ?f z" if "z \<in> set FORMATS" for z
    using that by (auto simp: distinct_map list_all_iff)
  have "take_bit 15 (?f x) = take_bit 15 (?f y)"
    using assms(3) by (intro bit_word_eqI) (auto simp: bit_take_bit_iff)
  then have "?f x = ?f y" by (simp only: small assms(1,2))
  with inj [OF assms(1)] show ?thesis using assms(1,2) by (auto dest: inj_onD)
qed

definition format_cell :: "nat \<Rightarrow> nat \<times> nat" where
  "format_cell i = (if i < 6 then (i, 8) else if i = 6 then (7, 8) else if i = 7 then (8, 8) else if i = 8 then (8, 7) else (8, 14 - i))"

definition format_index :: "nat \<Rightarrow> nat \<Rightarrow> nat" where
  "format_index r c = (if c = 8 then if r < 6 then r else if r = 7 then 6 else 7 else if c = 7 then 8 else 14 - c)"

lemma format_cell_index: "i < 15 \<Longrightarrow> format_cell i = (r, c) \<Longrightarrow> r \<le> 8 \<and> c \<le> 8 \<and> format_index r c = i"
  by (simp add: format_cell_def format_index_def split: if_splits) linarith+

lemma format_inks:
  assumes "s \<in> set (format_strokes n bits)" and "inks s (r, c) y" and "21 \<le> n"
  shows "(r = 8 \<and> c < n \<and> (c < 9 \<or> n - 8 \<le> c) \<or> c = 8 \<and> r < n \<and> (r < 9 \<or> n - 8 \<le> r)) \<and>
    (\<forall>i < 15. format_cell i = (r, c) \<longrightarrow> y = bit bits i)"
proof -
  consider (a) i where "i < 6" "r = i" "c = 8" "y = bit bits i" | (b) "r = 7" "c = 8" "y = bit bits 6"
    | (c) "r = 8" "c = 8" "y = bit bits 7" | (d) "r = 8" "c = 7" "y = bit bits 8"
    | (e) i where "9 \<le> i" "i < 15" "r = 8" "c = 14 - i" "y = bit bits i"
    | (f) i where "i < 8" "r = 8" "c = n - 1 - i" | (g) i where "8 \<le> i" "i < 15" "r = n - 15 + i" "c = 8"
    using assms(1,2) unfolding format_strokes_def by (auto simp del: upt_rec_numeral)
  then have "((r = 8 \<and> c < n \<and> (c < 9 \<or> n - 8 \<le> c) \<or> c = 8 \<and> r < n \<and> (r < 9 \<or> n - 8 \<le> r))) \<and>
      (\<not> (r \<le> 8 \<and> c \<le> 8) \<or> y = bit bits (format_index r c))"
  proof cases
    case e
    have "c \<noteq> 8" "c \<noteq> 7" "14 - c = i" "c < n" "c < 9" using e(1,2,4) assms(3) by linarith+
    with e(3,5) show ?thesis by (simp add: format_index_def)
  next
    case f
    have "n - 8 \<le> c" "c < n" "\<not> c \<le> 8" using f(1,3) assms(3) by linarith+
    with f(2) show ?thesis by simp
  next
    case g
    have "n - 8 \<le> r" "r < n" "\<not> r \<le> 8" using g(1-3) assms(3) by linarith+
    with g(4) show ?thesis by simp
  qed (use assms(3) in \<open>simp_all add: format_index_def\<close>)
  then have place: "(r = 8 \<and> c < n \<and> (c < 9 \<or> n - 8 \<le> c) \<or> c = 8 \<and> r < n \<and> (r < 9 \<or> n - 8 \<le> r))"
    and far: "\<not> (r \<le> 8 \<and> c \<le> 8) \<or> y = bit bits (format_index r c)" by simp_all
  have "y = bit bits i" if "i < 15" "format_cell i = (r, c)" for i
    using far format_cell_index [OF that] by auto
  with place show ?thesis by blast
qed

lemma format_cell_drawn:
  assumes "i < 15"
  shows "\<exists>s \<in> set (format_strokes n bits). inks s (format_cell i) (bit bits i)"
proof -
  consider "i < 6" | "i = 6" | "i = 7" | "i = 8" | "9 \<le> i" using assms by linarith
  then show ?thesis
  proof cases
    case 1
    then show ?thesis unfolding format_strokes_def by (intro bexI [of _ "Ink i 8 (bit bits i)"]) (auto simp: format_cell_def)
  next
    case 5
    with assms show ?thesis unfolding format_strokes_def
      by (intro bexI [of _ "Ink 8 (14 - i) (bit bits i)"]) (auto simp: format_cell_def simp del: upt_rec_numeral)
  qed (auto simp: format_strokes_def format_cell_def)
qed

lemma drawn_format:
  assumes m: "square n m" and n: "21 \<le> n"
  shows "square n (drawFormatInfo level pattern m)"
    and "i < 15 \<Longrightarrow> (case format_cell i of (r, c) \<Rightarrow> drawFormatInfo level pattern m ! r ! c) = bit (formatBits level pattern) i"
    and "r < n \<Longrightarrow> c < n \<Longrightarrow> \<not> (r < 9 \<and> c < 9 \<or> n - 8 \<le> r \<and> c < 9 \<or> r < 9 \<and> n - 8 \<le> c) \<Longrightarrow>
      drawFormatInfo level pattern m ! r ! c = m ! r ! c"
proof -
  let ?cv = "\<lparr>cv_modules = m, cv_reserved = []\<rparr>"
  let ?bits = "formatBits level pattern"
  let ?ss = "format_strokes n ?bits"
  have len: "length m = n" using m by (simp add: square_def)
  have sq: "square n (cv_modules ?cv)" using m by simp
  have keep: "square n (cv_modules (draw_all ss cv))" if "square n (cv_modules cv)" for ss cv
    using that unfolding draw_all_def
  proof (induction ss arbitrary: cv)
    case (Cons s ss)
    then show ?case by (cases s) simp_all
  qed simp
  show "square n (drawFormatInfo level pattern m)" unfolding drawFormatInfo_def len by (rule keep [OF sq])
  show "(case format_cell i of (r, c) \<Rightarrow> drawFormatInfo level pattern m ! r ! c) = bit ?bits i" if i: "i < 15"
  proof -
    obtain r c where rc: "format_cell i = (r, c)" by (cases "format_cell i")
    obtain s where s: "s \<in> set ?ss" "inks s (r, c) (bit ?bits i)" using format_cell_drawn [OF i, of n ?bits] rc by auto
    have rcn: "r < n" "c < n" using conjunct1 [OF format_inks [OF s n]] n by (elim disjE conjE; simp)+
    have same: "y = bit ?bits i" if "s' \<in> set ?ss" "inks s' (r, c) y" for s' y
      using conjunct2 [OF format_inks [OF that n]] i rc by blast
    have hit: "(\<exists>s \<in> set ?ss. inks s (r, c) (bit ?bits i)) \<or> cv_modules ?cv ! r ! c = bit ?bits i" using s by blast
    have "cv_modules (draw_all ?ss ?cv) ! r ! c = bit ?bits i"
      by (rule draw_module [OF sq rcn same hit])
    then show ?thesis by (simp add: rc drawFormatInfo_def len)
  qed
  show "drawFormatInfo level pattern m ! r ! c = m ! r ! c"
    if "r < n" "c < n" and outside: "\<not> (r < 9 \<and> c < 9 \<or> n - 8 \<le> r \<and> c < 9 \<or> r < 9 \<and> n - 8 \<le> c)"
  proof -
    have none: "\<not> inks s (r, c) y" if "s \<in> set ?ss" for s y
    proof
      assume "inks s (r, c) y"
      note conjunct1 [OF format_inks [OF that this n]]
      then have "r < 9 \<and> c < 9 \<or> n - 8 \<le> r \<and> c < 9 \<or> r < 9 \<and> n - 8 \<le> c" by (elim disjE conjE) simp_all
      with outside show False by blast
    qed
    show ?thesis unfolding drawFormatInfo_def len
      by (rule draw_module [OF sq that(1,2)]) (simp_all add: none)
  qed
qed

section \<open>The reader\<close>

definition read_format :: "matrix \<Rightarrow> (ec_level \<times> nat) option" where
  "read_format m = List.find (\<lambda>(level, pattern).
     list_all (\<lambda>i. (case format_cell i of (r, c) \<Rightarrow> m ! r ! c) = bit (formatBits level pattern) i) [0..<15]) FORMATS"

definition read_codewords :: "nat \<Rightarrow> nat \<Rightarrow> matrix \<Rightarrow> byte list" where
  "read_codewords version pattern m =
     take (totalCodewords version) (to_codewords (map (\<lambda>(r, c). m ! r ! c \<noteq> (MASKS ! pattern) r c) (free_cells version)))"

fun from_utf8 :: "byte list \<Rightarrow> string" where
  "from_utf8 (b # bs) =
     (if unat b < 128 then char_of (unat b) # from_utf8 bs
      else case bs of [] \<Rightarrow> [] | b' # bs' \<Rightarrow> char_of ((unat b - 192) * 64 + (unat b' - 128)) # from_utf8 bs')"
| "from_utf8 [] = []"

definition read_symbol :: "matrix \<Rightarrow> string option" where
  "read_symbol m =
     (let version = (length m - 17) div 4 in
      case read_format m of
        None \<Rightarrow> None
      | Some (level, pattern) \<Rightarrow>
          map_option from_utf8 (read_payload version (deinterleave version level (read_codewords version pattern m))))"

lemma utf8_back: "from_utf8 (utf8 s) = s"
proof (induction s)
  case (Cons c s)
  define n where "n = (of_char c :: nat)"
  have n: "n < 256" and c: "char_of n = c" by (simp_all add: n_def)
  have byte: "unat (of_nat k :: byte) = k" if "k < 256" for k using that by (simp add: unat_of_nat)
  show ?case
  proof (cases "n < 128")
    case True
    with Cons byte [of n] c show ?thesis by (simp add: utf8_def utf8_char_def flip: n_def)
  next
    case False
    have "n div 64 < 4" using n by (simp add: less_mult_imp_div_less)
    then have two: "unat (of_nat (192 + n div 64) :: byte) = 192 + n div 64" "unat (of_nat (128 + n mod 64) :: byte) = 128 + n mod 64"
      by (auto intro!: byte simp del: of_nat_add)
    have "utf8 (c # s) = of_nat (192 + n div 64) # of_nat (128 + n mod 64) # utf8 s"
      using False by (simp add: utf8_def utf8_char_def n_def Let_def)
    then have "from_utf8 (utf8 (c # s)) = char_of ((192 + n div 64 - 192) * 64 + (128 + n mod 64 - 128)) # from_utf8 (utf8 s)"
      by (simp only: from_utf8.simps two list.case) simp
    then show ?thesis using Cons c by simp
  qed
qed (simp add: utf8_def)

lemma format_found:
  assumes "(level, pattern) \<in> set FORMATS"
    and "\<And>i. i < 15 \<Longrightarrow> (case format_cell i of (r, c) \<Rightarrow> m ! r ! c) = bit (formatBits level pattern) i"
  shows "read_format m = Some (level, pattern)"
proof -
  let ?P = "\<lambda>(level, pattern). list_all (\<lambda>i. (case format_cell i of (r, c) \<Rightarrow> m ! r ! c) = bit (formatBits level pattern) i) [0..<15]"
  have "?P (level, pattern)" using assms(2) by (simp add: list_all_iff del: upt_rec_numeral)
  with assms(1) have "List.find ?P FORMATS \<noteq> None" by (auto simp: find_None_iff)
  then obtain x where x: "List.find ?P FORMATS = Some x" by auto
  then have mem: "x \<in> set FORMATS" by (auto simp: find_Some_iff in_set_conv_nth)
  from x have "?P x" by (auto simp: find_Some_iff)
  then have "\<forall>i < 15. bit (case x of (level, pattern) \<Rightarrow> formatBits level pattern) i =
      bit (case (level, pattern) of (level, pattern) \<Rightarrow> formatBits level pattern) i"
    using assms(2) by (auto simp: list_all_iff simp del: upt_rec_numeral)
  with format_injective [OF mem assms(1)] x show ?thesis by (simp add: read_format_def)
qed

section \<open>A symbol reads back\<close>

lemma best_mask_in: "best_mask score ms \<in> insert 0 (set ms)"
proof -
  have "fst (fold (\<lambda>p (best, least). case least of Some s \<Rightarrow> if score p < s then (p, Some (score p)) else (best, least)
      | None \<Rightarrow> (p, Some (score p))) ms z) \<in> insert (fst z) (set ms)" for z :: "nat \<times> nat option"
  proof (induction ms arbitrary: z)
    case (Cons p ms)
    obtain b l where z: "z = (b, l)" by (cases z)
    show ?case using Cons.IH [of "(b, l)"] Cons.IH [of "(p, Some (score p))"] by (auto simp: z split: option.splits)
  qed simp
  from this [of "(0, None)"] show ?thesis by (simp add: best_mask_def)
qed

lemma canvas_of_symbol:
  assumes v: "known_version v" and cw: "length cw = totalCodewords v"
  defines "cv \<equiv> symbol_canvas cw v" and "n \<equiv> moduleCount v"
  shows "canvas_ok n cv" and "r < n \<Longrightarrow> c < n \<Longrightarrow> cv_reserved cv ! r ! c \<longleftrightarrow> function_module v r c"
    and "take (length cw * 8) (map (\<lambda>(r, c). cv_modules cv ! r ! c) (free_cells v)) = concat (map byte_bits cw)"
proof -
  define cv0 where "cv0 = drawFunctionPatterns v (blank_canvas n)"
  define cv1 where "cv1 = drawVersionInfo v cv0"
  have ok0: "canvas_ok n cv0" unfolding cv0_def drawFunctionPatterns_def Let_def
    by (intro draw_all_ok) (simp add: canvas_ok_def blank_canvas_def)
  have ok1: "canvas_ok n cv1" unfolding cv1_def drawVersionInfo_def Let_def using ok0 by (simp add: draw_all_ok)
  have res1: "cv_reserved cv1 = cv_reserved cv0"
  proof -
    have "cv_reserved (draw_all ss cv) = cv_reserved cv" if "\<forall>s \<in> set ss. \<exists>r c x. s = Ink r c x" for ss cv
      using that unfolding draw_all_def by (induction ss arbitrary: cv) auto
    then show ?thesis unfolding cv1_def drawVersionInfo_def Let_def by (auto simp del: upt_rec_numeral)
  qed
  have cv: "cv = place (walk n) cw 0 cv1"
    using ok1 by (simp add: cv_def symbol_canvas_def placeCodewords_def cv1_def cv0_def blank_canvas_def n_def canvas_ok_def square_def Let_def)
  have n: "odd n" "9 \<le> n" by (simp_all add: n_def moduleCount_def)
  note walk = walk_cells [OF n]
  have inside: "\<forall>(r, c) \<in> set (walk n). r < n \<and> c < n" unfolding walk(1) by auto
  have res: "cv_reserved cv1 ! r ! c \<longleftrightarrow> function_module v r c" if "r < n" "c < n" for r c
    using drawn_reserved [OF v] that unfolding res1 cv0_def n_def by simp
  have free: "filter (\<lambda>(r, c). \<not> cv_reserved cv1 ! r ! c) (walk n) = free_cells v"
    unfolding free_cells_def n_def [symmetric] using res inside by (intro filter_cong) auto
  note effect = place_effect [OF ok1 walk(2) inside, of cw 0, unfolded free, folded cv]
  show "canvas_ok n cv" using effect by simp
  show "cv_reserved cv ! r ! c \<longleftrightarrow> function_module v r c" if "r < n" "c < n" using effect res [OF that] by simp
  have room: "length cw * 8 \<le> length (free_cells v)"
    using free_cells(2) [OF v] cw by (simp add: totalCodewords_def)
  show "take (length cw * 8) (map (\<lambda>(r, c). cv_modules cv ! r ! c) (free_cells v)) = concat (map byte_bits cw)"
  proof (rule nth_equalityI)
    show "length (take (length cw * 8) (map (\<lambda>(r, c). cv_modules cv ! r ! c) (free_cells v))) = length (concat (map byte_bits cw))"
      using room by (simp add: length_concat comp_def sum_list_triv)
    fix k assume "k < length (take (length cw * 8) (map (\<lambda>(r, c). cv_modules cv ! r ! c) (free_cells v)))"
    then have k: "k < length cw * 8" "k < length (free_cells v)" by simp_all
    then show "take (length cw * 8) (map (\<lambda>(r, c). cv_modules cv ! r ! c) (free_cells v)) ! k = concat (map byte_bits cw) ! k"
      using effect codeword_bits_nth [OF k(1)] by (simp add: split_beta)
  qed
qed

lemma rendered:
  assumes v: "known_version v" and cw: "length cw = totalCodewords v"
  shows "square (moduleCount v) (render cw v level)"
    and "\<exists>pattern < 8. read_format (render cw v level) = Some (level, pattern) \<and> read_codewords v pattern (render cw v level) = cw"
proof -
  define cv where "cv = symbol_canvas cw v"
  define n where "n = moduleCount v"
  define p where "p = best_mask (\<lambda>p. penalty (applyMask (cv_modules cv) (cv_reserved cv) p level)) [0..<length MASKS]"
  note canvas = canvas_of_symbol [OF assms, folded cv_def n_def]
  have "length MASKS = 8" by (simp add: MASKS_def)
  then have p: "p < 8"
    using best_mask_in [of "\<lambda>p. penalty (applyMask (cv_modules cv) (cv_reserved cv) p level)" "[0..<length MASKS]"]
    unfolding p_def by (auto simp del: upt_rec_numeral)
  have n: "21 \<le> n" using v by (simp add: n_def moduleCount_def known_version_def)
  define m where "m = map (\<lambda>r. map (\<lambda>c. cv_modules cv ! r ! c \<noteq> (\<not> cv_reserved cv ! r ! c \<and> (MASKS ! p) r c)) [0..<length (cv_modules cv ! r)]) [0..<length (cv_modules cv)]"
  have out: "render cw v level = drawFormatInfo level p m"
    by (simp add: render_def Let_def cv_def p_def m_def applyMask_def)
  have dims: "length (cv_modules cv) = n" "\<And>r. r < n \<Longrightarrow> length (cv_modules cv ! r) = n"
    using canvas(1) by (auto simp: canvas_ok_def square_def)
  have m: "square n m" using dims by (auto simp: m_def square_def)
  note format = drawn_format [OF m n, where level = level and pattern = p]
  show "square (moduleCount v) (render cw v level)" using format(1) by (simp add: out n_def)
  have "(level, p) \<in> set FORMATS" using p by (cases level) (auto simp: FORMATS_def simp del: upt_rec_numeral)
  then have "read_format (render cw v level) = Some (level, p)"
    unfolding out by (rule format_found) (rule format(2))
  moreover have "read_codewords v p (render cw v level) = cw"
  proof -
    have "render cw v level ! r ! c \<noteq> (MASKS ! p) r c \<longleftrightarrow> cv_modules cv ! r ! c" if "(r, c) \<in> set (free_cells v)" for r c
    proof -
      have rc: "r < n" "c < n" "\<not> function_module v r c" using free_cells(3) [OF v that] by (auto simp: n_def)
      then have "\<not> (r < 9 \<and> c < 9 \<or> n - 8 \<le> r \<and> c < 9 \<or> r < 9 \<and> n - 8 \<le> c)"
        by (auto simp: function_module_def Let_def n_def)
      then have "render cw v level ! r ! c = m ! r ! c" unfolding out using rc by (intro format(3))
      also have "\<dots> = (cv_modules cv ! r ! c \<noteq> (MASKS ! p) r c)" using rc dims canvas(2) by (simp add: m_def)
      finally show ?thesis by auto
    qed
    then have bits: "map (\<lambda>(r, c). render cw v level ! r ! c \<noteq> (MASKS ! p) r c) (free_cells v) = map (\<lambda>(r, c). cv_modules cv ! r ! c) (free_cells v)"
      by (intro map_cong) auto
    obtain rest where rest: "map (\<lambda>(r, c). cv_modules cv ! r ! c) (free_cells v) = concat (map byte_bits cw) @ rest"
      using canvas(3) by (metis append_take_drop_id)
    show ?thesis unfolding read_codewords_def bits rest to_codewords_bytes using cw by simp
  qed
  ultimately show "\<exists>pattern < 8. read_format (render cw v level) = Some (level, pattern) \<and> read_codewords v pattern (render cw v level) = cw"
    using p by blast
qed

lemma smallest_version:
  assumes "smallestVersion k level = Some v"
  shows "known_version v" and "4 + charCountBits v + k * 8 \<le> dataCodewords v level * 8"
    and "known_version u \<Longrightarrow> u < v \<Longrightarrow> dataCodewords u level * 8 < 4 + charCountBits u + k * 8"
proof -
  obtain i where i: "i < MAX_VERSION" "v = Suc i" "4 + charCountBits v + k * 8 \<le> dataCodewords v level * 8"
    "\<forall>j < i. \<not> 4 + charCountBits (Suc j) + k * 8 \<le> dataCodewords (Suc j) level * 8"
    using assms unfolding smallestVersion_def find_Some_iff by (auto simp del: upt_Suc)
  show "known_version v" using i by (simp add: known_version_def MAX_VERSION_def)
  show "4 + charCountBits v + k * 8 \<le> dataCodewords v level * 8" by (rule i(3))
  show "dataCodewords u level * 8 < 4 + charCountBits u + k * 8" if "known_version u" "u < v"
  proof -
    have "u - 1 < i" "Suc (u - 1) = u" using i(2) that by (auto simp: known_version_def)
    then show ?thesis using i(4) by (metis not_le)
  qed
qed

end
