(* ===== verification/QrProperties.thy ===== *)
theory QrProperties
  imports QrRoundtrip
begin

text \<open>
  What a drawn symbol promises the device that scans it: it decodes to the text, it is the smallest
  symbol for it, its blocks are Reed-Solomon codewords, and its mask is the one of least penalty.
\<close>

section \<open>The choice of version and level\<close>

text \<open>A version holds a text at a level when the header and the bytes fit its data codewords.\<close>

definition version_holds :: "nat \<Rightarrow> ec_level \<Rightarrow> nat \<Rightarrow> bool" where
  "version_holds version level k \<longleftrightarrow> 4 + charCountBits version + k * 8 \<le> dataCodewords version level * 8"

lemma smallest_none: "smallestVersion k level = None \<longleftrightarrow> (\<forall>v. known_version v \<longrightarrow> \<not> version_holds v level k)"
  unfolding smallestVersion_def version_holds_def find_None_iff set_upt
  by (auto simp: known_version_def MAX_VERSION_def simp del: upt_Suc)

definition byte_limit :: "ec_level \<Rightarrow> nat" where
  "byte_limit level = (case level of EcL \<Rightarrow> 2953 | EcM \<Rightarrow> 2331)"

lemma capacities: "known_version v \<Longrightarrow> dataCodewords v level * 8 < 4 + charCountBits v + Suc (byte_limit level) * 8"
proof -
  have "list_all (\<lambda>v. dataCodewords v EcL * 8 < 4 + charCountBits v + Suc (byte_limit EcL) * 8) [1..<41]"
    unfolding version_list by (simp add: dataCodewords_def totalCodewords_def raw_modules EC_PER_BLOCK_def BLOCK_COUNT_def charCountBits_def byte_limit_def)
  moreover have "list_all (\<lambda>v. dataCodewords v EcM * 8 < 4 + charCountBits v + Suc (byte_limit EcM) * 8) [1..<41]"
    unfolding version_list by (simp add: dataCodewords_def totalCodewords_def raw_modules EC_PER_BLOCK_def BLOCK_COUNT_def charCountBits_def byte_limit_def)
  ultimately show "known_version v \<Longrightarrow> ?thesis" unfolding versions list_all_iff by (cases level) auto
qed

lemma largest_data: "dataCodewords 40 level = byte_limit level + 3"
  by (cases level) (simp_all add: dataCodewords_def totalCodewords_def raw_modules EC_PER_BLOCK_def BLOCK_COUNT_def byte_limit_def)

lemma some_version_holds: "(\<exists>v. known_version v \<and> version_holds v level k) \<longleftrightarrow> k \<le> byte_limit level"
proof
  show "k \<le> byte_limit level" if "\<exists>v. known_version v \<and> version_holds v level k"
    using that capacities [of _ level] by (force simp: version_holds_def)
  show "\<exists>v. known_version v \<and> version_holds v level k" if "k \<le> byte_limit level"
    by (rule exI [of _ 40]) (use that largest_data [of level] in \<open>simp add: known_version_def version_holds_def charCountBits_def\<close>)
qed

lemma smallest_some: "smallestVersion k level = None \<longleftrightarrow> byte_limit level < k"
  using some_version_holds [of level k] by (auto simp: smallest_none)

section \<open>The symbol of a text\<close>

lemma symbol_of_text:
  assumes "qrMatrix text = Inr m"
  obtains v level where "known_version v" "level = (if length (utf8 text) \<le> 2331 then EcM else EcL)"
    "length (utf8 text) \<le> byte_limit level" "version_holds v level (length (utf8 text))"
    "\<And>u. known_version u \<Longrightarrow> u < v \<Longrightarrow> \<not> version_holds u level (length (utf8 text))"
    "length (buildDataCodewords (utf8 text) v level) = dataCodewords v level"
    "m = render (interleave (buildDataCodewords (utf8 text) v level) v level) v level"
proof -
  define k where "k = length (utf8 text)"
  define level where "level = (if smallestVersion k EcM = None then EcL else EcM)"
  obtain v where v: "smallestVersion k level = Some v"
    "m = render (interleave (buildDataCodewords (utf8 text) v level) v level) v level"
    using assms by (auto simp: qrMatrix_def Let_def k_def level_def split: option.splits)
  note props = smallest_version [OF v(1)]
  have lim: "k \<le> byte_limit level" using v(1) smallest_some [of k level] by (metis not_le option.distinct(1))
  have "level = (if k \<le> 2331 then EcM else EcL)" by (auto simp: level_def smallest_some byte_limit_def)
  moreover have "\<not> version_holds u level k" if "known_version u" "u < v" for u
    using props(3) [OF that] by (simp add: version_holds_def)
  moreover have "version_holds v level k" using props(2) by (simp add: version_holds_def)
  moreover have "length (buildDataCodewords (utf8 text) v level) = dataCodewords v level"
    using data_codewords [OF _ props(1)] props(2) by (simp add: k_def)
  ultimately show ?thesis using that [OF props(1)] lim v(2) by (simp add: k_def)
qed

definition version_of_symbol :: "matrix \<Rightarrow> nat" where
  "version_of_symbol m = (length m - 17) div 4"

lemma symbol_version: "square (moduleCount v) m \<Longrightarrow> known_version v \<Longrightarrow> version_of_symbol m = v"
  by (simp add: version_of_symbol_def square_def moduleCount_def known_version_def)

lemma symbol_contents:
  assumes "qrMatrix text = Inr m"
  obtains v level pattern where "known_version v" "version_of_symbol m = v" "square (moduleCount v) m" "pattern < 8"
    "read_format m = Some (level, pattern)"
    "read_codewords v pattern m = interleave (buildDataCodewords (utf8 text) v level) v level"
    "length (buildDataCodewords (utf8 text) v level) = dataCodewords v level"
    "read_payload v (buildDataCodewords (utf8 text) v level) = Some (utf8 text)"
    "level = (if length (utf8 text) \<le> 2331 then EcM else EcL)" "length (utf8 text) \<le> byte_limit level"
    "\<And>u. known_version u \<Longrightarrow> u < v \<Longrightarrow> \<not> version_holds u level (length (utf8 text))"
proof -
  obtain v level where v: "known_version v" and level: "level = (if length (utf8 text) \<le> 2331 then EcM else EcL)"
    and lim: "length (utf8 text) \<le> byte_limit level" and fits: "version_holds v level (length (utf8 text))"
    and least: "\<And>u. known_version u \<Longrightarrow> u < v \<Longrightarrow> \<not> version_holds u level (length (utf8 text))"
    and len: "length (buildDataCodewords (utf8 text) v level) = dataCodewords v level"
    and m: "m = render (interleave (buildDataCodewords (utf8 text) v level) v level) v level"
    by (rule symbol_of_text [OF assms], rule that; assumption?)
  note drawn = rendered [OF v interleaved(1) [OF v len], of level, folded m]
  show ?thesis
    using that [OF v symbol_version [OF drawn(1) v] drawn(1)] drawn(2) len level lim least
      data_codewords [OF fits [unfolded version_holds_def] v] by blast
qed

text \<open>C28: what is drawn can be read. A reader that finds the level and the mask in the format strip, takes the mask off, walks
  the data modules, puts the blocks back in order and decodes the bytes gets the text that was encoded.\<close>

theorem symbol_reads_back:
  assumes "qrMatrix text = Inr m"
  shows "read_symbol m = Some text"
proof -
  obtain v level pattern where c: "known_version v" "version_of_symbol m = v" "read_format m = Some (level, pattern)"
    "read_codewords v pattern m = interleave (buildDataCodewords (utf8 text) v level) v level"
    "length (buildDataCodewords (utf8 text) v level) = dataCodewords v level"
    "read_payload v (buildDataCodewords (utf8 text) v level) = Some (utf8 text)"
    by (rule symbol_contents [OF assms], rule that; assumption?)
  show ?thesis
    using c(2-4,6) interleaved(2) [OF c(1) c(5)] by (simp add: read_symbol_def version_of_symbol_def utf8_back)
qed

lemma small_text_drawn: "length (utf8 text) \<le> 2331 \<Longrightarrow> \<exists>m. qrMatrix text = Inr m"
  using smallest_some [of "length (utf8 text)" EcM] by (auto simp: qrMatrix_def Let_def byte_limit_def)

theorem symbol_reads_back_witness: "\<exists>m. qrMatrix ''https://polymux.app'' = Inr m \<and> read_symbol m = Some ''https://polymux.app''"
proof -
  obtain m where "qrMatrix ''https://polymux.app'' = Inr m"
    using small_text_drawn [of "''https://polymux.app''"] by (auto simp: utf8_def utf8_char_def Let_def)
  then show ?thesis using symbol_reads_back by blast
qed


text \<open>C37: every block of a drawn symbol, read back, is a Reed-Solomon codeword: as a polynomial over the field of the tables it
  vanishes at each power of the generator that the level provides for, so all its syndromes are zero.\<close>

theorem blocks_are_codewords:
  assumes "qrMatrix text = Inr m" and "read_format m = Some (level, pattern)"
  defines "v \<equiv> version_of_symbol m"
  assumes "j < BLOCK_COUNT level ! (v - 1)" and "i < EC_PER_BLOCK level ! (v - 1)"
  shows "poly_at (GF_EXP ! i) (data_of_block v level (read_codewords v pattern m) j @
    ec_of_block v level (read_codewords v pattern m) j) = 0"
proof -
  obtain w l p where c: "known_version w" "version_of_symbol m = w" "read_format m = Some (l, p)"
    "read_codewords w p m = interleave (buildDataCodewords (utf8 text) w l) w l"
    "length (buildDataCodewords (utf8 text) w l) = dataCodewords w l"
    by (rule symbol_contents [OF assms(1)], rule that; assumption?)
  have "w = v" "l = level" "p = pattern" using c(2,3) assms(2) by (simp_all add: v_def)
  with c interleaved(3) [OF c(1) c(5)] assms(4) ec_block_vanishes [OF assms(5)] show ?thesis by simp
qed

theorem blocks_are_codewords_witness: "\<exists>m level pattern. qrMatrix ''polymux'' = Inr m \<and> read_format m = Some (level, pattern) \<and>
  poly_at (GF_EXP ! 0) (data_of_block 1 level (read_codewords 1 pattern m) 0 @
    ec_of_block 1 level (read_codewords 1 pattern m) 0) = 0"
proof -
  have k: "length (utf8 ''polymux'') = 7" by (simp add: utf8_def utf8_char_def Let_def)
  obtain m where m: "qrMatrix ''polymux'' = Inr m" using small_text_drawn [of "''polymux''"] k by auto
  obtain v level pattern where c: "known_version v" "version_of_symbol m = v" "read_format m = Some (level, pattern)"
    "level = (if length (utf8 ''polymux'') \<le> 2331 then EcM else EcL)"
    "\<And>u. known_version u \<Longrightarrow> u < v \<Longrightarrow> \<not> version_holds u level (length (utf8 ''polymux''))"
    by (rule symbol_contents [OF m], rule that; assumption?)
  have holds: "version_holds 1 EcM 7"
    by (simp add: version_holds_def dataCodewords_def totalCodewords_def raw_modules EC_PER_BLOCK_def BLOCK_COUNT_def charCountBits_def)
  have level: "level = EcM" using c(4) k by simp
  have "v = 1" using c(1) c(5) [of 1] holds k level by (cases "v = 1") (auto simp: known_version_def)
  then show ?thesis using m c(3) blocks_are_codewords [OF m c(3), of 0 0] c(2) level
    by (auto simp: BLOCK_COUNT_def EC_PER_BLOCK_def)
qed

text \<open>C15: the zigzag of a version visits every module outside column 6 once, and the modules it finds unreserved are exactly as
  many as the version's formula says, so every codeword has its eight modules and fewer than eight modules are left over.\<close>

theorem data_modules_counted:
  assumes "known_version v"
  defines "sz \<equiv> moduleCount v"
  defines "free \<equiv> filter (\<lambda>(r, c). \<not> cv_reserved (drawFunctionPatterns v (blank_canvas sz)) ! r ! c) (walk sz)"
  shows "distinct (walk sz) \<and> set (walk sz) = {(r, c). r < sz \<and> c < sz \<and> c \<noteq> 6} \<and>
    length free = rawDataModules v \<and> length free div 8 = totalCodewords v"
proof -
  have n: "odd sz" "9 \<le> sz" by (simp_all add: sz_def moduleCount_def)
  note walk = walk_cells [OF n]
  have "free = free_cells v"
    unfolding free_def free_cells_def sz_def [symmetric]
    using drawn_reserved [OF assms(1)] walk(1) by (intro filter_cong) (auto simp: sz_def)
  then show ?thesis using walk free_cells(2) [OF assms(1)] by (auto simp: totalCodewords_def)
qed

theorem data_modules_counted_witness: "length (filter (\<lambda>(r, c). \<not> cv_reserved (drawFunctionPatterns 2 (blank_canvas 25)) ! r ! c) (walk 25)) = 359"
  using data_modules_counted [of 2] by (simp add: known_version_def moduleCount_def raw_modules Let_def)

lemma best_mask_least:
  assumes "ms \<noteq> []"
  shows "\<exists>before after. ms = before @ best_mask score ms # after \<and>
    (\<forall>q \<in> set before. score (best_mask score ms) < score q) \<and> (\<forall>q \<in> set after. score (best_mask score ms) \<le> score q)"
proof -
  define step where "step = (\<lambda>p (best, least). case least of Some s \<Rightarrow> if score p < s then (p, Some (score p)) else (best, least)
      | None \<Rightarrow> (p, Some (score p)))"
  have "\<exists>before after best. fold step ms (0, None) = (best, Some (score best)) \<and> ms = before @ best # after \<and>
      (\<forall>q \<in> set before. score best < score q) \<and> (\<forall>q \<in> set after. score best \<le> score q)"
    using assms
  proof (induction ms rule: rev_induct)
    case (snoc p ms)
    show ?case
    proof (cases "ms = []")
      case True
      then show ?thesis by (intro exI [of _ "[]"] exI [of _ p]) (simp add: step_def)
    next
      case False
      then obtain before after best where b: "fold step ms (0, None) = (best, Some (score best))" "ms = before @ best # after"
        "\<forall>q \<in> set before. score best < score q" "\<forall>q \<in> set after. score best \<le> score q" using snoc.IH by blast
      show ?thesis
      proof (cases "score p < score best")
        case True
        then have "fold step (ms @ [p]) (0, None) = (p, Some (score p))" by (simp add: b(1)) (simp add: step_def)
        moreover have "\<forall>q \<in> set ms. score p < score q" using b(2-4) True by auto
        ultimately show ?thesis by (intro exI [of _ ms] exI [of _ "[]"] exI [of _ p]) simp
      next
        case False
        then have "fold step (ms @ [p]) (0, None) = (best, Some (score best))" by (simp add: b(1)) (simp add: step_def)
        with b False show ?thesis
          by (intro exI [of _ before] exI [of _ "after @ [p]"] exI [of _ best]) auto
      qed
    qed
  qed simp
  moreover have "best_mask score ms = fst (fold step ms (0, None))" by (simp add: best_mask_def step_def)
  ultimately show ?thesis by fastforce
qed

text \<open>Of the eight masks the one drawn has the least penalty, and it is the first of those.\<close>

theorem mask_of_least_penalty:
  "\<exists>before pattern after. [0..<8] = before @ pattern # after \<and>
     (let cv = symbol_canvas codewords v; score = (\<lambda>q. penalty (applyMask (cv_modules cv) (cv_reserved cv) q level)) in
      render codewords v level = applyMask (cv_modules cv) (cv_reserved cv) pattern level \<and>
      list_all (\<lambda>q. score pattern < score q) before \<and> list_all (\<lambda>q. score pattern \<le> score q) after)"
proof -
  define cv where "cv = symbol_canvas codewords v"
  define score where "score = (\<lambda>q. penalty (applyMask (cv_modules cv) (cv_reserved cv) q level))"
  have len: "length MASKS = 8" by (simp add: MASKS_def)
  obtain before after where b: "[0..<8] = before @ best_mask score [0..<8] # after"
    "\<forall>q \<in> set before. score (best_mask score [0..<8]) < score q" "\<forall>q \<in> set after. score (best_mask score [0..<8]) \<le> score q"
    using best_mask_least [of "[0..<8]" score] by (auto simp del: upt_rec_numeral)
  define pattern where "pattern = best_mask score [0..<8]"
  have "render codewords v level = applyMask (cv_modules cv) (cv_reserved cv) pattern level"
    unfolding render_def Let_def len cv_def score_def pattern_def ..
  with b [folded pattern_def, unfolded score_def] show ?thesis
    unfolding Let_def cv_def [symmetric] list_all_iff by blast
qed

section \<open>The path of a symbol\<close>

lemma enumerate_all: "list_all id bs \<Longrightarrow> map fst (filter snd (enumerate c bs)) = [c..<c + length bs]"
proof (induction bs arbitrary: c)
  case (Cons b bs)
  then show ?case using upt_conv_Cons [of c "c + length (b # bs)"] by simp
qed simp

lemma row_runs: "\<exists>runs. svg_row r c bs = map (\<lambda>(start, k). svg_part start r k) runs \<and>
  concat (map (\<lambda>(start, k). [start..<start + k]) runs) = map fst (filter snd (enumerate c bs)) \<and> (\<forall>(start, k) \<in> set runs. 0 < k)"
proof (induction r c bs rule: svg_row.induct)
  case (1 r c)
  then show ?case by (intro exI [of _ "[]"]) simp
next
  case (2 r c bs)
  then show ?case by simp
next
  case (3 r c bs)
  define run where "run = 1 + length (takeWhile id bs)"
  obtain runs where runs: "svg_row r (c + run) (drop (run - 1) bs) = map (\<lambda>(start, k). svg_part start r k) runs"
    "concat (map (\<lambda>(start, k). [start..<start + k]) runs) = map fst (filter snd (enumerate (c + run) (drop (run - 1) bs)))"
    "\<forall>(start, k) \<in> set runs. 0 < k"
    using 3 [OF run_def] by blast
  have split: "True # bs = (True # takeWhile id bs) @ drop (run - 1) bs"
    by (simp add: run_def dropWhile_eq_drop [symmetric])
  have "list_all id (True # takeWhile id bs)" by (auto simp: list_all_iff dest: set_takeWhileD)
  then have "map fst (filter snd (enumerate c (True # bs))) = [c..<c + run] @ map fst (filter snd (enumerate (c + run) (drop (run - 1) bs)))"
    unfolding split enumerate_append_eq filter_append map_append using enumerate_all [of "True # takeWhile id bs" c]
    by (simp add: run_def)
  with runs show ?case by (intro exI [of _ "(c, run) # runs"]) (simp add: run_def Let_def)
qed

text \<open>The path drawn for a symbol covers its dark modules and nothing else: row by row, its parts are runs of at least one
  module whose columns, joined, are the columns of the dark modules of that row, each once and in order.\<close>

theorem svg_covers_symbol:
  assumes "qrSvgPath text = Inr (sz, path)"
  shows "\<exists>m runs. qrMatrix text = Inr m \<and> sz = length m \<and> length runs = length m \<and>
    path = concat (concat (map (\<lambda>r. map (\<lambda>(start, k). svg_part start r k) (runs ! r)) [0..<length m])) \<and>
    list_all (\<lambda>r. concat (map (\<lambda>(start, k). [start..<start + k]) (runs ! r)) = map fst (filter snd (enumerate 0 (m ! r))) \<and>
      list_all (\<lambda>(start, k). 0 < k) (runs ! r)) [0..<length m]"
proof -
  obtain m where m: "qrMatrix text = Inr m" "sz = length m"
    "path = concat (concat (map (\<lambda>r. svg_row r 0 (m ! r)) [0..<length m]))"
    using assms by (auto simp: qrSvgPath_def bind_result_def split: sum.splits)
  have "\<forall>r. \<exists>runs. svg_row r 0 (m ! r) = map (\<lambda>(start, k). svg_part start r k) runs \<and>
    concat (map (\<lambda>(start, k). [start..<start + k]) runs) = map fst (filter snd (enumerate 0 (m ! r))) \<and> (\<forall>(start, k) \<in> set runs. 0 < k)"
    using row_runs by blast
  then obtain runs_of where "\<forall>r. svg_row r 0 (m ! r) = map (\<lambda>(start, k). svg_part start r k) (runs_of r) \<and>
    concat (map (\<lambda>(start, k). [start..<start + k]) (runs_of r)) = map fst (filter snd (enumerate 0 (m ! r))) \<and>
    (\<forall>(start, k) \<in> set (runs_of r). 0 < k)"
    by (elim choice [THEN exE])
  note all_runs = spec [OF this]
  have runs: "svg_row r 0 (m ! r) = map (\<lambda>(start, k). svg_part start r k) (runs_of r)"
    "concat (map (\<lambda>(start, k). [start..<start + k]) (runs_of r)) = map fst (filter snd (enumerate 0 (m ! r)))"
    "list_all (\<lambda>(start, k). 0 < k) (runs_of r)" for r
    using all_runs [of r] unfolding list_all_iff by simp_all
  define all where "all = map runs_of [0..<length m]"
  have at: "all ! r = runs_of r" if "r \<in> set [0..<length m]" for r using that by (simp add: all_def)
  have "map (\<lambda>r. svg_row r 0 (m ! r)) [0..<length m] = map (\<lambda>r. map (\<lambda>(start, k). svg_part start r k) (all ! r)) [0..<length m]"
    using runs(1) at by (intro map_cong) simp_all
  then have "path = concat (concat (map (\<lambda>r. map (\<lambda>(start, k). svg_part start r k) (all ! r)) [0..<length m]))"
    unfolding m(3) by (simp only:)
  moreover have "list_all (\<lambda>r. concat (map (\<lambda>(start, k). [start..<start + k]) (all ! r)) = map fst (filter snd (enumerate 0 (m ! r))) \<and>
      list_all (\<lambda>(start, k). 0 < k) (all ! r)) [0..<length m]"
    unfolding list_all_iff [of _ "[0..<length m]"] using runs(2,3) at by simp
  moreover have "length all = length m" by (simp add: all_def)
  ultimately show ?thesis using m(1,2) by (intro exI [of _ m] exI [of _ all]) (rule conjI, assumption)+
qed

theorem svg_covers_symbol_witness: "\<exists>sz runs path. qrSvgPath ''polymux'' = Inr (sz, path) \<and> length runs = sz \<and>
  path = concat (concat (map (\<lambda>r. map (\<lambda>(start, k). svg_part start r k) (runs ! r)) [0..<sz]))"
proof -
  obtain m where m: "qrMatrix ''polymux'' = Inr m"
    using small_text_drawn [of "''polymux''"] by (auto simp: utf8_def utf8_char_def Let_def)
  then obtain path where path: "qrSvgPath ''polymux'' = Inr (length m, path)" by (simp add: qrSvgPath_def bind_result_def)
  obtain runs where runs: "length runs = length m"
    "path = concat (concat (map (\<lambda>r. map (\<lambda>(start, k). svg_part start r k) (runs ! r)) [0..<length m]))"
    using svg_covers_symbol [OF path] unfolding m sum.inject(2) by blast
  show ?thesis by (rule exI [of _ "length m"], rule exI [of _ runs], rule exI [of _ path]) (intro conjI path runs)
qed

end
