(* ===== verification/RelayWire.thy ===== *)
theory RelayWire
  imports Pairing
begin

text \<open>
  What the relay of \<^verbatim>\<open>apps/connect/relay/src/index.ts\<close> and the host side of it,
  \<^verbatim>\<open>apps/desktop/src/main/team/host-relay.ts\<close>, share: bodies as strings of bytes and their base64 form, headers,
  addresses, and the bounds on both.  A message on the socket is the value its text parses to.
\<close>

section \<open>Base64\<close>

definition B64_ALPHABET :: string where
  "B64_ALPHABET = ''ABCDEFGHIJKLMNOPQRSTUVWXYZabcdefghijklmnopqrstuvwxyz0123456789+/''"

definition b64_char :: "nat \<Rightarrow> char" where "b64_char n = B64_ALPHABET ! (n mod 64)"

definition char_code :: "char \<Rightarrow> nat" where "char_code c = of_char c"

definition byte_char :: "nat \<Rightarrow> char" where "byte_char n = char_of n"

text \<open>\<open>btoa\<close> of a string of bytes.\<close>

fun btoa :: "string \<Rightarrow> string" where
  "btoa (a # b # c # s) =
     [b64_char (char_code a div 4), b64_char (char_code a mod 4 * 16 + char_code b div 16), b64_char (char_code b mod 16 * 4 + char_code c div 64), b64_char (char_code c mod 64)] @ btoa s"
| "btoa [a, b] = [b64_char (char_code a div 4), b64_char (char_code a mod 4 * 16 + char_code b div 16), b64_char (char_code b mod 16 * 4), CHR ''='']"
| "btoa [a] = [b64_char (char_code a div 4), b64_char (char_code a mod 4 * 16), CHR ''='', CHR ''='']"
| "btoa [] = []"

text \<open>\<open>atob\<close>: ASCII white space is dropped, padding is optional, leftover bits are dropped, \<open>None\<close> is an error.\<close>

definition b64_value :: "char \<Rightarrow> nat option" where
  "b64_value c =
     (let n = char_code c in
      if 65 \<le> n \<and> n \<le> 90 then Some (n - 65) else if 97 \<le> n \<and> n \<le> 122 then Some (n - 71)
      else if 48 \<le> n \<and> n \<le> 57 then Some (n + 4) else if n = 43 then Some 62 else if n = 47 then Some 63 else None)"

fun b64_bytes :: "nat list \<Rightarrow> string" where
  "b64_bytes (a # b # c # d # s) =
     [byte_char (a * 4 + b div 16), byte_char (b mod 16 * 16 + c div 4), byte_char (c mod 4 * 64 + d)] @ b64_bytes s"
| "b64_bytes [a, b, c] = [byte_char (a * 4 + b div 16), byte_char (b mod 16 * 16 + c div 4)]"
| "b64_bytes [a, b] = [byte_char (a * 4 + b div 16)]"
| "b64_bytes s = []"

fun b64_values :: "string \<Rightarrow> nat list option" where
  "b64_values [] = Some []"
| "b64_values (c # s) = (case b64_value c of None \<Rightarrow> None | Some n \<Rightarrow> map_option ((#) n) (b64_values s))"

definition strip_padding :: "string \<Rightarrow> string" where
  "strip_padding s =
     (if length s mod 4 \<noteq> 0 then s
      else if drop (length s - 2) s = ''=='' then take (length s - 2) s
      else if drop (length s - 1) s = ''='' then take (length s - 1) s else s)"

definition ascii_space :: "char \<Rightarrow> bool" where
  "ascii_space c \<longleftrightarrow> char_code c \<in> {9, 10, 12, 13, 32}"

definition atob :: "string \<Rightarrow> string option" where
  "atob v =
     (let s = strip_padding (filter (\<lambda>c. \<not> ascii_space c) v) in
      if length s mod 4 = 1 then None else map_option b64_bytes (b64_values s))"

text \<open>\<open>bytesToBase64\<close> turns the bytes into a string by chunks.\<close>

function binary_string :: "string \<Rightarrow> string" where
  "binary_string bytes = (if bytes = [] then [] else take 32768 bytes @ binary_string (drop 32768 bytes))"
  by auto
termination by (relation "measure length") auto

declare binary_string.simps [simp del]

definition bytesToBase64 :: "string \<Rightarrow> string" where "bytesToBase64 bytes = btoa (binary_string bytes)"

definition base64ToBytes :: "string \<Rightarrow> string option" where "base64ToBytes v = atob v"

definition maximumBase64Length :: "nat \<Rightarrow> nat" where "maximumBase64Length n = (n + 2) div 3 * 4"

subsection \<open>Base64 reads back\<close>

lemma binary_string [simp]: "binary_string s = s"
  by (induction s rule: binary_string.induct) (subst binary_string.simps, simp)

lemma sixtyfour: "[0..<64] = [0, 1, 2, 3, 4, 5, 6, 7, 8, 9, 10, 11, 12, 13, 14, 15, 16, 17, 18, 19, 20, 21, 22, 23, 24, 25, 26, 27, 28, 29, 30, 31, 32, 33, 34, 35, 36, 37, 38, 39, 40, 41, 42, 43, 44, 45, 46, 47, 48, 49, 50, 51, 52, 53, 54, 55, 56, 57, 58, 59, 60, 61, 62, 63]"
  by code_simp

lemma alphabet_values:
  "map b64_value B64_ALPHABET = map Some [0..<64]" "list_all (\<lambda>c. \<not> ascii_space c \<and> c \<noteq> CHR ''='') B64_ALPHABET" "length B64_ALPHABET = 64"
  unfolding sixtyfour by (simp_all add: B64_ALPHABET_def b64_value_def ascii_space_def char_code_def)

lemma b64_char_value:
  assumes "n < 64"
  shows "b64_value (b64_char n) = Some n" "\<not> ascii_space (b64_char n)" "b64_char n \<noteq> CHR ''=''"
proof -
  have "map b64_value B64_ALPHABET ! n = map Some [0..<64] ! n" unfolding alphabet_values(1) ..
  then show "b64_value (b64_char n) = Some n" using assms by (simp add: b64_char_def alphabet_values(3) del: upt_rec_numeral)
  have "b64_char n \<in> set B64_ALPHABET" using assms by (simp add: b64_char_def alphabet_values(3))
  then show "\<not> ascii_space (b64_char n)" "b64_char n \<noteq> CHR ''=''" using alphabet_values(2) by (auto simp: list_all_iff)
qed

lemma char_code_less: "char_code c < 256" by (simp add: char_code_def)

lemma byte_char_of [simp]: "byte_char (char_code c) = c" by (simp add: byte_char_def char_code_def)

lemma btoa_length: "length (btoa s) = maximumBase64Length (length s)"
proof -
  have "(5 + n) div 3 = Suc (Suc (Suc n) div 3)" for n :: nat by arith
  then show ?thesis by (induction s rule: btoa.induct) (simp_all add: maximumBase64Length_def)
qed

lemma btoa_groups: "4 dvd length (btoa s)"
  by (simp add: btoa_length maximumBase64Length_def)

lemma btoa_chars: "c \<in> set (btoa s) \<Longrightarrow> \<not> ascii_space c"
proof -
  have e: "\<not> ascii_space CHR ''=''" by (simp add: ascii_space_def char_code_def)
  have a: "\<not> ascii_space (b64_char n)" for n using b64_char_value(2) [of "n mod 64"] by (simp add: b64_char_def)
  show "c \<in> set (btoa s) \<Longrightarrow> \<not> ascii_space c"
    by (induction s rule: btoa.induct) (auto simp: e a)
qed

text \<open>The unpadded characters of \<open>btoa\<close>.\<close>

fun b64_plain :: "string \<Rightarrow> nat list" where
  "b64_plain (a # b # c # s) =
     [char_code a div 4, char_code a mod 4 * 16 + char_code b div 16, char_code b mod 16 * 4 + char_code c div 64, char_code c mod 64] @ b64_plain s"
| "b64_plain [a, b] = [char_code a div 4, char_code a mod 4 * 16 + char_code b div 16, char_code b mod 16 * 4]"
| "b64_plain [a] = [char_code a div 4, char_code a mod 4 * 16]"
| "b64_plain [] = []"

lemma plain_small: "n \<in> set (b64_plain s) \<Longrightarrow> n < 64"
proof (induction s rule: b64_plain.induct)
  case (1 a b c s)
  then show ?case using char_code_less [of a] char_code_less [of b] char_code_less [of c] by auto
next
  case (2 a b)
  then show ?case using char_code_less [of a] char_code_less [of b] by auto
next
  case (3 a)
  then show ?case using char_code_less [of a] by auto
qed simp

lemma plain_length: "length (b64_plain s) mod 4 \<noteq> 1"
  by (induction s rule: b64_plain.induct) simp_all

lemma pack: "x < m \<Longrightarrow> (k * m + x) div m = k \<and> (k * m + x) mod m = (x :: nat)"
  by simp

lemma repack:
  "byte_char (char_code a div 4 * 4 + (char_code a mod 4 * 16 + char_code b div 16) div 16) = a"
  "byte_char ((char_code a mod 4 * 16 + char_code b div 16) mod 16 * 16 + (char_code b mod 16 * 4 + char_code c div 64) div 4) = b"
  "byte_char ((char_code a mod 4 * 16 + char_code b div 16) mod 16 * 16 + char_code b mod 16 * 4 div 4) = b"
  "byte_char ((char_code b mod 16 * 4 + char_code c div 64) mod 4 * 64 + char_code c mod 64) = c"
proof -
  have q: "char_code b div 16 < 16" "char_code c div 64 < 4" using char_code_less [of b] char_code_less [of c] by (simp_all add: less_mult_imp_div_less)
  note p = pack [OF q(1), of "char_code a mod 4"] pack [OF q(2), of "char_code b mod 16"]
  show "byte_char (char_code a div 4 * 4 + (char_code a mod 4 * 16 + char_code b div 16) div 16) = a"
    "byte_char ((char_code a mod 4 * 16 + char_code b div 16) mod 16 * 16 + (char_code b mod 16 * 4 + char_code c div 64) div 4) = b"
    "byte_char ((char_code a mod 4 * 16 + char_code b div 16) mod 16 * 16 + char_code b mod 16 * 4 div 4) = b"
    "byte_char ((char_code b mod 16 * 4 + char_code c div 64) mod 4 * 64 + char_code c mod 64) = c"
    unfolding p [THEN conjunct1] p [THEN conjunct2] by simp_all
qed

lemma plain_bytes: "b64_bytes (b64_plain s) = s"
proof (induction s rule: b64_plain.induct)
  case (1 a b c s)
  then show ?case unfolding b64_plain.simps by (simp only: append.simps b64_bytes.simps repack)
next
  case (2 a b)
  show ?case unfolding b64_plain.simps by (simp only: b64_bytes.simps repack)
next
  case (3 a)
  show ?case by simp
qed simp

lemma btoa_split: "btoa s = map b64_char (b64_plain s) @ replicate (if length s mod 3 = 0 then 0 else 3 - length s mod 3) CHR ''=''"
  by (induction s rule: btoa.induct) (simp_all add: numeral_2_eq_2)

lemma btoa_plain: "strip_padding (btoa s) = map b64_char (b64_plain s)"
proof -
  define pad where "pad = (if length s mod 3 = 0 then 0 else 3 - length s mod 3)"
  have split: "btoa s = map b64_char (b64_plain s) @ replicate pad CHR ''=''"
    unfolding pad_def by (rule btoa_split)
  have last: "x \<noteq> CHR ''=''" if "x \<in> set (map b64_char (b64_plain s))" for x
    using that plain_small b64_char_value(3) by auto
  have pads: "pad = 0 \<or> pad = 1 \<or> pad = 2" by (auto simp: pad_def) 
  have len: "length (btoa s) mod 4 = 0" using btoa_groups [of s] by simp
  show ?thesis
  proof (cases "pad = 0")
    case True
    define p where "p = map b64_char (b64_plain s)"
    have "drop (length p - 1) p \<noteq> ''=''" "drop (length p - 2) p \<noteq> ''==''"
      using last [folded p_def] by (metis in_set_dropD list.set_intros(1))+
    then show ?thesis using split True len by (simp add: strip_padding_def flip: p_def)
  next
    case False
    then consider "pad = 1" | "pad = 2" using pads by blast
    then show ?thesis
    proof cases
      case 1
      define p where "p = map b64_char (b64_plain s)"
      have b: "btoa s = p @ ''=''" using split 1 by (simp add: p_def)
      have "drop (length (btoa s) - 2) (btoa s) \<noteq> ''==''"
      proof
        assume "drop (length (btoa s) - 2) (btoa s) = ''==''"
        then have "drop (length p - 1) p @ ''='' = ''==''" by (cases p rule: rev_cases) (auto simp: b)
        then have "drop (length p - 1) p = ''=''" by simp
        then show False using last [folded p_def] by (metis in_set_dropD list.set_intros(1))
      qed
      then show ?thesis using len by (simp add: strip_padding_def b flip: p_def)
    next
      case 2
      then show ?thesis using split len by (simp add: strip_padding_def numeral_2_eq_2)
    qed
  qed
qed

lemma b64_values_chars: "list_all (\<lambda>n. n < 64) ns \<Longrightarrow> b64_values (map b64_char ns) = Some ns"
  by (induction ns) (simp_all add: b64_char_value)

lemma atob_btoa [simp]: "atob (btoa s) = Some s"
proof -
  have "filter (\<lambda>c. \<not> ascii_space c) (btoa s) = btoa s" using btoa_chars by (simp add: filter_id_conv)
  moreover have "length (b64_plain s) mod 4 \<noteq> 1" by (rule plain_length)
  ultimately show ?thesis
    using plain_small by (simp add: atob_def btoa_plain b64_values_chars plain_bytes list_all_iff)
qed

lemma base64_roundtrip [simp]: "base64ToBytes (bytesToBase64 s) = Some s" "length (bytesToBase64 s) = maximumBase64Length (length s)"
  by (simp_all add: base64ToBytes_def bytesToBase64_def btoa_length)

lemma maximum_mono: "m \<le> n \<Longrightarrow> maximumBase64Length m \<le> maximumBase64Length n"
  by (simp add: maximumBase64Length_def div_le_mono)

text \<open>What a text within the bound can decode to.\<close>

lemma b64_bytes_length: "length (b64_bytes ns) \<le> length ns * 3 div 4"
  by (induction ns rule: b64_bytes.induct) simp_all

lemma b64_values_length: "b64_values s = Some ns \<Longrightarrow> length ns = length s"
  by (induction s arbitrary: ns) (auto split: option.splits)

lemma strip_padding_length: "length (strip_padding s) \<le> length s"
  by (simp add: strip_padding_def)

lemma atob_length:
  assumes "atob v = Some s"
  shows "length s \<le> length v * 3 div 4"
proof -
  obtain ns where ns: "b64_values (strip_padding (filter (\<lambda>c. \<not> ascii_space c) v)) = Some ns" "s = b64_bytes ns"
    using assms by (auto simp: atob_def Let_def split: if_splits)
  have "length ns \<le> length v"
    using b64_values_length [OF ns(1)] strip_padding_length [of "filter (\<lambda>c. \<not> ascii_space c) v"] length_filter_le [of "\<lambda>c. \<not> ascii_space c" v]
    by linarith
  then show ?thesis using b64_bytes_length [of ns] ns(2) by (meson div_le_mono le_trans mult_le_mono1)
qed

section \<open>Headers\<close>

text \<open>\<open>Headers\<close>, by lower-case names.  A value loses the white space around it and may not hold a line end or a zero.\<close>

type_synonym headers = "(string \<times> string) list"

definition http_space :: "char \<Rightarrow> bool" where
  "http_space c \<longleftrightarrow> char_code c \<in> {9, 10, 13, 32}"

definition http_value :: "string \<Rightarrow> string option" where
  "http_value v =
     (let t = rev (dropWhile http_space (rev (dropWhile http_space v))) in
      if list_ex (\<lambda>c. char_code c \<in> {0, 10, 13}) t then None else Some t)"

definition copyHeader :: "headers \<Rightarrow> string \<Rightarrow> headers \<Rightarrow> headers" where
  "copyHeader source name target = (case map_of source name of
     Some v \<Rightarrow> if v = [] then target else map_set name v target | None \<Rightarrow> target)"

definition REQUEST_HEADERS :: "string list" where
  "REQUEST_HEADERS = [''authorization'', ''content-type'', ''origin'']"

definition forwardedRequestHeaders :: "headers \<Rightarrow> headers" where
  "forwardedRequestHeaders source = fold (copyHeader source) REQUEST_HEADERS []"

definition RESPONSE_HEADERS :: "string list" where
  "RESPONSE_HEADERS = [''access-control-allow-headers'', ''access-control-allow-methods'', ''access-control-allow-origin'',
     ''cache-control'', ''content-type'', ''retry-after'', ''vary'', ''x-content-type-options'']"

text \<open>Setting a header to a value of an object of strings, if it has one.\<close>

definition set_if_value :: "headers \<Rightarrow> string \<Rightarrow> headers option \<Rightarrow> headers option" where
  "set_if_value source name acc = Option.bind acc (\<lambda>hs. case map_of source name of
     Some v \<Rightarrow> if v = [] then Some hs else map_option (\<lambda>t. map_set name t hs) (http_value v)
   | None \<Rightarrow> Some hs)"

text \<open>The headers of a host's answer; \<open>None\<close> is the error of a value that is no header value.\<close>

definition forwardedResponseHeaders :: "(string \<times> string) list \<Rightarrow> headers option" where
  "forwardedResponseHeaders source =
     map_option (\<lambda>hs. map_set ''x-content-type-options'' ''nosniff'' (map_set ''cache-control'' ''no-store'' hs))
       (fold (set_if_value source) RESPONSE_HEADERS (Some []))"

section \<open>Requests and responses\<close>

text \<open>A request as the worker receives it: its address taken apart and its body, if any, in the chunks of the stream.\<close>

record http_request =
  hq_method :: string
  hq_pathname :: string
  hq_search :: string
  hq_origin :: string
  hq_headers :: headers
  hq_body :: "string list option"

datatype content = NoContent | JsonContent json | BytesContent string | SocketContent

record http_response =
  hs_status :: nat
  hs_headers :: headers
  hs_body :: content

text \<open>\<open>Response.json\<close>, and its use for errors.\<close>

definition json_response :: "nat \<Rightarrow> headers \<Rightarrow> json \<Rightarrow> http_response" where
  "json_response status hs v = \<lparr>hs_status = status, hs_headers = map_set ''content-type'' ''application/json'' hs, hs_body = JsonContent v\<rparr>"

definition error_response :: "nat \<Rightarrow> string \<Rightarrow> headers \<Rightarrow> http_response" where
  "error_response status message hs = json_response status hs (JObj [(''error'', JStr message)])"

definition notFound :: http_response where "notFound = error_response 404 ''Not found.'' []"

text \<open>\<open>new Response\<close> of bytes throws outside 200 to 599, and for a status that allows no body when there is one.\<close>

definition bytes_response :: "nat \<Rightarrow> headers \<Rightarrow> string \<Rightarrow> http_response option" where
  "bytes_response status hs bytes =
     (if status < 200 \<or> 599 < status \<or> status \<in> {204, 205, 304} \<and> bytes \<noteq> [] then None
      else Some \<lparr>hs_status = status, hs_headers = hs, hs_body = BytesContent bytes\<rparr>)"

definition MAX_BODY_BYTES :: nat where "MAX_BODY_BYTES = 20 * 1024 * 1024"
definition MAX_CONNECT_BODY_BYTES :: nat where "MAX_CONNECT_BODY_BYTES = 4 * 1024"

text \<open>
  The declared length; the server in front of the worker admits no other spelling than digits, and what
  is no number does not count as too large.
\<close>

definition requestBodyTooLarge :: "http_request \<Rightarrow> nat \<Rightarrow> bool" where
  "requestBodyTooLarge rq maximum = (case map_of (hq_headers rq) ''content-length'' of
     None \<Rightarrow> False | Some v \<Rightarrow> all_digits v \<and> maximum < read_nat v)"

fun read_chunks :: "nat \<Rightarrow> nat \<Rightarrow> string list \<Rightarrow> string list option" where
  "read_chunks maximum sofar [] = Some []"
| "read_chunks maximum sofar (c # cs) =
     (if maximum < sofar + length c then None else map_option ((#) c) (read_chunks maximum (sofar + length c) cs))"

definition readBoundedBody :: "http_request \<Rightarrow> nat \<Rightarrow> (nat \<times> string, string) result" where
  "readBoundedBody rq maximum = (case hq_body rq of
     None \<Rightarrow> Inr []
   | Some chunks \<Rightarrow> (case read_chunks maximum 0 chunks of
       None \<Rightarrow> Inl (413, ''Host request is too large.'') | Some cs \<Rightarrow> Inr (concat cs)))"

definition MOBILE_ORIGINS :: "string list" where
  "MOBILE_ORIGINS = [''tauri://localhost'', ''http://tauri.localhost'', ''https://tauri.localhost'']"

definition withMobileCors :: "http_request \<Rightarrow> http_response \<Rightarrow> http_response" where
  "withMobileCors rq response =
     (let origin = (case map_of (hq_headers rq) ''origin'' of Some v \<Rightarrow> v | None \<Rightarrow> []) in
      if origin \<notin> set MOBILE_ORIGINS then response
      else response\<lparr>hs_headers := map_set ''vary'' ''origin'' (map_set ''access-control-allow-origin'' origin (hs_headers response))\<rparr>)"

definition connectError :: "http_request \<Rightarrow> nat \<Rightarrow> string \<Rightarrow> nat \<Rightarrow> http_response" where
  "connectError rq status message retryAfterSeconds =
     withMobileCors rq (error_response status message
       ((if retryAfterSeconds = 0 then id else map_set ''retry-after'' (show_nat retryAfterSeconds))
         [(''cache-control'', ''no-store''), (''x-content-type-options'', ''nosniff'')]))"

section \<open>Addresses\<close>

text \<open>\<open>HOST_ID\<close>: a UUID of versions 1 to 8.\<close>

definition hex_char :: "char \<Rightarrow> bool" where "hex_char c \<longleftrightarrow> c \<in> set ''0123456789abcdefABCDEF''"

definition HOST_ID_CLASSES :: "(char \<Rightarrow> bool) list" where
  "HOST_ID_CLASSES =
     replicate 8 hex_char @ [(=) (CHR ''-'')] @ replicate 4 hex_char @ [(=) (CHR ''-'')] @ [\<lambda>c. c \<in> set ''12345678''] @ replicate 3 hex_char @
     [(=) (CHR ''-'')] @ [\<lambda>c. c \<in> set ''89abAB''] @ replicate 3 hex_char @ [(=) (CHR ''-'')] @ replicate 12 hex_char"

definition HOST_ID :: "string \<Rightarrow> bool" where
  "HOST_ID s \<longleftrightarrow> list_all2 (\<lambda>p c. p c) HOST_ID_CLASSES s"

text \<open>
  \<open>decodeURIComponent\<close>; \<open>None\<close> is its error, and also a text with a character above 255, which
  no address the code accepts has either.
\<close>

definition hex_nibble :: "char \<Rightarrow> nat option" where
  "hex_nibble c = (let n = char_code c in
     if 48 \<le> n \<and> n \<le> 57 then Some (n - 48) else if 97 \<le> n \<and> n \<le> 102 then Some (n - 87)
     else if 65 \<le> n \<and> n \<le> 70 then Some (n - 55) else None)"

definition hex_pair :: "char \<Rightarrow> char \<Rightarrow> nat option" where
  "hex_pair h l = Option.bind (hex_nibble h) (\<lambda>a. map_option (\<lambda>b. a * 16 + b) (hex_nibble l))"

function decodeURIComponent :: "string \<Rightarrow> string option" where
  "decodeURIComponent [] = Some []"
| "decodeURIComponent (c # s) =
     (if c \<noteq> CHR ''%'' then map_option ((#) c) (decodeURIComponent s)
      else case s of
        h # l # t \<Rightarrow> Option.bind (hex_pair h l) (\<lambda>b.
          if b < 128 then map_option ((#) (byte_char b)) (decodeURIComponent t)
          else case t of
            p # h' # l' # u \<Rightarrow>
              if p = CHR ''%'' \<and> 194 \<le> b \<and> b \<le> 195 then
                Option.bind (hex_pair h' l') (\<lambda>b'. if 128 \<le> b' \<and> b' < 192
                  then map_option ((#) (byte_char ((b - 192) * 64 + (b' - 128)))) (decodeURIComponent u) else None)
              else None
          | _ \<Rightarrow> None)
      | _ \<Rightarrow> None)"
  by pat_completeness auto
termination by (relation "measure length") auto

definition route :: "string \<Rightarrow> string \<Rightarrow> (string \<times> string) option" where
  "route pathname prefix =
     (if take (length prefix) pathname \<noteq> prefix then None
      else
        let value = drop (length prefix) pathname;
            encoded = takeWhile (\<lambda>c. c \<noteq> CHR ''/'') value in
        case decodeURIComponent encoded of
          None \<Rightarrow> Some ([], [])
        | Some hostId \<Rightarrow> Some (hostId, drop (length encoded) value))"

definition bearer :: "string option \<Rightarrow> string" where
  "bearer value = (case value of
     Some v \<Rightarrow> if take 7 v = ''Bearer '' then js_trim (drop 7 v) else [] | None \<Rightarrow> [])"

section \<open>Frames\<close>

record relay_request =
  rr_id :: string
  rr_method :: string
  rr_path :: string
  rr_headers :: headers
  rr_body64 :: string

definition string_object :: "(string \<times> string) list \<Rightarrow> json" where
  "string_object kvs = JObj (map (\<lambda>(k, v). (k, JStr v)) kvs)"

definition request_frame :: "relay_request \<Rightarrow> json" where
  "request_frame r = JObj [(''type'', JStr ''request''), (''version'', JNum HOST_RELAY_PROTOCOL_VERSION), (''id'', JStr (rr_id r)),
     (''method'', JStr (rr_method r)), (''path'', JStr (rr_path r)), (''headers'', string_object (rr_headers r)),
     (''bodyBase64'', JStr (rr_body64 r))]"

record relay_response =
  rp_id :: string
  rp_status :: nat
  rp_headers :: headers
  rp_body64 :: string

definition response_frame :: "relay_response \<Rightarrow> json" where
  "response_frame r = JObj [(''type'', JStr ''response''), (''version'', JNum HOST_RELAY_PROTOCOL_VERSION), (''id'', JStr (rp_id r)),
     (''status'', JNum (of_nat (rp_status r))), (''headers'', string_object (rp_headers r)), (''bodyBase64'', JStr (rp_body64 r))]"

text \<open>The fields of a value the validators have let through.\<close>

definition string_of :: "json option \<Rightarrow> string" where
  "string_of v = (case v of Some (JStr s) \<Rightarrow> s | _ \<Rightarrow> [])"

definition strings_in :: "json option \<Rightarrow> (string \<times> string) list" where
  "strings_in v = (case v of Some (JObj kvs) \<Rightarrow> map (\<lambda>(k, x). (k, string_of (Some x))) kvs | _ \<Rightarrow> [])"

definition read_request_frame :: "json \<Rightarrow> relay_request" where
  "read_request_frame v = \<lparr>rr_id = string_of (prop_of v ''id''), rr_method = string_of (prop_of v ''method''), rr_path = string_of (prop_of v ''path''),
     rr_headers = strings_in (prop_of v ''headers''), rr_body64 = string_of (prop_of v ''bodyBase64'')\<rparr>"

definition read_response_frame :: "json \<Rightarrow> relay_response" where
  "read_response_frame v = \<lparr>rp_id = string_of (prop_of v ''id''),
     rp_status = (case prop_of v ''status'' of Some (JNum r) \<Rightarrow> nat \<lfloor>r\<rfloor> | _ \<Rightarrow> 0),
     rp_headers = strings_in (prop_of v ''headers''), rp_body64 = string_of (prop_of v ''bodyBase64'')\<rparr>"

section \<open>The worker\<close>

datatype worker_action = Reply http_response | PairByCode | ToHost string http_request

definition CONNECT_CONFIG_PATH :: string where "CONNECT_CONFIG_PATH = ''/connect-config''"
definition CODE_PAIR_PATH :: string where "CODE_PAIR_PATH = ''/connect''"

definition plain_headers :: headers where
  "plain_headers = [(''cache-control'', ''no-store''), (''x-content-type-options'', ''nosniff'')]"

text \<open>The request a route hands to the object of its host.\<close>

definition internal :: "string \<Rightarrow> string \<Rightarrow> headers \<Rightarrow> string list option \<Rightarrow> http_request" where
  "internal method path hs body =
     \<lparr>hq_method = method, hq_pathname = path, hq_search = [], hq_origin = ''https://relay.internal'', hq_headers = hs, hq_body = body\<rparr>"

definition relay_route :: "http_request \<Rightarrow> string \<Rightarrow> string \<Rightarrow> worker_action" where
  "relay_route rq hostId rest =
     (if \<not> HOST_ID hostId then Reply notFound
      else if rest = [] then
        if hq_method rq \<noteq> ''GET'' \<or> map_option js_lower (map_of (hq_headers rq) ''upgrade'') \<noteq> Some ''websocket''
        then Reply (error_response 426 ''Expected a WebSocket connection.'' [])
        else ToHost hostId (internal ''GET'' ''/connect''
          (map_set ''x-polymux-host-id'' hostId (copyHeader (hq_headers rq) ''x-polymux-register''
            (copyHeader (hq_headers rq) ''authorization'' [(''upgrade'', ''websocket'')]))) None)
      else if rest = ''/connect-code'' then
        if hq_method rq \<noteq> ''PUT'' \<and> hq_method rq \<noteq> ''DELETE''
        then Reply (error_response 405 ''Method not allowed.'' [(''allow'', ''PUT, DELETE'')])
        else if requestBodyTooLarge rq MAX_CONNECT_BODY_BYTES
        then Reply (error_response 413 ''Connect-code registration is too large.'' [])
        else ToHost hostId (internal (hq_method rq) ''/connect-code''
          (map_set ''x-polymux-host-id'' hostId (copyHeader (hq_headers rq) ''content-type''
            (copyHeader (hq_headers rq) ''authorization'' [])))
          (if hq_method rq = ''DELETE'' then None else hq_body rq))
      else Reply notFound)"

definition PROXY_METHODS :: "string list" where "PROXY_METHODS = [''GET'', ''POST'', ''OPTIONS'']"

definition HOST_PREFIX :: string where "HOST_PREFIX = ''/polymux-host/v1/''"

definition host_route :: "http_request \<Rightarrow> string \<Rightarrow> string \<Rightarrow> worker_action" where
  "host_route rq hostId rest =
     (if \<not> HOST_ID hostId \<or> take 17 rest \<noteq> HOST_PREFIX then Reply notFound
      else if hq_method rq \<notin> set PROXY_METHODS
      then Reply (error_response 405 ''Method not allowed.'' [(''allow'', ''GET, POST, OPTIONS'')])
      else if requestBodyTooLarge rq MAX_BODY_BYTES then Reply (error_response 413 ''Host request is too large.'' [])
      else ToHost hostId (internal (hq_method rq) ''/proxy''
        (map_set ''x-polymux-proxy-path'' (rest @ hq_search rq) (forwardedRequestHeaders (hq_headers rq)))
        (if hq_method rq = ''GET'' then None else hq_body rq)))"

definition worker_fetch :: "http_request \<Rightarrow> worker_action" where
  "worker_fetch rq =
     (if hq_method rq = ''GET'' \<and> (hq_pathname rq = ''/'' \<or> hq_pathname rq = ''/healthz'')
      then Reply (json_response 200 plain_headers (JObj [(''ok'', JBool True), (''service'', JStr ''polymux-connect''),
        (''protocol'', JNum HOST_RELAY_PROTOCOL_VERSION)]))
      else if hq_method rq = ''GET'' \<and> hq_pathname rq = CONNECT_CONFIG_PATH
      then Reply (json_response 200 plain_headers (JObj [(''version'', JNum HOST_RELAY_PROTOCOL_VERSION), (''webSocketOrigin'', JStr (hq_origin rq))]))
      else if hq_pathname rq = CODE_PAIR_PATH then PairByCode
      else case route (hq_pathname rq) ''/relay/'' of
        Some (hostId, rest) \<Rightarrow> relay_route rq hostId rest
      | None \<Rightarrow> (case route (hq_pathname rq) ''/h/'' of
          Some (hostId, rest) \<Rightarrow> host_route rq hostId rest
        | None \<Rightarrow> Reply notFound))"

section \<open>Lemmas\<close>

lemma map_of_copyHeader: "map_of (copyHeader source name target) k =
    (if k = name \<and> map_of source name \<notin> {None, Some []} then map_of source name else map_of target k)"
  by (auto simp: copyHeader_def split: option.splits)

lemma map_of_copied: "map_of (fold (copyHeader source) names target) k =
    (if k \<in> set names \<and> map_of source k \<notin> {None, Some []} then map_of source k else map_of target k)"
  by (induction names arbitrary: target) (auto simp: map_of_copyHeader)

lemma forwarded_request_headers:
  "map_of (forwardedRequestHeaders hs) k =
    (if k \<in> set REQUEST_HEADERS \<and> map_of hs k \<noteq> Some [] then map_of hs k else None)"
  unfolding forwardedRequestHeaders_def map_of_copied by (cases "map_of hs k") simp_all

lemma copyHeader_distinct: "distinct (map fst target) \<Longrightarrow> distinct (map fst (copyHeader source name target))"
  by (simp add: copyHeader_def split: option.splits)

lemma copied_distinct: "distinct (map fst target) \<Longrightarrow> distinct (map fst (fold (copyHeader source) names target))"
  by (induction names arbitrary: target) (simp_all add: copyHeader_distinct)

lemma copied_member: "(k, v) \<in> set (fold (copyHeader source) names []) \<longleftrightarrow> k \<in> set names \<and> map_of source k = Some v \<and> v \<noteq> []"
proof -
  have "distinct (map fst (fold (copyHeader source) names []))" by (rule copied_distinct) simp
  from map_of_eq_Some_iff [OF this, of k v] show ?thesis unfolding map_of_copied by (auto split: if_splits)
qed

lemma forwarded_member: "(k, v) \<in> set (forwardedRequestHeaders hs) \<longleftrightarrow> k \<in> set REQUEST_HEADERS \<and> map_of hs k = Some v \<and> v \<noteq> []"
  by (simp add: forwardedRequestHeaders_def copied_member)

lemma copyHeader_length: "length (copyHeader source name target) \<le> Suc (length target)"
proof -
  have "length (map_set k v xs) \<le> Suc (length xs)" for k and v :: string and xs by (induction xs) auto
  then show ?thesis by (auto simp: copyHeader_def split: option.splits)
qed

lemma copied_length: "length (fold (copyHeader hs) names target) \<le> length names + length target"
proof (induction names arbitrary: target)
  case (Cons name names)
  have "length (fold (copyHeader hs) names (copyHeader hs name target)) \<le> length names + length (copyHeader hs name target)" by (rule Cons.IH)
  then show ?case using copyHeader_length [of hs name target] by simp
qed simp

lemma forwarded_length: "length (forwardedRequestHeaders hs) \<le> 3"
  using copied_length [of hs REQUEST_HEADERS "[]"] by (simp add: forwardedRequestHeaders_def REQUEST_HEADERS_def)

lemma strings_of_object [simp]: "strings_in (Some (string_object kvs)) = kvs"
  by (induction kvs) (auto simp: strings_in_def string_object_def string_of_def)

lemma frames_read_back [simp]:
  "read_request_frame (request_frame r) = r" "read_response_frame (response_frame p) = p"
  by (simp_all add: read_request_frame_def request_frame_def read_response_frame_def response_frame_def string_of_def)

lemma read_chunks_result: "sofar \<le> maximum \<Longrightarrow>
    read_chunks maximum sofar cs = (if sofar + length (concat cs) \<le> maximum then Some cs else None)"
  by (induction maximum sofar cs rule: read_chunks.induct) auto

lemma bounded_body: "readBoundedBody rq maximum =
    (case hq_body rq of None \<Rightarrow> Inr []
     | Some cs \<Rightarrow> if length (concat cs) \<le> maximum then Inr (concat cs) else Inl (413, ''Host request is too large.''))"
  by (auto simp: readBoundedBody_def read_chunks_result split: option.splits)

text \<open>Headers that are header values already are copied as they are.\<close>

definition clean :: "headers \<Rightarrow> bool" where
  "clean hs \<longleftrightarrow> list_all (\<lambda>(k, v). http_value v = Some v) hs"

lemma set_clean: "clean source \<Longrightarrow> fold (set_if_value source) names (Some hs) = Some (fold (copyHeader source) names hs)"
proof (induction names arbitrary: hs)
  case (Cons name names)
  have "set_if_value source name (Some hs) = Some (copyHeader source name hs)"
  proof (cases "map_of source name")
    case (Some v)
    then have "http_value v = Some v" using Cons.prems map_of_SomeD [OF Some] by (auto simp: clean_def list_all_iff)
    with Some show ?thesis by (simp add: set_if_value_def copyHeader_def)
  qed (simp add: set_if_value_def copyHeader_def)
  with Cons show ?case by simp
qed simp

lemma clean_copied: "clean source \<Longrightarrow> clean target \<Longrightarrow> distinct (map fst target) \<Longrightarrow> clean (fold (copyHeader source) names target)"
proof (induction names arbitrary: target)
  case (Cons name names)
  have "clean (copyHeader source name target)"
    using Cons.prems set_map_set [OF Cons.prems(3)] by (fastforce simp: copyHeader_def clean_def list_all_iff split: option.splits dest: map_of_SomeD)
  then show ?case using Cons.IH [OF Cons.prems(1)] copyHeader_distinct [OF Cons.prems(3)] by simp
qed simp

end
