(* ===== verification/RelayDirectory.thy ===== *)
theory RelayDirectory
  imports RelayWire
begin

text \<open>
  The two objects the relay keeps beside its hosts: \<open>ConnectCodeRegistry\<close>, the connect codes of one shard
  with an alarm for the next to expire, and \<open>ConnectAttemptLimiter\<close>, the attempts of one client in the
  current minute and hour.  A table is the list of its rows; a call is atomic, and its time comes from the caller.
\<close>

section \<open>The registry\<close>

record code_registry =
  rg_codes :: "(string \<times> string \<times> int) list"  \<comment> \<open>code, host, expiry; the code is the key\<close>
  rg_alarm :: "int option"

definition new_registry :: code_registry where "new_registry = \<lparr>rg_codes = [], rg_alarm = None\<rparr>"

definition delete_expired :: "int \<Rightarrow> code_registry \<Rightarrow> code_registry" where
  "delete_expired now rg = rg\<lparr>rg_codes := filter (\<lambda>(code, host, expires). \<not> expires \<le> now) (rg_codes rg)\<rparr>"

definition scheduleNextAlarm :: "code_registry \<Rightarrow> code_registry" where
  "scheduleNextAlarm rg =
     rg\<lparr>rg_alarm := (if rg_codes rg = [] then None else Some (Min (set (map (\<lambda>(code, host, expires). expires) (rg_codes rg)))))\<rparr>"

definition register_code :: "string \<Rightarrow> string \<Rightarrow> int \<Rightarrow> int \<Rightarrow> code_registry \<Rightarrow> bool \<times> code_registry" where
  "register_code code hostId expiresAt now rg =
     (if \<not> HOST_PAIRING_CODE code \<or> \<not> HOST_ID hostId \<or> expiresAt \<le> now then (False, rg)
      else
        let rg' = delete_expired now rg in
        case map_of (rg_codes rg') code of
          Some (current, _) \<Rightarrow>
            if current \<noteq> hostId then (False, rg')
            else (True, scheduleNextAlarm (rg'\<lparr>rg_codes := map_set code (hostId, expiresAt) (rg_codes rg')\<rparr>))
        | None \<Rightarrow> (True, scheduleNextAlarm (rg'\<lparr>rg_codes := map_set code (hostId, expiresAt) (rg_codes rg')\<rparr>)))"

definition resolve_code :: "string \<Rightarrow> int \<Rightarrow> code_registry \<Rightarrow> string option \<times> code_registry" where
  "resolve_code code now rg =
     (if \<not> HOST_PAIRING_CODE code then (None, rg)
      else let rg' = delete_expired now rg in (map_option fst (map_of (rg_codes rg') code), rg'))"

definition remove_code :: "string \<Rightarrow> string \<Rightarrow> code_registry \<Rightarrow> code_registry" where
  "remove_code code hostId rg =
     (if \<not> HOST_PAIRING_CODE code \<or> \<not> HOST_ID hostId then rg
      else scheduleNextAlarm (rg\<lparr>rg_codes := filter (\<lambda>(c, host, _). \<not> (c = code \<and> host = hostId)) (rg_codes rg)\<rparr>))"

text \<open>An alarm is spent when it rings.\<close>

definition alarm :: "int \<Rightarrow> code_registry \<Rightarrow> code_registry" where
  "alarm now rg = scheduleNextAlarm (delete_expired now (rg\<lparr>rg_alarm := None\<rparr>))"

section \<open>Shards\<close>

definition connectCodeShard :: "string \<Rightarrow> string" where
  "connectCodeShard code = ''connect-code-'' @ take 3 code"

type_synonym directory = "string \<Rightarrow> code_registry"

definition new_directory :: directory where "new_directory = (\<lambda>_. new_registry)"

definition directory_register :: "string \<Rightarrow> string \<Rightarrow> int \<Rightarrow> int \<Rightarrow> directory \<Rightarrow> bool \<times> directory" where
  "directory_register code hostId expiresAt now d =
     (case register_code code hostId expiresAt now (d (connectCodeShard code)) of (ok, rg) \<Rightarrow> (ok, d(connectCodeShard code := rg)))"

definition directory_resolve :: "string \<Rightarrow> int \<Rightarrow> directory \<Rightarrow> string option \<times> directory" where
  "directory_resolve code now d =
     (case resolve_code code now (d (connectCodeShard code)) of (r, rg) \<Rightarrow> (r, d(connectCodeShard code := rg)))"

definition directory_remove :: "string \<Rightarrow> string \<Rightarrow> directory \<Rightarrow> directory" where
  "directory_remove code hostId d = d(connectCodeShard code := remove_code code hostId (d (connectCodeShard code)))"

definition directory_alarm :: "string \<Rightarrow> int \<Rightarrow> directory \<Rightarrow> directory" where
  "directory_alarm shard now d = d(shard := alarm now (d shard))"

section \<open>What a directory of codes promises\<close>

text \<open>
  The host a code leads to at a time.  The laws say what a grant, a refusal, a look-up, a removal and an
  alarm make of it; deletions of what has expired do not show.
\<close>

locale code_directory =
  fixes ok :: "'d \<Rightarrow> bool"
    and lease :: "'d \<Rightarrow> int \<Rightarrow> string \<Rightarrow> string option"
    and admissible :: "string \<Rightarrow> string \<Rightarrow> bool"
    and claim :: "string \<Rightarrow> string \<Rightarrow> int \<Rightarrow> int \<Rightarrow> 'd \<Rightarrow> bool \<times> 'd"
    and find_host :: "string \<Rightarrow> int \<Rightarrow> 'd \<Rightarrow> string option \<times> 'd"
    and forget :: "string \<Rightarrow> string \<Rightarrow> 'd \<Rightarrow> 'd"
    and ring :: "string \<Rightarrow> int \<Rightarrow> 'd \<Rightarrow> 'd"
  assumes claim_ok: "ok d \<Longrightarrow> ok (snd (claim c h e now d))"
    and claim_granted: "ok d \<Longrightarrow> fst (claim c h e now d) \<longleftrightarrow> admissible c h \<and> now < e \<and> lease d now c \<in> {None, Some h}"
    and claim_lease: "ok d \<Longrightarrow> now \<le> t \<Longrightarrow> lease (snd (claim c h e now d)) t c' =
      (if fst (claim c h e now d) \<and> c' = c then if t < e then Some h else None else lease d t c')"
    and find_ok: "ok d \<Longrightarrow> ok (snd (find_host c now d))"
    and find_result: "ok d \<Longrightarrow> fst (find_host c now d) = lease d now c"
    and find_lease: "ok d \<Longrightarrow> now \<le> t \<Longrightarrow> lease (snd (find_host c now d)) t c' = lease d t c'"
    and forget_ok: "ok d \<Longrightarrow> ok (forget c h d)"
    and forget_lease: "ok d \<Longrightarrow> lease (forget c h d) t c' = (if c' = c \<and> lease d t c = Some h then None else lease d t c')"
    and ring_ok: "ok d \<Longrightarrow> ok (ring shard now d)"
    and ring_lease: "ok d \<Longrightarrow> now \<le> t \<Longrightarrow> lease (ring shard now d) t c' = lease d t c'"

text \<open>A sequence of calls and its answers, on a directory and on a plain ledger of grants.\<close>

datatype code_call = Claim string string int | Find string | Forget string string | Ring string

datatype code_answer = Granted bool | Found "string option" | Done

fun code_answers ::
  "(string \<Rightarrow> string \<Rightarrow> int \<Rightarrow> int \<Rightarrow> 'd \<Rightarrow> bool \<times> 'd) \<Rightarrow> (string \<Rightarrow> int \<Rightarrow> 'd \<Rightarrow> string option \<times> 'd) \<Rightarrow>
   (string \<Rightarrow> string \<Rightarrow> 'd \<Rightarrow> 'd) \<Rightarrow> (string \<Rightarrow> int \<Rightarrow> 'd \<Rightarrow> 'd) \<Rightarrow> (int \<times> code_call) list \<Rightarrow> 'd \<Rightarrow> code_answer list" where
  "code_answers claim find_host forget ring [] d = []"
| "code_answers claim find_host forget ring ((now, Claim c h e) # calls) d =
     Granted (fst (claim c h e now d)) # code_answers claim find_host forget ring calls (snd (claim c h e now d))"
| "code_answers claim find_host forget ring ((now, Find c) # calls) d =
     Found (fst (find_host c now d)) # code_answers claim find_host forget ring calls (snd (find_host c now d))"
| "code_answers claim find_host forget ring ((now, Forget c h) # calls) d = Done # code_answers claim find_host forget ring calls (forget c h d)"
| "code_answers claim find_host forget ring ((now, Ring shard) # calls) d = Done # code_answers claim find_host forget ring calls (ring shard now d)"

type_synonym ledger = "string \<Rightarrow> (string \<times> int) option"

definition ledger_host :: "ledger \<Rightarrow> int \<Rightarrow> string \<Rightarrow> string option" where
  "ledger_host m now c = (case m c of Some (h, e) \<Rightarrow> if now < e then Some h else None | None \<Rightarrow> None)"

fun ledger_answers :: "(string \<Rightarrow> string \<Rightarrow> bool) \<Rightarrow> (int \<times> code_call) list \<Rightarrow> ledger \<Rightarrow> code_answer list" where
  "ledger_answers admissible [] m = []"
| "ledger_answers admissible ((now, Claim c h e) # calls) m =
     (let granted = admissible c h \<and> now < e \<and> ledger_host m now c \<in> {None, Some h} in
      Granted granted # ledger_answers admissible calls (if granted then m(c \<mapsto> (h, e)) else m))"
| "ledger_answers admissible ((now, Find c) # calls) m = Found (ledger_host m now c) # ledger_answers admissible calls m"
| "ledger_answers admissible ((now, Forget c h) # calls) m =
     Done # ledger_answers admissible calls (if map_option fst (m c) = Some h then m(c := None) else m)"
| "ledger_answers admissible ((now, Ring shard) # calls) m = Done # ledger_answers admissible calls m"

context code_directory begin

lemma answers_of_ledger:
  assumes "ok d" and "sorted (map fst calls)" and "\<forall>call \<in> set calls. from \<le> fst call"
    and "\<forall>t c. from \<le> t \<longrightarrow> lease d t c = ledger_host m t c"
  shows "code_answers claim find_host forget ring calls d = ledger_answers admissible calls m"
  using assms
proof (induction calls arbitrary: d m "from")
  case (Cons call calls)
  obtain now op where call: "call = (now, op)" by (cases call)
  have from_now: "from \<le> now" using Cons.prems(3) call by simp
  have rest: "sorted (map fst calls)" "\<forall>call \<in> set calls. now \<le> fst call"
    using Cons.prems(2) call by (auto simp: list_all_iff)
  have same: "lease d t c = ledger_host m t c" if "now \<le> t" for t c
    using Cons.prems(4) from_now that by simp
  note IH = Cons.IH [OF _ rest]
  show ?case
  proof (cases op)
    case (Claim c h e)
    define granted where "granted = (admissible c h \<and> now < e \<and> ledger_host m now c \<in> {None, Some h})"
    have g: "fst (claim c h e now d) \<longleftrightarrow> granted"
      using claim_granted [OF Cons.prems(1)] same by (simp add: granted_def)
    have "\<forall>t c'. now \<le> t \<longrightarrow> lease (snd (claim c h e now d)) t c' = ledger_host (if granted then m(c \<mapsto> (h, e)) else m) t c'"
      using claim_lease [OF Cons.prems(1)] same g by (auto simp: ledger_host_def)
    from IH [OF claim_ok [OF Cons.prems(1)] this] show ?thesis
      unfolding call Claim code_answers.simps ledger_answers.simps g Let_def granted_def [symmetric] by (rule arg_cong)
  next
    case (Find c)
    have "\<forall>t c'. now \<le> t \<longrightarrow> lease (snd (find_host c now d)) t c' = ledger_host m t c'"
      using find_lease [OF Cons.prems(1)] same by simp
    from IH [OF find_ok [OF Cons.prems(1)] this] show ?thesis
      using find_result [OF Cons.prems(1)] same by (simp add: call Find)
  next
    case (Forget c h)
    have "\<forall>t c'. now \<le> t \<longrightarrow> lease (forget c h d) t c' =
        ledger_host (if map_option fst (m c) = Some h then m(c := None) else m) t c'"
      using forget_lease [OF Cons.prems(1)] same by (auto simp: ledger_host_def split: option.splits if_splits)
    from IH [OF forget_ok [OF Cons.prems(1)] this] show ?thesis by (simp add: call Forget)
  next
    case (Ring shard)
    have "\<forall>t c'. now \<le> t \<longrightarrow> lease (ring shard now d) t c' = ledger_host m t c'"
      using ring_lease [OF Cons.prems(1)] same by simp
    from IH [OF ring_ok [OF Cons.prems(1)] this] show ?thesis by (simp add: call Ring)
  qed
qed simp

end

section \<open>The registry keeps the promise\<close>

definition rows_ok :: "code_registry \<Rightarrow> bool" where
  "rows_ok rg \<longleftrightarrow> distinct (map fst (rg_codes rg)) \<and>
     (\<forall>(code, host, _) \<in> set (rg_codes rg). HOST_PAIRING_CODE code \<and> HOST_ID host)"

definition row_host :: "code_registry \<Rightarrow> int \<Rightarrow> string \<Rightarrow> string option" where
  "row_host rg now code = (case map_of (rg_codes rg) code of
     Some (host, expires) \<Rightarrow> if now < expires then Some host else None | None \<Rightarrow> None)"

lemma map_of_filter_rows:
  assumes "distinct (map fst xs)"
  shows "map_of (filter P xs) k = (case map_of xs k of Some v \<Rightarrow> if P (k, v) then Some v else None | None \<Rightarrow> None)"
  using assms
proof (induction xs)
  case (Cons x xs)
  have "map_of xs (fst x) = None" using Cons.prems by (simp add: map_of_eq_None_iff)
  with Cons show ?case by (cases x) (auto split: option.splits)
qed simp

lemma codes_of_schedule [simp]: "rg_codes (scheduleNextAlarm rg) = rg_codes rg"
  by (simp add: scheduleNextAlarm_def)

lemma row_host_codes: "rg_codes rg = rg_codes rg' \<Longrightarrow> row_host rg t c = row_host rg' t c" "rg_codes rg = rg_codes rg' \<Longrightarrow> rows_ok rg = rows_ok rg'"
  by (auto simp: row_host_def rows_ok_def)

lemma delete_rows:
  assumes "rows_ok rg"
  shows "rows_ok (delete_expired now rg)" "now \<le> t \<Longrightarrow> row_host (delete_expired now rg) t = row_host rg t"
    "map_of (rg_codes (delete_expired now rg)) code = (case map_of (rg_codes rg) code of
      Some (h, e) \<Rightarrow> if now < e then Some (h, e) else None | None \<Rightarrow> None)"
proof -
  have d: "distinct (map fst (rg_codes rg))" using assms by (simp add: rows_ok_def)
  show m: "map_of (rg_codes (delete_expired now rg)) code = (case map_of (rg_codes rg) code of
      Some (h, e) \<Rightarrow> if now < e then Some (h, e) else None | None \<Rightarrow> None)" for code
    by (auto simp: delete_expired_def map_of_filter_rows [OF d] split: option.splits)
  show "now \<le> t \<Longrightarrow> row_host (delete_expired now rg) t = row_host rg t"
    by (rule ext) (auto simp: row_host_def m split: option.splits)
  show "rows_ok (delete_expired now rg)"
    using assms by (auto simp: rows_ok_def delete_expired_def distinct_map_filter)
qed

lemma upsert_rows:
  fixes expiresAt :: int
  assumes "rows_ok rg" and "HOST_PAIRING_CODE code" and "HOST_ID hostId"
  defines "rg' \<equiv> rg\<lparr>rg_codes := map_set code (hostId, expiresAt) (rg_codes rg)\<rparr>"
  shows "rows_ok rg'" "row_host rg' t c = (if c = code then if t < expiresAt then Some hostId else None else row_host rg t c)"
  using assms set_map_set [of "rg_codes rg" code "(hostId, expiresAt)"] by (auto simp: rows_ok_def row_host_def)

lemma register_row:
  assumes ok: "rows_ok rg"
  shows "rows_ok (snd (register_code code hostId expiresAt now rg))" (is ?A)
    and "fst (register_code code hostId expiresAt now rg) \<longleftrightarrow>
      HOST_PAIRING_CODE code \<and> HOST_ID hostId \<and> now < expiresAt \<and> row_host rg now code \<in> {None, Some hostId}" (is ?B)
    and "now \<le> t \<Longrightarrow> row_host (snd (register_code code hostId expiresAt now rg)) t c =
      (if fst (register_code code hostId expiresAt now rg) \<and> c = code then if t < expiresAt then Some hostId else None else row_host rg t c)" (is "_ \<Longrightarrow> ?C")
proof -
  have "?A \<and> ?B \<and> (now \<le> t \<longrightarrow> ?C)"
  proof (cases "HOST_PAIRING_CODE code \<and> HOST_ID hostId \<and> now < expiresAt")
    case False
    then show ?thesis using ok by (auto simp: register_code_def)
  next
    case True
    define rg' where "rg' = delete_expired now rg"
    note rows = delete_rows [OF ok, of now, folded rg'_def]
    note up = upsert_rows [OF rows(1), of code hostId expiresAt]
    let ?up = "scheduleNextAlarm (rg'\<lparr>rg_codes := map_set code (hostId, expiresAt) (rg_codes rg')\<rparr>)"
    have ups: "rows_ok ?up" "row_host ?up t c = (if c = code then if t < expiresAt then Some hostId else None else row_host rg' t c)"
      using up True row_host_codes [OF codes_of_schedule] by simp_all
    have cur: "row_host rg now code = map_option fst (map_of (rg_codes rg') code)"
      by (auto simp: row_host_def rows(3) split: option.splits)
    have reg: "register_code code hostId expiresAt now rg =
        (if row_host rg now code \<in> {None, Some hostId} then (True, ?up) else (False, rg'))"
      using True unfolding register_code_def cur by (auto simp: Let_def rg'_def [symmetric] split: option.splits)
    show ?thesis using True ups rows(1,2) unfolding reg by auto
  qed
  then show ?A ?B "now \<le> t \<Longrightarrow> ?C" by blast+
qed

lemma resolve_row:
  assumes ok: "rows_ok rg"
  shows "rows_ok (snd (resolve_code code now rg))" "fst (resolve_code code now rg) = row_host rg now code"
    "now \<le> t \<Longrightarrow> row_host (snd (resolve_code code now rg)) t c = row_host rg t c"
proof -
  note rows = delete_rows [OF ok, of now]
  have "row_host rg now code = None" if "\<not> HOST_PAIRING_CODE code"
    using ok that by (auto simp: row_host_def rows_ok_def split: option.splits dest: map_of_SomeD)
  then show "fst (resolve_code code now rg) = row_host rg now code"
    using rows(3) by (auto simp: resolve_code_def row_host_def Let_def split: option.splits)
  show "rows_ok (snd (resolve_code code now rg))" "now \<le> t \<Longrightarrow> row_host (snd (resolve_code code now rg)) t c = row_host rg t c"
    using rows(1,2) ok by (auto simp: resolve_code_def Let_def)
qed

lemma remove_row:
  assumes ok: "rows_ok rg"
  shows "rows_ok (remove_code code hostId rg)"
    "row_host (remove_code code hostId rg) t c = (if c = code \<and> row_host rg t code = Some hostId then None else row_host rg t c)"
proof -
  have d: "distinct (map fst (rg_codes rg))" using ok by (simp add: rows_ok_def)
  show "rows_ok (remove_code code hostId rg)"
    using ok by (auto simp: remove_code_def rows_ok_def distinct_map_filter)
  have "row_host rg t code \<noteq> Some hostId" if "\<not> HOST_PAIRING_CODE code \<or> \<not> HOST_ID hostId"
    using ok that by (auto simp: row_host_def rows_ok_def split: option.splits if_splits dest: map_of_SomeD)
  then show "row_host (remove_code code hostId rg) t c = (if c = code \<and> row_host rg t code = Some hostId then None else row_host rg t c)"
    by (auto simp: remove_code_def row_host_def map_of_filter_rows [OF d] split: option.splits)
qed

lemma alarm_row:
  assumes ok: "rows_ok rg"
  shows "rows_ok (alarm now rg)" "now \<le> t \<Longrightarrow> row_host (alarm now rg) t c = row_host rg t c"
proof -
  have ok': "rows_ok (rg\<lparr>rg_alarm := None\<rparr>)" using ok by (simp add: rows_ok_def)
  note rows = delete_rows [OF ok', of now]
  have c: "rg_codes (alarm now rg) = rg_codes (delete_expired now (rg\<lparr>rg_alarm := None\<rparr>))" by (simp add: alarm_def)
  show "rows_ok (alarm now rg)" using rows(1) row_host_codes(2) [OF c] by simp
  have "row_host (rg\<lparr>rg_alarm := None\<rparr>) t c = row_host rg t c" for t c by (rule row_host_codes(1)) simp
  then show "row_host (alarm now rg) t c = row_host rg t c" if "now \<le> t" for t c
    unfolding row_host_codes(1) [OF c] rows(2) [OF that] .
qed

definition directory_ok :: "directory \<Rightarrow> bool" where
  "directory_ok d \<longleftrightarrow> (\<forall>shard. rows_ok (d shard))"

definition directory_host :: "directory \<Rightarrow> int \<Rightarrow> string \<Rightarrow> string option" where
  "directory_host d now code = row_host (d (connectCodeShard code)) now code"

interpretation connect_codes: code_directory directory_ok directory_host "\<lambda>c h. HOST_PAIRING_CODE c \<and> HOST_ID h"
  directory_register directory_resolve directory_remove directory_alarm
proof (unfold_locales, goal_cases)
  case (1 d c h e now)
  then show ?case using register_row(1) by (auto simp: directory_ok_def directory_register_def split_beta)
next
  case (2 d c h e now)
  then show ?case using register_row(2) by (auto simp: directory_ok_def directory_register_def directory_host_def split_beta)
next
  case (3 d now t c h e c')
  then show ?case using register_row(3) [of "d (connectCodeShard c)" now t]
    by (auto simp: directory_ok_def directory_register_def directory_host_def split_beta)
next
  case (4 d c now)
  then show ?case using resolve_row(1) by (auto simp: directory_ok_def directory_resolve_def split_beta)
next
  case (5 d c now)
  then show ?case using resolve_row(2) by (auto simp: directory_ok_def directory_resolve_def directory_host_def split_beta)
next
  case (6 d now t c c')
  then show ?case using resolve_row(3) [of "d (connectCodeShard c)" now t]
    by (auto simp: directory_ok_def directory_resolve_def directory_host_def split_beta)
next
  case (7 d c h)
  then show ?case using remove_row(1) by (auto simp: directory_ok_def directory_remove_def)
next
  case (8 d c h t c')
  then show ?case using remove_row(2) [of "d (connectCodeShard c)"]
    by (auto simp: directory_ok_def directory_remove_def directory_host_def)
next
  case (9 d shard now)
  then show ?case using alarm_row(1) by (auto simp: directory_ok_def directory_alarm_def)
next
  case (10 d now t shard c')
  then show ?case using alarm_row(2) by (auto simp: directory_ok_def directory_alarm_def directory_host_def)
qed

lemma ledger_of_new_directory:
  assumes "sorted (map fst calls)"
  shows "code_answers directory_register directory_resolve directory_remove directory_alarm calls new_directory =
    ledger_answers (\<lambda>c h. HOST_PAIRING_CODE c \<and> HOST_ID h) calls (\<lambda>_. None)"
proof (cases calls)
  case (Cons call rest)
  have "directory_ok new_directory" by (simp add: directory_ok_def new_directory_def new_registry_def rows_ok_def)
  moreover have "\<forall>call' \<in> set calls. fst call \<le> fst call'" using assms by (simp add: Cons)
  moreover have "directory_host new_directory t c = ledger_host (\<lambda>_. None) t c" for t c
    by (simp add: directory_host_def new_directory_def new_registry_def row_host_def ledger_host_def)
  ultimately show ?thesis by (intro connect_codes.answers_of_ledger [OF _ assms]) simp_all
qed simp


definition demo_host :: string where "demo_host = ''00000000-0000-4000-8000-000000000000''"
definition other_host :: string where "other_host = ''11111111-1111-4111-9111-111111111111''"

lemma demo_hosts: "HOST_ID demo_host" "HOST_ID other_host" "demo_host \<noteq> other_host" "HOST_PAIRING_CODE ''318204771''"
  by (simp_all add: demo_host_def other_host_def HOST_ID_def HOST_ID_CLASSES_def hex_char_def numeral_eq_Suc HOST_PAIRING_CODE_def
    HOST_PAIRING_CODE_LENGTH_def HOST_PAIRING_CODE_ALPHABET_def)


section \<open>The limiter\<close>

record attempt_window =
  aw_minute :: int
  aw_minute_count :: nat
  aw_hour :: int
  aw_hour_count :: nat

definition ceil_div :: "int \<Rightarrow> int \<Rightarrow> int" where "ceil_div a b = - ((- a) div b)"

definition take_attempt :: "int \<Rightarrow> nat \<Rightarrow> nat \<Rightarrow> attempt_window option \<Rightarrow> (bool \<times> int) \<times> attempt_window option" where
  "take_attempt now minuteLimit hourLimit st =
     (if minuteLimit < 1 \<or> hourLimit < minuteLimit \<or> 10000 < hourLimit then ((False, 60), st)
      else
        let minuteWindow = now div 60000;
            hourWindow = now div 3600000;
            minuteCount = (case st of Some w \<Rightarrow> if aw_minute w = minuteWindow then aw_minute_count w else 0 | None \<Rightarrow> 0);
            hourCount = (case st of Some w \<Rightarrow> if aw_hour w = hourWindow then aw_hour_count w else 0 | None \<Rightarrow> 0);
            minuteLimited = minuteLimit \<le> minuteCount;
            hourLimited = hourLimit \<le> hourCount in
        if minuteLimited \<or> hourLimited then
          let retryAt = (if hourLimited then (hourWindow + 1) * 3600000 else (minuteWindow + 1) * 60000) in
          ((False, max 1 (ceil_div (retryAt - now) 1000)), st)
        else ((True, 0), Some \<lparr>aw_minute = minuteWindow, aw_minute_count = minuteCount + 1, aw_hour = hourWindow, aw_hour_count = hourCount + 1\<rparr>))"

text \<open>The answers to attempts at given times, and what a count of the attempts already allowed would answer.\<close>

fun limiter_run :: "nat \<Rightarrow> nat \<Rightarrow> int list \<Rightarrow> attempt_window option \<Rightarrow> bool list" where
  "limiter_run ml hl [] st = []"
| "limiter_run ml hl (now # instants) st =
     (case take_attempt now ml hl st of ((allowed, _), st') \<Rightarrow> allowed # limiter_run ml hl instants st')"

definition in_window :: "int \<Rightarrow> int \<Rightarrow> int list \<Rightarrow> nat" where
  "in_window width now spent = length (filter (\<lambda>t. t div width = now div width) spent)"

fun counted_run :: "nat \<Rightarrow> nat \<Rightarrow> int list \<Rightarrow> int list \<Rightarrow> bool list" where
  "counted_run ml hl [] spent = []"
| "counted_run ml hl (now # instants) spent =
     (let allowed = in_window 60000 now spent < ml \<and> in_window 3600000 now spent < hl in
      allowed # counted_run ml hl instants (if allowed then now # spent else spent))"

definition window_of :: "int list \<Rightarrow> attempt_window option" where
  "window_of spent = (case spent of [] \<Rightarrow> None | t # _ \<Rightarrow>
     Some \<lparr>aw_minute = t div 60000, aw_minute_count = in_window 60000 t spent, aw_hour = t div 3600000, aw_hour_count = in_window 3600000 t spent\<rparr>)"

text \<open>With the spent newest first, the kept window is the count of the newest attempt's window.\<close>

lemma window_count:
  assumes "\<forall>t \<in> set spent. t \<le> hd spent" and "spent \<noteq> [] \<Longrightarrow> hd spent \<le> now" and "0 < width"
  shows "in_window width now spent = (if spent \<noteq> [] \<and> hd spent div width = now div width then in_window width (hd spent) spent else 0)"
proof -
  have "filter (\<lambda>t. t div width = now div width) spent = []" if "spent \<noteq> []" "hd spent div width \<noteq> now div width"
  proof -
    have "hd spent div width < now div width" using zdiv_mono1 [OF assms(2) [OF that(1)] assms(3)] that(2) by simp
    then have "t div width \<noteq> now div width" if "t \<in> set spent" for t
      using zdiv_mono1 [OF _ assms(3), of t "hd spent"] assms(1) that by fastforce
    then show ?thesis by (simp add: filter_empty_conv)
  qed
  then show ?thesis by (cases "spent = []") (auto simp: in_window_def)
qed

lemma kept_counts:
  assumes "\<forall>t \<in> set spent. t \<le> hd spent" and later: "spent = [] \<or> hd spent \<le> now"
  shows "(case window_of spent of Some w \<Rightarrow> if aw_minute w = now div 60000 then aw_minute_count w else 0 | None \<Rightarrow> 0) = in_window 60000 now spent"
    and "(case window_of spent of Some w \<Rightarrow> if aw_hour w = now div 3600000 then aw_hour_count w else 0 | None \<Rightarrow> 0) = in_window 3600000 now spent"
  using window_count [OF assms(1), of now 60000] window_count [OF assms(1), of now 3600000] later
  by (cases spent; auto simp: window_of_def in_window_def)+

lemma in_window_Cons: "in_window width now (t # spent) = (if t div width = now div width then 1 else 0) + in_window width now spent"
  by (simp add: in_window_def)

lemma take_counted:
  assumes limits: "1 \<le> ml" "ml \<le> hl" "hl \<le> 10000"
    and newest: "\<forall>t \<in> set spent. t \<le> hd spent" and later: "spent \<noteq> [] \<Longrightarrow> hd spent \<le> now"
  defines "allowed \<equiv> in_window 60000 now spent < ml \<and> in_window 3600000 now spent < hl"
  shows "fst (fst (take_attempt now ml hl (window_of spent))) = allowed"
    and "snd (take_attempt now ml hl (window_of spent)) = window_of (if allowed then now # spent else spent)"
proof -
  have "spent = [] \<or> hd spent \<le> now" using later by blast
  note kept = kept_counts [OF newest this]
  have w: "window_of (now # spent) = Some \<lparr>aw_minute = now div 60000, aw_minute_count = in_window 60000 now spent + 1,
      aw_hour = now div 3600000, aw_hour_count = in_window 3600000 now spent + 1\<rparr>"
    by (simp add: window_of_def in_window_Cons)
  have t: "take_attempt now ml hl (window_of spent) =
      (if allowed then ((True, 0), window_of (now # spent)) else ((False, snd (fst (take_attempt now ml hl (window_of spent)))), window_of spent))"
    using limits unfolding take_attempt_def Let_def kept w allowed_def by simp
  show "fst (fst (take_attempt now ml hl (window_of spent))) = allowed" by (subst t) simp
  show "snd (take_attempt now ml hl (window_of spent)) = window_of (if allowed then now # spent else spent)" by (subst t) simp
qed

lemma limiter_counted:
  assumes limits: "1 \<le> ml" "ml \<le> hl" "hl \<le> 10000"
    and "sorted instants" and "\<forall>t \<in> set spent. t \<le> hd spent" and "\<forall>t \<in> set instants. spent \<noteq> [] \<longrightarrow> hd spent \<le> t"
  shows "limiter_run ml hl instants (window_of spent) = counted_run ml hl instants spent"
  using assms(4-6)
proof (induction instants arbitrary: spent)
  case (Cons now instants)
  note t = take_counted [OF limits Cons.prems(2), of now]
  define allowed where "allowed = (in_window 60000 now spent < ml \<and> in_window 3600000 now spent < hl)"
  have later: "spent \<noteq> [] \<Longrightarrow> hd spent \<le> now" using Cons.prems(3) by simp
  have "limiter_run ml hl instants (window_of (if allowed then now # spent else spent)) = counted_run ml hl instants (if allowed then now # spent else spent)"
  proof (rule Cons.IH)
    show "sorted instants" using Cons.prems(1) by simp
    show "\<forall>t \<in> set (if allowed then now # spent else spent). t \<le> hd (if allowed then now # spent else spent)"
      using Cons.prems(2) later by (cases spent) fastforce+
    show "\<forall>t \<in> set instants. (if allowed then now # spent else spent) \<noteq> [] \<longrightarrow> hd (if allowed then now # spent else spent) \<le> t"
      using Cons.prems by simp
  qed
  then show ?case
    using t [OF later] by (simp add: split_beta Let_def allowed_def [symmetric])
qed simp

definition allowed_times :: "int list \<Rightarrow> bool list \<Rightarrow> int list" where
  "allowed_times instants answers = map fst (filter snd (zip instants answers))"

lemma counted_bound:
  assumes "\<And>w. length (filter (\<lambda>t. t div width = w) spent) \<le> limit" and "width = 60000 \<and> limit = ml \<or> width = 3600000 \<and> limit = hl"
  shows "length (filter (\<lambda>t. t div width = w) (allowed_times instants (counted_run ml hl instants spent) @ spent)) \<le> limit"
  using assms
proof (induction ml hl instants spent rule: counted_run.induct)
  case (1 ml hl spent)
  then show ?case by (simp add: allowed_times_def)
next
  case (2 ml hl now instants spent)
  define allowed where "allowed = (in_window 60000 now spent < ml \<and> in_window 3600000 now spent < hl)"
  have step: "length (filter (\<lambda>t. t div width = w') (if allowed then now # spent else spent)) \<le> limit" for w'
    using 2(2) [of w'] 2(3) by (auto simp: allowed_def in_window_def)
  have "length (filter (\<lambda>t. t div width = w) (allowed_times instants (counted_run ml hl instants (if allowed then now # spent else spent)) @
      (if allowed then now # spent else spent))) \<le> limit"
    by (rule 2(1) [OF allowed_def step 2(3)])
  then show ?case by (simp add: allowed_times_def Let_def allowed_def [symmetric] split: if_splits)
qed



text \<open>Who waits as long as a refusal says is allowed if nobody else has been meanwhile.\<close>

lemma ceil_div_times:
  assumes "0 < b"
  shows "a \<le> ceil_div a b * b"
proof -
  have "0 \<le> (- a) mod b" using assms by simp
  also have "(- a) mod b = - a - (- a) div b * b" by (simp add: minus_div_mult_eq_mod)
  finally show ?thesis by (simp add: ceil_div_def)
qed

lemma window_passed: "(w + 1) * width \<le> t \<Longrightarrow> 0 < width \<Longrightarrow> w < t div (width :: int)"
  using zdiv_mono1 [of "(w + 1) * width" t width] by simp

lemma retry_allowed:
  assumes limits: "1 \<le> ml" "ml \<le> hl" "hl \<le> 10000"
    and newest: "\<forall>t \<in> set spent. t \<le> hd spent" and later: "spent \<noteq> [] \<Longrightarrow> hd spent \<le> now"
    and refused: "take_attempt now ml hl (window_of spent) = ((False, r), st)"
  shows "1 \<le> r \<and> fst (fst (take_attempt (now + r * 1000) ml hl (window_of spent)))"
proof -
  define now' where "now' = now + r * 1000"
  note m = window_count [OF newest later, of 60000] and h = window_count [OF newest later, of 3600000]
  have "spent = [] \<or> hd spent \<le> now" using later by blast
  note kept = kept_counts [OF newest this]
  define retryAt where "retryAt = (if hl \<le> in_window 3600000 now spent then (now div 3600000 + 1) * 3600000 else (now div 60000 + 1) * 60000)"
  have r: "r = max 1 (ceil_div (retryAt - now) 1000)"
    using refused limits unfolding take_attempt_def Let_def kept retryAt_def by (simp split: if_splits)
  have "retryAt - now \<le> ceil_div (retryAt - now) 1000 * 1000" by (rule ceil_div_times) simp
  then have at: "retryAt \<le> now'" unfolding now'_def r by (simp add: max_def split: if_splits)
  have after: "now \<le> now'" using r by (simp add: now'_def)
  have later': "spent \<noteq> [] \<Longrightarrow> hd spent \<le> now'" using later after by force
  have m': "in_window 60000 now' spent = (if spent \<noteq> [] \<and> hd spent div 60000 = now' div 60000 then in_window 60000 (hd spent) spent else 0)"
    and h': "in_window 3600000 now' spent = (if spent \<noteq> [] \<and> hd spent div 3600000 = now' div 3600000 then in_window 3600000 (hd spent) spent else 0)"
    using window_count [OF newest later', of 60000] window_count [OF newest later', of 3600000] by simp_all
  have minute: "now div 60000 < now' div 60000"
  proof -
    have "now div 3600000 = now div 60000 div 60" using zdiv_zmult2_eq [of 60 now 60000] by simp
    moreover have "q \<le> 59 + q div 60 * 60" for q :: int by presburger
    ultimately have "now div 60000 \<le> 59 + now div 3600000 * 60" by simp
    then have "(now div 60000 + 1) * 60000 \<le> retryAt" by (simp add: retryAt_def)
    then have "(now div 60000 + 1) * 60000 \<le> now'" using at by simp
    then show ?thesis by (rule window_passed) simp
  qed
  have "in_window 60000 now' spent = 0"
  proof (cases "spent = []")
    case False
    then have "hd spent div 60000 \<le> now div 60000" using later by (simp add: zdiv_mono1)
    with minute m' show ?thesis by simp
  qed (simp add: in_window_def)
  moreover have "in_window 3600000 now' spent < hl"
  proof (cases "hl \<le> in_window 3600000 now spent")
    case True
    then have "(now div 3600000 + 1) * 3600000 \<le> now'" using at by (simp add: retryAt_def)
    then have "now div 3600000 < now' div 3600000" by (rule window_passed) simp
    moreover have "hd spent div 3600000 \<le> now div 3600000" if "spent \<noteq> []" using later that by (simp add: zdiv_mono1)
    ultimately have "in_window 3600000 now' spent = 0" using h' by (cases "spent = []") auto
    then show ?thesis using limits by simp
  next
    case False
    show ?thesis
    proof (cases "spent \<noteq> [] \<and> hd spent div 3600000 = now' div 3600000")
      case True
      then have "hd spent div 3600000 \<le> now div 3600000" using later by (intro zdiv_mono1) simp_all
      moreover have "now div 3600000 \<le> now' div 3600000" using after by (simp add: zdiv_mono1)
      ultimately have "now div 3600000 = now' div 3600000" using True by linarith
      then show ?thesis using False by (simp add: in_window_def)
    next
      case False
      then have "in_window 3600000 now' spent = 0" unfolding h' by (auto simp only: if_False simp_thms)
      then show ?thesis using limits by simp
    qed
  qed
  ultimately have "fst (fst (take_attempt now' ml hl (window_of spent)))"
    using take_counted(1) [OF limits newest later'] limits by simp
  then show ?thesis using r by (simp add: now'_def)
qed

text \<open>
  The times are the callers', taken before they reach the limiter.  Two callers on both sides of a
  full hour that arrive out of order start both windows anew each time, so that nobody is refused.
\<close>

lemma limiter_out_of_order:
  "limiter_run 1 1 (concat (replicate n [3600000, 3599999])) None = concat (replicate n [True, True])"
proof -
  define before_hour where "before_hour = Some \<lparr>aw_minute = 59, aw_minute_count = 1, aw_hour = 0, aw_hour_count = 1\<rparr>"
  have "st \<in> {None, before_hour} \<Longrightarrow>
      limiter_run 1 1 (concat (replicate n [3600000, 3599999])) st = concat (replicate n [True, True])" for st
    by (induction n arbitrary: st) (auto simp: take_attempt_def before_hour_def)
  then show ?thesis by simp
qed

end
