(* ===== verification/RelayHost.thy ===== *)
theory RelayHost
  imports RelayDirectory
begin

text \<open>
  \<open>HostRelay\<close> of \<^verbatim>\<open>apps/connect/relay/src/index.ts\<close>: the object a host keeps a socket open to and through which
  requests for it pass.  What runs between two suspensions is a function here; waiting for its own storage
  is no suspension, since the platform delivers no event to an object meanwhile.  A request suspends while its body is read and
  while its answer is waited for.  SHA-256 is a parameter, the identifiers drawn for requests never repeat.
\<close>

section \<open>The object\<close>

definition MAX_ACTIVE_REQUESTS :: nat where "MAX_ACTIVE_REQUESTS = 32"
definition REQUEST_TIMEOUT_MS :: int where "REQUEST_TIMEOUT_MS = 45000"
definition MAX_CONNECT_CODE_TTL_MS :: int where "MAX_CONNECT_CODE_TTL_MS = 15 * 60000"

record pending_request =
  pr_call :: nat
  pr_deadline :: int

text \<open>A call of \<open>#proxy\<close> that got past its checks: what it forwards, the socket it took, its frame's identifier and its answer.\<close>

record proxy_call =
  pc_method :: string
  pc_path :: string
  pc_headers :: headers
  pc_socket :: nat
  pc_id :: "string option"
  pc_answer :: "http_response option"

text \<open>The last two fields are history: the frames sent, and the calls whose answer was given up on.\<close>

record relay =
  rl_secret :: "string option"
  rl_hostId :: "string option"
  rl_code :: "(string \<times> int) option"
  rl_sockets :: "bool list"  \<comment> \<open>the sockets accepted so far, whether they are open\<close>
  rl_pending :: "(string \<times> pending_request) list"
  rl_calls :: "proxy_call list"
  rl_sent :: "(nat \<times> relay_request) list"
  rl_lost :: "(nat \<times> string) list"

definition new_relay :: relay where
  "new_relay = \<lparr>rl_secret = None, rl_hostId = None, rl_code = None, rl_sockets = [], rl_pending = [], rl_calls = [], rl_sent = [], rl_lost = []\<rparr>"

section \<open>Who may speak for a host\<close>

definition authenticateHost :: "(string \<Rightarrow> string) \<Rightarrow> http_request \<Rightarrow> bool \<Rightarrow> relay \<Rightarrow> http_response option \<times> relay" where
  "authenticateHost sha256 rq allowRegistration s =
     (let secret = bearer (map_of (hq_headers rq) ''authorization'') in
      if secret = [] \<or> length secret < 32 \<or> 256 < length secret
      then (Some (error_response 401 ''Host authentication is required.'' []), s)
      else case rl_secret s of
        None \<Rightarrow>
          if \<not> allowRegistration \<or> map_of (hq_headers rq) ''x-polymux-register'' \<noteq> Some ''1''
          then (Some (error_response 401 ''This Host has not registered with Polymux Connect.'' []), s)
          else (None, s\<lparr>rl_secret := Some (sha256 secret)\<rparr>)
      | Some stored \<Rightarrow>
          if stored \<noteq> sha256 secret then (Some (error_response 401 ''Host authentication failed.'' []), s) else (None, s))"

definition recordHostId :: "http_request \<Rightarrow> relay \<Rightarrow> http_response option \<times> relay" where
  "recordHostId rq s =
     (let hostId = (case map_of (hq_headers rq) ''x-polymux-host-id'' of Some v \<Rightarrow> v | None \<Rightarrow> []) in
      if \<not> HOST_ID hostId then (Some (error_response 400 ''Host identity is invalid.'' []), s)
      else case rl_hostId s of
        Some stored \<Rightarrow> if stored \<noteq> hostId then (Some (error_response 409 ''Host identity does not match this relay.'' []), s) else (None, s)
      | None \<Rightarrow> (None, s\<lparr>rl_hostId := Some hostId\<rparr>))"

definition identify :: "(string \<Rightarrow> string) \<Rightarrow> http_request \<Rightarrow> bool \<Rightarrow> relay \<Rightarrow> http_response option \<times> relay" where
  "identify sha256 rq allowRegistration s =
     (case authenticateHost sha256 rq allowRegistration s of
        (Some e, s') \<Rightarrow> (Some e, s')
      | (None, s') \<Rightarrow> recordHostId rq s')"

text \<open>\<open>#connect\<close>: the host's earlier sockets are closed.\<close>

definition connect :: "(string \<Rightarrow> string) \<Rightarrow> http_request \<Rightarrow> relay \<Rightarrow> http_response \<times> relay" where
  "connect sha256 rq s =
     (if map_option js_lower (map_of (hq_headers rq) ''upgrade'') \<noteq> Some ''websocket''
      then (error_response 426 ''Expected a WebSocket connection.'' [], s)
      else case identify sha256 rq True s of
        (Some e, s') \<Rightarrow> (e, s')
      | (None, s') \<Rightarrow>
          (\<lparr>hs_status = 101, hs_headers = [], hs_body = SocketContent\<rparr>,
           s'\<lparr>rl_sockets := map (\<lambda>_. False) (rl_sockets s') @ [True]\<rparr>))"

section \<open>Connect codes\<close>

text \<open>\<open>#connectCode\<close> up to the body: an answer, or the host and the code it has registered before.\<close>

definition connect_code_begin :: "(string \<Rightarrow> string) \<Rightarrow> http_request \<Rightarrow> relay \<Rightarrow> (http_response, string \<times> (string \<times> int) option) result \<times> relay" where
  "connect_code_begin sha256 rq s =
     (case identify sha256 rq False s of
        (Some e, s') \<Rightarrow> (Inl e, s')
      | (None, s') \<Rightarrow>
          let hostId = (case map_of (hq_headers rq) ''x-polymux-host-id'' of Some v \<Rightarrow> v | None \<Rightarrow> []) in
          if hq_method rq = ''DELETE'' then (Inr (hostId, rl_code s'), s'\<lparr>rl_code := None\<rparr>)
          else if hq_method rq \<noteq> ''PUT'' then (Inl (error_response 405 ''Method not allowed.'' [(''allow'', ''PUT, DELETE'')]), s')
          else (Inr (hostId, rl_code s'), s'))"

definition no_content :: http_response where
  "no_content = \<lparr>hs_status = 204, hs_headers = [], hs_body = NoContent\<rparr>"

definition registration_invalid :: http_response where
  "registration_invalid = error_response 400 ''Connect-code registration is invalid.'' []"

text \<open>The registration in a body; the parsed body is \<open>None\<close> where \<open>JSON.parse\<close> throws.\<close>

definition read_registration :: "http_request \<Rightarrow> (string \<Rightarrow> json option) \<Rightarrow> int \<Rightarrow> (http_response, string \<times> int) result" where
  "read_registration rq parse now =
     (case readBoundedBody rq MAX_CONNECT_BODY_BYTES of
        Inl (status, message) \<Rightarrow> Inl (error_response status message [])
      | Inr text \<Rightarrow>
          (case parse text of
             Some (JObj kvs) \<Rightarrow>
               let code = (case map_of kvs ''code'' of Some (JStr c) \<Rightarrow> normalizeHostPairingCode c | _ \<Rightarrow> []);
                   expiresAt = (case map_of kvs ''expiresAt'' of Some (JNum e) \<Rightarrow> e | _ \<Rightarrow> 0) in
               if \<not> HOST_PAIRING_CODE code \<or> expiresAt \<noteq> of_int \<lfloor>expiresAt\<rfloor> \<or> expiresAt \<le> of_int now \<or> of_int (now + MAX_CONNECT_CODE_TTL_MS) < expiresAt
               then Inl registration_invalid else Inr (code, \<lfloor>expiresAt\<rfloor>)
           | _ \<Rightarrow> Inl registration_invalid))"

section \<open>Requests for the host\<close>

definition connectedHost :: "relay \<Rightarrow> nat option" where
  "connectedHost s = List.find (\<lambda>n. rl_sockets s ! n) [0..<length (rl_sockets s)]"

text \<open>\<open>#proxy\<close> up to the reading of the body.\<close>

definition proxy_begin :: "http_request \<Rightarrow> relay \<Rightarrow> http_response option \<times> relay" where
  "proxy_begin rq s =
     (case connectedHost s of
        None \<Rightarrow> (Some (error_response 503 ''This Polymux Host is offline.'' [(''retry-after'', ''3'')]), s)
      | Some host \<Rightarrow>
          if MAX_ACTIVE_REQUESTS \<le> length (rl_pending s)
          then (Some (error_response 429 ''This Polymux Host is busy.'' [(''retry-after'', ''1'')]), s)
          else if hq_method rq \<notin> set PROXY_METHODS then (Some (error_response 405 ''Method not allowed.'' []), s)
          else
            let path = (case map_of (hq_headers rq) ''x-polymux-proxy-path'' of Some v \<Rightarrow> v | None \<Rightarrow> []) in
            if take 17 path \<noteq> HOST_PREFIX \<or> 2048 < length path then (Some notFound, s)
            else (None, s\<lparr>rl_calls := rl_calls s @
              [\<lparr>pc_method = hq_method rq, pc_path = path, pc_headers = forwardedRequestHeaders (hq_headers rq), pc_socket = host,
                pc_id = None, pc_answer = None\<rparr>]\<rparr>))"

definition answer_call :: "nat \<Rightarrow> http_response \<Rightarrow> relay \<Rightarrow> relay" where
  "answer_call n response s =
     s\<lparr>rl_calls := (rl_calls s)[n := (rl_calls s ! n)\<lparr>pc_answer := Some response\<rparr>]\<rparr>"

text \<open>
  The rest of \<open>#proxy\<close>, with the body that was read or its error, the identifier drawn, the time, and whether
  the socket takes the frame.
\<close>

definition relayed_frame :: "string \<Rightarrow> string \<Rightarrow> proxy_call \<Rightarrow> relay_request" where
  "relayed_frame rid body c = \<lparr>rr_id = rid, rr_method = pc_method c, rr_path = pc_path c, rr_headers = pc_headers c, rr_body64 = bytesToBase64 body\<rparr>"

definition delete_pending :: "string \<Rightarrow> relay \<Rightarrow> relay" where
  "delete_pending rid s = s\<lparr>rl_pending := filter (\<lambda>(i, _). i \<noteq> rid) (rl_pending s)\<rparr>"

definition proxy_forward :: "nat \<Rightarrow> (nat \<times> string, string) result \<Rightarrow> string \<Rightarrow> int \<Rightarrow> bool \<Rightarrow> relay \<Rightarrow> relay" where
  "proxy_forward n body rid now taken s =
     (case body of
        Inl (status, message) \<Rightarrow> answer_call n (error_response status message []) s
      | Inr bytes \<Rightarrow>
          let c = rl_calls s ! n;
              s' = s\<lparr>rl_pending := map_set rid \<lparr>pr_call = n, pr_deadline = now + REQUEST_TIMEOUT_MS\<rparr> (rl_pending s),
                     rl_calls := (rl_calls s)[n := c\<lparr>pc_id := Some rid\<rparr>]\<rparr> in
          if taken then s'\<lparr>rl_sent := rl_sent s @ [(pc_socket c, relayed_frame rid bytes c)]\<rparr>
          else answer_call n (error_response 503 ''The Polymux Host disconnected.'' []) (delete_pending rid s'))"

definition request_timeout :: "string \<Rightarrow> relay \<Rightarrow> relay" where
  "request_timeout rid s = (case map_of (rl_pending s) rid of
     None \<Rightarrow> s
   | Some p \<Rightarrow> answer_call (pr_call p) (error_response 504 ''The Polymux Host did not answer in time.'' []) (delete_pending rid s))"

section \<open>The host's side of the socket\<close>

definition close_socket :: "nat \<Rightarrow> relay \<Rightarrow> relay" where
  "close_socket n s = s\<lparr>rl_sockets := (rl_sockets s)[n := False]\<rparr>"

datatype socket_message = Binary | Text "json option"

text \<open>
  \<open>webSocketMessage\<close>.  When the answer cannot be made into a response the handler throws after it
  has taken the request off the table and stopped its timer.
\<close>

definition answer_of :: "relay_response \<Rightarrow> http_response option" where
  "answer_of r = Option.bind (base64ToBytes (rp_body64 r)) (\<lambda>bytes.
     Option.bind (forwardedResponseHeaders (rp_headers r)) (\<lambda>hs. bytes_response (rp_status r) hs bytes))"

definition webSocketMessage :: "nat \<Rightarrow> socket_message \<Rightarrow> relay \<Rightarrow> relay" where
  "webSocketMessage socket message s = (case message of
     Binary \<Rightarrow> close_socket socket s
   | Text None \<Rightarrow> close_socket socket s
   | Text (Some v) \<Rightarrow>
       if \<not> isHostRelayResponse v \<or> maximumBase64Length MAX_BODY_BYTES < length (rp_body64 (read_response_frame v))
       then close_socket socket s
       else
         let r = read_response_frame v in
         case map_of (rl_pending s) (rp_id r) of
           None \<Rightarrow> s
         | Some p \<Rightarrow>
             (case answer_of r of
                Some response \<Rightarrow> answer_call (pr_call p) response (delete_pending (rp_id r) s)
              | None \<Rightarrow> (delete_pending (rp_id r) s)\<lparr>rl_lost := (pr_call p, rp_id r) # rl_lost s\<rparr>))"

definition finishPending :: "string \<Rightarrow> relay \<Rightarrow> relay" where
  "finishPending message s =
     (fold (\<lambda>(rid, p). answer_call (pr_call p) (error_response 503 message [])) (rl_pending s) s)\<lparr>rl_pending := []\<rparr>"

text \<open>\<open>webSocketClose\<close> and \<open>webSocketError\<close>, when the socket is no longer open.\<close>

definition socket_gone :: "nat \<Rightarrow> string \<Rightarrow> relay \<Rightarrow> relay" where
  "socket_gone socket message s =
     (let s' = close_socket socket s in if connectedHost s' = None then finishPending message s' else s')"

definition DISCONNECTED :: string where "DISCONNECTED = ''The Polymux Host disconnected.''"
definition FAILED :: string where "FAILED = ''The Polymux Host connection failed.''"

section \<open>Steps\<close>

inductive relay_step :: "(string \<Rightarrow> string) \<Rightarrow> relay \<Rightarrow> relay \<Rightarrow> bool" for sha256 where
  step_connect: "relay_step sha256 s (snd (connect sha256 rq s))"
| step_code: "relay_step sha256 s (snd (connect_code_begin sha256 rq s))"
| step_code_stored: "relay_step sha256 s (s\<lparr>rl_code := Some registration\<rparr>)"
| step_proxy: "relay_step sha256 s (snd (proxy_begin rq s))"
| step_forward: "n < length (rl_calls s) \<Longrightarrow> pc_id (rl_calls s ! n) = None \<Longrightarrow> pc_answer (rl_calls s ! n) = None \<Longrightarrow>
    Some rid \<notin> pc_id ` set (rl_calls s) \<Longrightarrow> relay_step sha256 s (proxy_forward n body rid now taken s)"
| step_timeout: "map_of (rl_pending s) rid = Some p \<Longrightarrow> pr_deadline p \<le> now \<Longrightarrow> relay_step sha256 s (request_timeout rid s)"
| step_message: "socket < length (rl_sockets s) \<Longrightarrow> relay_step sha256 s (webSocketMessage socket message s)"
| step_gone: "socket < length (rl_sockets s) \<Longrightarrow> message \<in> {DISCONNECTED, FAILED} \<Longrightarrow> relay_step sha256 s (socket_gone socket message s)"

definition relay_reachable :: "(string \<Rightarrow> string) \<Rightarrow> relay \<Rightarrow> bool" where
  "relay_reachable sha256 s \<longleftrightarrow> (relay_step sha256)\<^sup>*\<^sup>* new_relay s"

section \<open>Every call has one end\<close>

definition waiting_calls :: "relay \<Rightarrow> (nat \<times> string) set" where
  "waiting_calls s = {(n, rid). n < length (rl_calls s) \<and> pc_id (rl_calls s ! n) = Some rid \<and> pc_answer (rl_calls s ! n) = None}"

definition pending_calls :: "relay \<Rightarrow> (nat \<times> string) set" where
  "pending_calls s = (\<lambda>(rid, p). (pr_call p, rid)) ` set (rl_pending s)"

definition requests_ok :: "relay \<Rightarrow> bool" where
  "requests_ok s \<longleftrightarrow> distinct (map fst (rl_pending s)) \<and>
     waiting_calls s = pending_calls s \<union> set (rl_lost s) \<and> pending_calls s \<inter> set (rl_lost s) = {}"

definition one_each :: "string option list \<Rightarrow> bool" where
  "one_each xs \<longleftrightarrow> (\<forall>m < length xs. \<forall>n < length xs. xs ! m \<noteq> None \<longrightarrow> xs ! m = xs ! n \<longrightarrow> m = n)"

definition ids_ok :: "relay \<Rightarrow> bool" where
  "ids_ok s \<longleftrightarrow> one_each (map pc_id (rl_calls s))"

lemma one_each_snoc:
  assumes "one_each xs"
  shows "one_each (xs @ [None])"
  unfolding one_each_def
proof (intro allI impI)
  fix m n assume mn: "m < length (xs @ [None])" "n < length (xs @ [None])" "(xs @ [None]) ! m \<noteq> None" "(xs @ [None]) ! m = (xs @ [None]) ! n"
  have "k < length xs" if "(xs @ [None]) ! k \<noteq> None" "k < length (xs @ [None])" for k
    using that by (cases "k = length xs") simp_all
  then have "m < length xs" "n < length xs" using mn by metis+
  then show "m = n" using assms mn by (simp add: one_each_def nth_append)
qed

lemma one_each_update:
  assumes "one_each xs" and "Some i \<notin> set xs"
  shows "one_each (xs[n := Some i])"
  unfolding one_each_def
proof (intro allI impI)
  fix k l assume kl: "k < length (xs[n := Some i])" "l < length (xs[n := Some i])" "xs[n := Some i] ! k \<noteq> None" "xs[n := Some i] ! k = xs[n := Some i] ! l"
  have no: "xs ! m \<noteq> Some i" if "m < length xs" for m using assms(2) that by (metis nth_mem)
  show "k = l"
  proof (cases "k = n \<or> l = n")
    case True
    with kl no [of k] no [of l] show ?thesis by (auto simp: nth_list_update split: if_splits)
  next
    case False
    with kl assms(1) show ?thesis by (simp add: one_each_def)
  qed
qed

lemma waiting_one_id: "(n, i) \<in> waiting_calls s \<Longrightarrow> (n, j) \<in> waiting_calls s \<Longrightarrow> i = j"
  by (simp add: waiting_calls_def)

text \<open>What one answer changes.\<close>

lemma answer_call_simps [simp]:
  "rl_pending (answer_call n a s) = rl_pending s" "rl_lost (answer_call n a s) = rl_lost s" "rl_sockets (answer_call n a s) = rl_sockets s"
  "rl_secret (answer_call n a s) = rl_secret s" "rl_hostId (answer_call n a s) = rl_hostId s" "rl_sent (answer_call n a s) = rl_sent s"
  "length (rl_calls (answer_call n a s)) = length (rl_calls s)"
  by (simp_all add: answer_call_def)

lemma answer_call_nth: "m < length (rl_calls s) \<Longrightarrow>
    rl_calls (answer_call n a s) ! m = (if m = n then (rl_calls s ! m)\<lparr>pc_answer := Some a\<rparr> else rl_calls s ! m)"
  by (simp add: answer_call_def nth_list_update)

lemma answer_call_waiting: "waiting_calls (answer_call n a s) = {(m, i) \<in> waiting_calls s. m \<noteq> n}"
  by (auto simp: waiting_calls_def answer_call_nth split: if_splits)

lemma answer_call_ids: "map pc_id (rl_calls (answer_call n a s)) = map pc_id (rl_calls s)" "ids_ok (answer_call n a s) = ids_ok s"
proof -
  show "map pc_id (rl_calls (answer_call n a s)) = map pc_id (rl_calls s)"
    by (rule nth_equalityI) (auto simp: answer_call_nth)
  then show "ids_ok (answer_call n a s) = ids_ok s" by (simp add: ids_ok_def)
qed

lemma delete_pending_simps [simp]:
  "rl_lost (delete_pending rid s) = rl_lost s" "rl_calls (delete_pending rid s) = rl_calls s" "rl_sockets (delete_pending rid s) = rl_sockets s"
  "rl_secret (delete_pending rid s) = rl_secret s" "rl_hostId (delete_pending rid s) = rl_hostId s" "rl_sent (delete_pending rid s) = rl_sent s"
  by (auto simp: delete_pending_def)

lemma delete_pending_calls: "pending_calls (delete_pending rid s) = {(n, i) \<in> pending_calls s. i \<noteq> rid}"
  by (auto simp: pending_calls_def delete_pending_def)

lemma delete_distinct: "distinct (map fst (rl_pending s)) \<Longrightarrow> distinct (map fst (rl_pending (delete_pending rid s)))"
  by (simp add: delete_pending_def distinct_map_filter)

lemma same_waiting: "rl_calls s = rl_calls t \<Longrightarrow> waiting_calls s = waiting_calls t"
  "rl_pending s = rl_pending t \<Longrightarrow> pending_calls s = pending_calls t" "rl_calls s = rl_calls t \<Longrightarrow> ids_ok s = ids_ok t"
  by (simp_all add: waiting_calls_def pending_calls_def ids_ok_def)

lemma pending_entry:
  assumes "requests_ok s" and "map_of (rl_pending s) rid = Some p"
  shows "(pr_call p, rid) \<in> pending_calls s" "(pr_call p, rid) \<in> waiting_calls s" "(pr_call p, rid) \<notin> set (rl_lost s)"
    "{(n, i) \<in> pending_calls s. i \<noteq> rid} = pending_calls s - {(pr_call p, rid)}"
proof -
  show mem: "(pr_call p, rid) \<in> pending_calls s" using map_of_SomeD [OF assms(2)] by (force simp: pending_calls_def)
  then show "(pr_call p, rid) \<in> waiting_calls s" "(pr_call p, rid) \<notin> set (rl_lost s)" using assms(1) by (auto simp: requests_ok_def)
  have "n = pr_call p" if member: "(n, rid) \<in> pending_calls s" for n
  proof -
    obtain q where "(rid, q) \<in> set (rl_pending s)" "n = pr_call q" using member by (auto simp: pending_calls_def)
    moreover have "distinct (map fst (rl_pending s))" using assms(1) by (simp add: requests_ok_def)
    ultimately show ?thesis using eq_key_imp_eq_value [of "rl_pending s" rid] map_of_SomeD [OF assms(2)] by blast
  qed
  then show "{(n, i) \<in> pending_calls s. i \<noteq> rid} = pending_calls s - {(pr_call p, rid)}" by auto
qed

lemma table_answer:
  assumes ok: "requests_ok s" and p: "map_of (rl_pending s) rid = Some p"
  shows "requests_ok (answer_call (pr_call p) a (delete_pending rid s))"
proof -
  note e = pending_entry [OF ok p]
  have w: "waiting_calls (answer_call (pr_call p) a (delete_pending rid s)) = waiting_calls s - {(pr_call p, rid)}"
    unfolding answer_call_waiting same_waiting(1) [of "delete_pending rid s" s, OF delete_pending_simps(2)]
    using waiting_one_id e(2) by fastforce
  have q: "pending_calls (answer_call (pr_call p) a (delete_pending rid s)) = pending_calls s - {(pr_call p, rid)}"
    using same_waiting(2) [OF answer_call_simps(1)] delete_pending_calls e(4) by metis
  show ?thesis
    using ok e(3) delete_distinct [of s rid] unfolding requests_ok_def w q by auto
qed

lemma table_lost:
  assumes ok: "requests_ok s" and p: "map_of (rl_pending s) rid = Some p"
  shows "requests_ok ((delete_pending rid s)\<lparr>rl_lost := (pr_call p, rid) # rl_lost s\<rparr>)"
proof -
  note e = pending_entry [OF ok p]
  let ?t = "(delete_pending rid s)\<lparr>rl_lost := (pr_call p, rid) # rl_lost s\<rparr>"
  have w: "waiting_calls ?t = waiting_calls s" by (rule same_waiting(1)) simp
  have q: "pending_calls ?t = pending_calls s - {(pr_call p, rid)}"
    using same_waiting(2) [of ?t "delete_pending rid s"] delete_pending_calls e(4) by (simp add: delete_pending_def)
  show ?thesis using ok e(1) delete_distinct [of s rid] unfolding requests_ok_def w q by auto
qed

lemma fresh_id:
  assumes "requests_ok s" and "Some rid \<notin> pc_id ` set (rl_calls s)"
  shows "rid \<notin> fst ` set (rl_pending s)" "(n, rid) \<notin> waiting_calls s"
proof -
  show no: "(n, rid) \<notin> waiting_calls s" for n
    using assms(2) by (auto simp: waiting_calls_def) (metis imageI nth_mem)
  show "rid \<notin> fst ` set (rl_pending s)"
  proof
    assume "rid \<in> fst ` set (rl_pending s)"
    then obtain p where "(rid, p) \<in> set (rl_pending s)" by auto
    then have "(pr_call p, rid) \<in> pending_calls s" by (force simp: pending_calls_def)
    then show False using no assms(1) by (auto simp: requests_ok_def)
  qed
qed

lemma table_forward:
  assumes ok: "requests_ok s" and n: "n < length (rl_calls s)" "pc_id (rl_calls s ! n) = None" "pc_answer (rl_calls s ! n) = None"
    and fresh: "Some rid \<notin> pc_id ` set (rl_calls s)"
  shows "requests_ok (proxy_forward n body rid now taken s)"
proof (cases body)
  case (Inl e)
  have "(n, i) \<notin> waiting_calls s" for i using n by (simp add: waiting_calls_def)
  then have "waiting_calls (answer_call n a s) = waiting_calls s" for a unfolding answer_call_waiting by auto
  moreover have "pending_calls (answer_call n a s) = pending_calls s" for a by (rule same_waiting(2)) simp
  ultimately show ?thesis using ok Inl by (cases e) (simp add: proxy_forward_def requests_ok_def)
next
  case (Inr bytes)
  note f = fresh_id [OF ok fresh]
  let ?p = "\<lparr>pr_call = n, pr_deadline = now + REQUEST_TIMEOUT_MS\<rparr>"
  let ?s = "s\<lparr>rl_pending := map_set rid ?p (rl_pending s), rl_calls := (rl_calls s)[n := (rl_calls s ! n)\<lparr>pc_id := Some rid\<rparr>]\<rparr>"
  have d: "distinct (map fst (rl_pending s))" using ok by (simp add: requests_ok_def)
  have set: "set (map_set rid ?p (rl_pending s)) = insert (rid, ?p) (set (rl_pending s))"
    using set_map_set [OF d, of rid ?p] f(1) by force
  have w: "waiting_calls ?s = insert (n, rid) (waiting_calls s)"
    using n by (auto simp: waiting_calls_def nth_list_update split: if_splits)
  have q: "pending_calls ?s = insert (n, rid) (pending_calls s)" by (simp add: pending_calls_def set)
  have "(n, rid) \<notin> set (rl_lost s)" using f(2) ok by (auto simp: requests_ok_def)
  then have ok': "requests_ok ?s" using ok d w q unfolding requests_ok_def by simp
  have sent: "requests_ok (?s\<lparr>rl_sent := x\<rparr>)" for x using ok' by (simp add: requests_ok_def waiting_calls_def pending_calls_def)
  have "requests_ok (answer_call (pr_call ?p) a (delete_pending rid ?s))" for a
    by (rule table_answer [OF ok']) simp
  with sent show ?thesis by (simp add: proxy_forward_def Inr Let_def)
qed

lemma finish_calls:
  "waiting_calls (fold (\<lambda>(rid, p). answer_call (pr_call p) a) ps s) = {(n, i) \<in> waiting_calls s. n \<notin> (\<lambda>(rid, p). pr_call p) ` set ps} \<and>
   rl_lost (fold (\<lambda>(rid, p). answer_call (pr_call p) a) ps s) = rl_lost s \<and> ids_ok (fold (\<lambda>(rid, p). answer_call (pr_call p) a) ps s) = ids_ok s"
  by (induction ps arbitrary: s) (auto simp: answer_call_waiting answer_call_ids)

lemma table_finish:
  assumes ok: "requests_ok s"
  shows "requests_ok (finishPending message s)" "ids_ok (finishPending message s) = ids_ok s"
proof -
  have w: "waiting_calls (finishPending message s) = {(n, i) \<in> waiting_calls s. n \<notin> (\<lambda>(rid, p). pr_call p) ` set (rl_pending s)}"
    unfolding finishPending_def same_waiting(1) [of "t\<lparr>rl_pending := []\<rparr>" t for t, simplified]
    using finish_calls [of "error_response 503 message []" "rl_pending s" s] by simp
  show "ids_ok (finishPending message s) = ids_ok s"
    unfolding finishPending_def using finish_calls [of _ "rl_pending s" s] by (simp add: ids_ok_def)
  have "{(n, i) \<in> waiting_calls s. n \<notin> (\<lambda>(rid, p). pr_call p) ` set (rl_pending s)} = waiting_calls s - pending_calls s"
  proof -
    have "(n, i) \<in> pending_calls s" if "(n, i) \<in> waiting_calls s" "(rid, p) \<in> set (rl_pending s)" "n = pr_call p" for n i rid p
    proof -
      have "(n, rid) \<in> pending_calls s" using that(2,3) by (force simp: pending_calls_def)
      then show ?thesis using waiting_one_id [OF that(1)] ok by (auto simp: requests_ok_def)
    qed
    then show ?thesis by (fastforce simp: pending_calls_def)
  qed
  moreover have "rl_lost (finishPending message s) = rl_lost s" using finish_calls [of _ "rl_pending s" s] by (simp add: finishPending_def)
  moreover have "pending_calls (finishPending message s) = {}" "rl_pending (finishPending message s) = []" by (simp_all add: finishPending_def pending_calls_def)
  ultimately show "requests_ok (finishPending message s)" using ok w by (auto simp: requests_ok_def)
qed

section \<open>What every step keeps\<close>

definition sockets_ok :: "relay \<Rightarrow> bool" where
  "sockets_ok s \<longleftrightarrow> (\<forall>m < length (rl_sockets s). \<forall>n < length (rl_sockets s). rl_sockets s ! m \<longrightarrow> rl_sockets s ! n \<longrightarrow> m = n)"

definition call_ok :: "proxy_call \<Rightarrow> bool" where
  "call_ok c \<longleftrightarrow> pc_method c \<in> set PROXY_METHODS \<and> take 17 (pc_path c) = HOST_PREFIX \<and> length (pc_path c) \<le> 2048 \<and>
     length (pc_headers c) \<le> 3 \<and> (\<forall>(k, v) \<in> set (pc_headers c). k \<in> set REQUEST_HEADERS \<and> v \<noteq> [])"

text \<open>A sent frame is the frame of the call with its identifier.\<close>

definition sent_ok :: "relay \<Rightarrow> bool" where
  "sent_ok s \<longleftrightarrow> (\<forall>(socket, f) \<in> set (rl_sent s). \<exists>c \<in> set (rl_calls s). \<exists>body. pc_id c = Some (rr_id f) \<and> pc_socket c = socket \<and>
     f = relayed_frame (rr_id f) body c)"

definition relay_inv :: "relay \<Rightarrow> bool" where
  "relay_inv s \<longleftrightarrow> requests_ok s \<and> ids_ok s \<and> sockets_ok s \<and> (\<forall>c \<in> set (rl_calls s). call_ok c) \<and> sent_ok s"

text \<open>Calls change in their identifiers and answers only; what is unchanged in a step keeps its part of the invariant.\<close>

definition same_call :: "proxy_call \<Rightarrow> proxy_call \<Rightarrow> bool" where
  "same_call c d \<longleftrightarrow> pc_method d = pc_method c \<and> pc_path d = pc_path c \<and> pc_headers d = pc_headers c \<and> pc_socket d = pc_socket c \<and>
     (pc_id c \<noteq> None \<longrightarrow> pc_id d = pc_id c)"

definition calls_kept :: "relay \<Rightarrow> relay \<Rightarrow> bool" where
  "calls_kept s t \<longleftrightarrow> list_all2 same_call (rl_calls s) (rl_calls t)"

lemma calls_kept_refl: "rl_calls t = rl_calls s \<Longrightarrow> calls_kept s t"
  by (simp add: calls_kept_def list_all2_refl same_call_def)

lemma same_call_trans: "same_call a b \<Longrightarrow> same_call b c \<Longrightarrow> same_call a c"
  by (auto simp: same_call_def)

lemma calls_kept_trans: "calls_kept s t \<Longrightarrow> calls_kept t u \<Longrightarrow> calls_kept s u"
  unfolding calls_kept_def by (rule list_all2_trans [where ?P1.0 = same_call and ?P2.0 = same_call]) (auto intro: same_call_trans)

lemma calls_kept_answer: "calls_kept s (answer_call n a s)"
  by (auto simp: calls_kept_def list_all2_conv_all_nth answer_call_nth same_call_def)

lemma calls_kept_call_ok: "calls_kept s t \<Longrightarrow> \<forall>c \<in> set (rl_calls s). call_ok c \<Longrightarrow> \<forall>c \<in> set (rl_calls t). call_ok c"
  by (auto simp: calls_kept_def list_all2_conv_all_nth same_call_def call_ok_def all_set_conv_all_nth)

lemma calls_kept_sent_ok:
  assumes kept: "calls_kept s t" and ok: "sent_ok s" and same: "rl_sent t = rl_sent s"
  shows "sent_ok t"
  unfolding sent_ok_def same
proof (clarify)
  fix socket f assume "(socket, f) \<in> set (rl_sent s)"
  with ok obtain c body where c: "c \<in> set (rl_calls s)" "pc_id c = Some (rr_id f)" "pc_socket c = socket" "f = relayed_frame (rr_id f) body c"
    by (fastforce simp: sent_ok_def)
  then obtain n where n: "n < length (rl_calls s)" "rl_calls s ! n = c" by (auto simp: in_set_conv_nth)
  let ?d = "rl_calls t ! n"
  have "same_call c ?d" "n < length (rl_calls t)" using kept n by (auto simp: calls_kept_def list_all2_conv_all_nth)
  moreover from this have "relayed_frame (rr_id f) body ?d = f"
    using c(4) by (metis (no_types, lifting) relayed_frame_def same_call_def)
  ultimately show "\<exists>c \<in> set (rl_calls t). \<exists>body. pc_id c = Some (rr_id f) \<and> pc_socket c = socket \<and> f = relayed_frame (rr_id f) body c"
    using c by (intro bexI [of _ ?d] exI [of _ body]) (auto simp: same_call_def)
qed

lemma close_socket_simps [simp]:
  "rl_pending (close_socket n s) = rl_pending s" "rl_lost (close_socket n s) = rl_lost s" "rl_calls (close_socket n s) = rl_calls s"
  "rl_sent (close_socket n s) = rl_sent s" "rl_secret (close_socket n s) = rl_secret s" "rl_hostId (close_socket n s) = rl_hostId s"
  by (simp_all add: close_socket_def)

lemma sockets_close: "sockets_ok s \<Longrightarrow> sockets_ok (close_socket n s)"
proof -
  have "(rl_sockets s)[n := False] ! m \<Longrightarrow> m < length (rl_sockets s) \<Longrightarrow> rl_sockets s ! m" for m
    by (cases "m = n") auto
  then show "sockets_ok s \<Longrightarrow> sockets_ok (close_socket n s)" by (simp add: sockets_ok_def close_socket_def)
qed

text \<open>The parts of the invariant that do not read the sockets, the secret, the host or its code.\<close>

lemma inv_same:
  assumes "relay_inv s" and "rl_pending t = rl_pending s" "rl_lost t = rl_lost s" "rl_calls t = rl_calls s" "rl_sent t = rl_sent s" "sockets_ok t"
  shows "relay_inv t"
  using assms by (simp add: relay_inv_def requests_ok_def ids_ok_def sent_ok_def waiting_calls_def pending_calls_def)

lemma inv_kept:
  assumes "relay_inv s" and "requests_ok t" "ids_ok t" "calls_kept s t" "rl_sent t = rl_sent s" "rl_sockets t = rl_sockets s"
  shows "relay_inv t"
  using assms calls_kept_call_ok [OF assms(4)] calls_kept_sent_ok [OF assms(4) _ assms(5)] by (simp add: relay_inv_def sockets_ok_def)

lemma inv_answer:
  assumes "relay_inv s" and "map_of (rl_pending s) rid = Some p"
  shows "relay_inv (answer_call (pr_call p) a (delete_pending rid s))"
proof (rule inv_kept [OF assms(1)])
  show "requests_ok (answer_call (pr_call p) a (delete_pending rid s))" using table_answer assms by (simp add: relay_inv_def)
  show "ids_ok (answer_call (pr_call p) a (delete_pending rid s))" using assms(1) by (simp add: answer_call_ids relay_inv_def ids_ok_def)
  show "calls_kept s (answer_call (pr_call p) a (delete_pending rid s))"
    using calls_kept_answer [of "delete_pending rid s"] by (simp add: calls_kept_def)
qed simp_all

lemma identify_same:
  "rl_pending (snd (identify sha256 rq b s)) = rl_pending s" "rl_lost (snd (identify sha256 rq b s)) = rl_lost s"
  "rl_calls (snd (identify sha256 rq b s)) = rl_calls s" "rl_sent (snd (identify sha256 rq b s)) = rl_sent s"
  "rl_sockets (snd (identify sha256 rq b s)) = rl_sockets s" "rl_code (snd (identify sha256 rq b s)) = rl_code s"
  by (auto simp: identify_def authenticateHost_def recordHostId_def Let_def split: option.splits prod.splits)

lemma inv_connect:
  assumes "relay_inv s"
  shows "relay_inv (snd (connect sha256 rq s))"
proof -
  obtain e s' where i: "identify sha256 rq True s = (e, s')" by fastforce
  note same = identify_same [of sha256 rq True s, unfolded i snd_conv]
  have old: "sockets_ok s'" using assms same(5) by (simp add: relay_inv_def sockets_ok_def)
  have new: "sockets_ok (s'\<lparr>rl_sockets := map (\<lambda>_. False) (rl_sockets s') @ [True]\<rparr>)"
    by (auto simp: sockets_ok_def nth_append split: if_splits)
  show ?thesis
    using inv_same [OF assms same(1-4)] old inv_same [OF assms, of "s'\<lparr>rl_sockets := map (\<lambda>_. False) (rl_sockets s') @ [True]\<rparr>"] same new assms
    by (auto simp: connect_def i split: option.splits)
qed

lemma inv_code:
  assumes "relay_inv s"
  shows "relay_inv (snd (connect_code_begin sha256 rq s))"
proof -
  obtain e s' where i: "identify sha256 rq False s = (e, s')" by fastforce
  note same = identify_same [of sha256 rq False s, unfolded i snd_conv]
  have "sockets_ok s'" using assms same(5) by (simp add: relay_inv_def sockets_ok_def)
  then have "relay_inv s'" "relay_inv (s'\<lparr>rl_code := None\<rparr>)"
    using inv_same [OF assms same(1-4)] inv_same [OF assms, of "s'\<lparr>rl_code := None\<rparr>"] same by (simp_all add: sockets_ok_def)
  then show ?thesis by (auto simp: connect_code_begin_def i Let_def split: option.splits)
qed

lemma forwarded_ok: "length (forwardedRequestHeaders hs) \<le> 3 \<and> (\<forall>(k, v) \<in> set (forwardedRequestHeaders hs). k \<in> set REQUEST_HEADERS \<and> v \<noteq> [])"
  using forwarded_length [of hs] by (auto simp: forwarded_member)

lemma proxy_begin_result: "snd (proxy_begin rq s) = s \<or> (\<exists>c. snd (proxy_begin rq s) = s\<lparr>rl_calls := rl_calls s @ [c]\<rparr> \<and>
    pc_id c = None \<and> pc_answer c = None \<and> call_ok c)"
proof (cases "connectedHost s")
  case None
  then show ?thesis by (simp add: proxy_begin_def)
next
  case (Some host)
  define path where "path = (case map_of (hq_headers rq) ''x-polymux-proxy-path'' of Some v \<Rightarrow> v | None \<Rightarrow> [])"
  define c where "c = \<lparr>pc_method = hq_method rq, pc_path = path, pc_headers = forwardedRequestHeaders (hq_headers rq), pc_socket = host,
    pc_id = None, pc_answer = None\<rparr>"
  show ?thesis
  proof (cases "MAX_ACTIVE_REQUESTS \<le> length (rl_pending s) \<or> hq_method rq \<notin> set PROXY_METHODS \<or> take 17 path \<noteq> HOST_PREFIX \<or> 2048 < length path")
    case True
    then have "snd (proxy_begin rq s) = s" unfolding proxy_begin_def Some path_def [symmetric] Let_def by auto
    then show ?thesis ..
  next
    case False
    then have "snd (proxy_begin rq s) = s\<lparr>rl_calls := rl_calls s @ [c]\<rparr>"
      unfolding proxy_begin_def Some path_def [symmetric] Let_def c_def by simp
    moreover have "pc_id c = None \<and> pc_answer c = None \<and> call_ok c" using False forwarded_ok by (simp add: call_ok_def c_def)
    ultimately show ?thesis by blast
  qed
qed

lemma inv_proxy:
  assumes "relay_inv s"
  shows "relay_inv (snd (proxy_begin rq s))"
  using proxy_begin_result [of rq s]
proof (elim disjE exE conjE)
  fix c assume c: "snd (proxy_begin rq s) = s\<lparr>rl_calls := rl_calls s @ [c]\<rparr>" "pc_id c = None" "pc_answer c = None" "call_ok c"
  let ?t = "s\<lparr>rl_calls := rl_calls s @ [c]\<rparr>"
  have w: "waiting_calls ?t = waiting_calls s" using c by (auto simp: waiting_calls_def nth_append less_Suc_eq)
  have q: "pending_calls ?t = pending_calls s" by (simp add: pending_calls_def)
  have i: "ids_ok ?t" using assms c(2) one_each_snoc by (simp add: relay_inv_def ids_ok_def)
  have "sent_ok ?t" using assms by (fastforce simp: relay_inv_def sent_ok_def)
  then show ?thesis
    unfolding c(1) using assms w q i c(4) by (simp add: relay_inv_def requests_ok_def sockets_ok_def)
qed (use assms in simp)

lemma inv_forward:
  assumes inv: "relay_inv s" and n: "n < length (rl_calls s)" "pc_id (rl_calls s ! n) = None" "pc_answer (rl_calls s ! n) = None"
    and fresh: "Some rid \<notin> pc_id ` set (rl_calls s)"
  shows "relay_inv (proxy_forward n body rid now taken s)"
proof -
  let ?t = "proxy_forward n body rid now taken s"
  let ?calls = "(rl_calls s)[n := (rl_calls s ! n)\<lparr>pc_id := Some rid\<rparr>]"
  have table: "requests_ok ?t" using inv table_forward [OF _ n fresh] by (simp add: relay_inv_def)
  have map: "map pc_id ?calls = (map pc_id (rl_calls s))[n := Some rid]" using n(1) by (simp add: map_update)
  have one: "one_each ((map pc_id (rl_calls s))[n := Some rid])"
  proof (rule one_each_update)
    show "one_each (map pc_id (rl_calls s))" using inv by (simp add: relay_inv_def ids_ok_def)
    show "Some rid \<notin> set (map pc_id (rl_calls s))" using fresh by simp
  qed
  have kept: "list_all2 same_call (rl_calls s) ?calls"
    using n by (auto simp: list_all2_conv_all_nth nth_list_update same_call_def)
  show ?thesis
  proof (cases body)
    case (Inl e)
    obtain status message where e: "e = (status, message)" by fastforce
    then have t: "?t = answer_call n (error_response status message []) s" by (simp add: proxy_forward_def Inl)
    have "ids_ok (answer_call n a s)" for a using inv by (simp add: answer_call_ids relay_inv_def)
    then show ?thesis using inv_kept [OF inv table] calls_kept_answer unfolding t by simp
  next
    case (Inr bytes)
    let ?s = "s\<lparr>rl_pending := map_set rid \<lparr>pr_call = n, pr_deadline = now + REQUEST_TIMEOUT_MS\<rparr> (rl_pending s), rl_calls := ?calls\<rparr>"
    have s: "ids_ok ?s" "calls_kept s ?s" using map one kept by (simp_all add: ids_ok_def calls_kept_def)
    show ?thesis
    proof (cases taken)
      case False
      then have t: "?t = answer_call n (error_response 503 ''The Polymux Host disconnected.'' []) (delete_pending rid ?s)"
        by (simp add: proxy_forward_def Inr Let_def)
      have "calls_kept s (delete_pending rid ?s)" using s(2) by (simp add: calls_kept_def)
      then have "calls_kept s ?t" unfolding t by (rule calls_kept_trans) (rule calls_kept_answer)
      moreover have "ids_ok ?t" unfolding t using s(1) by (simp add: answer_call_ids ids_ok_def)
      ultimately show ?thesis using table by (intro inv_kept [OF inv]) (simp_all add: t)
    next
      case True
      let ?f = "relayed_frame rid bytes (rl_calls s ! n)"
      have t: "?t = ?s\<lparr>rl_sent := rl_sent s @ [(pc_socket (rl_calls s ! n), ?f)]\<rparr>" using True by (simp add: proxy_forward_def Inr Let_def)
      have ok: "sent_ok ?s" using calls_kept_sent_ok [OF s(2)] inv by (simp add: relay_inv_def)
      have "(rl_calls s ! n)\<lparr>pc_id := Some rid\<rparr> \<in> set ?calls" using n(1) by (simp add: set_update_memI)
      then have "\<exists>c \<in> set ?calls. \<exists>body. pc_id c = Some (rr_id ?f) \<and> pc_socket c = pc_socket (rl_calls s ! n) \<and> ?f = relayed_frame (rr_id ?f) body c"
        by (intro bexI [of _ "(rl_calls s ! n)\<lparr>pc_id := Some rid\<rparr>"] exI [of _ bytes]) (simp_all add: relayed_frame_def)
      then have "sent_ok ?t" unfolding t using ok by (auto simp: sent_ok_def)
      moreover have "ids_ok ?t" "calls_kept s ?t" unfolding t using s by (simp_all add: ids_ok_def calls_kept_def)
      ultimately show ?thesis
        using table inv calls_kept_call_ok [of s ?t] unfolding relay_inv_def by (simp add: t sockets_ok_def)
    qed
  qed
qed

lemma inv_message:
  assumes "relay_inv s"
  shows "relay_inv (webSocketMessage socket message s)"
proof -
  have closed: "relay_inv (close_socket socket s)"
    using assms sockets_close [of s socket] by (intro inv_same [OF assms]) (simp_all add: relay_inv_def)
  have lost: "relay_inv ((delete_pending rid s)\<lparr>rl_lost := (pr_call p, rid) # rl_lost s\<rparr>)" if "map_of (rl_pending s) rid = Some p" for rid p
    using table_lost [OF _ that] assms by (intro inv_kept [OF assms]) (auto simp: relay_inv_def ids_ok_def intro: calls_kept_refl)
  show ?thesis
    using assms closed lost inv_answer [OF assms]
    unfolding webSocketMessage_def Let_def by (auto split: socket_message.splits option.splits)
qed

lemma finish_kept: "calls_kept s (fold (\<lambda>(rid, p). answer_call (pr_call p) a) ps s) \<and> rl_sent (fold (\<lambda>(rid, p). answer_call (pr_call p) a) ps s) = rl_sent s \<and>
    rl_sockets (fold (\<lambda>(rid, p). answer_call (pr_call p) a) ps s) = rl_sockets s"
  by (induction ps arbitrary: s) (auto intro: calls_kept_refl calls_kept_trans calls_kept_answer)

lemma inv_finish:
  assumes "relay_inv s"
  shows "relay_inv (finishPending message s)"
proof (rule inv_kept [OF assms])
  show "requests_ok (finishPending message s)" "ids_ok (finishPending message s)" using assms table_finish by (simp_all add: relay_inv_def)
  show "calls_kept s (finishPending message s)" "rl_sent (finishPending message s) = rl_sent s" "rl_sockets (finishPending message s) = rl_sockets s"
    using finish_kept [of s "error_response 503 message []" "rl_pending s"] by (simp_all add: finishPending_def calls_kept_def)
qed

lemma inv_gone:
  assumes "relay_inv s"
  shows "relay_inv (socket_gone socket message s)"
proof -
  have "relay_inv (close_socket socket s)"
    using assms sockets_close [of s socket] by (intro inv_same [OF assms]) (simp_all add: relay_inv_def)
  then show ?thesis using inv_finish by (simp add: socket_gone_def Let_def)
qed

lemma step_inv: "relay_step sha256 s t \<Longrightarrow> relay_inv s \<Longrightarrow> relay_inv t"
proof (induction rule: relay_step.induct)
  case (step_timeout s rid p now)
  then show ?case using inv_answer by (simp add: request_timeout_def)
next
  case (step_code_stored s registration)
  then show ?case by (intro inv_same [OF step_code_stored]) (simp_all add: relay_inv_def sockets_ok_def)
qed (auto intro: inv_connect inv_code inv_proxy inv_forward inv_message inv_gone)

lemma reachable_relay_inv: "relay_reachable sha256 s \<Longrightarrow> relay_inv s"
  unfolding relay_reachable_def
proof (induction rule: rtranclp_induct)
  case base
  show ?case by (simp add: relay_inv_def new_relay_def requests_ok_def waiting_calls_def pending_calls_def ids_ok_def one_each_def sockets_ok_def sent_ok_def)
qed (rule step_inv)

end
