(* ===== verification/TeamRelay.thy ===== *)
theory TeamRelay
  imports RelayHost
begin

text \<open>
  \<open>TeamHostRelay\<close> of \<^verbatim>\<open>apps/desktop/src/main/team/host-relay.ts\<close>: the host's end of the socket.  It keeps a
  connection to the relay, publishes the connect code, and passes each request to the host's own server.  That server, the
  resolution of addresses and the socket are the platform's and parameters.
\<close>

section \<open>Messages\<close>

datatype host_action = CloseSocket nat | Forward relay_request

definition host_message :: "socket_message \<Rightarrow> host_action" where
  "host_message message = (case message of
     Binary \<Rightarrow> CloseSocket 1003
   | Text None \<Rightarrow> CloseSocket 1007
   | Text (Some v) \<Rightarrow>
       if \<not> isHostRelayRequest v \<or> maximumBase64Length MAX_BODY_BYTES < length (rr_body64 (read_request_frame v))
       then CloseSocket 1007 else Forward (read_request_frame v))"

text \<open>\<open>Buffer.from\<close> of base64: what is no character of either alphabet is skipped.\<close>

definition buffer_from64 :: "string \<Rightarrow> string" where
  "buffer_from64 v = b64_bytes (List.map_filter
     (\<lambda>c. if c = CHR ''-'' then Some 62 else if c = CHR ''_'' then Some 63 else b64_value c) v)"

record local_request =
  lq_method :: string
  lq_path :: string
  lq_headers :: headers
  lq_body :: "string option"

text \<open>The headers set on the local request; \<open>None\<close> is the error of a value that is no header value.\<close>

definition local_headers :: "headers \<Rightarrow> headers option" where
  "local_headers source = fold (set_if_value source) REQUEST_HEADERS (Some [])"

text \<open>\<open>#forward\<close> up to \<open>fetch\<close>; \<open>resolve\<close> is the origin and path of an address below the local endpoint.\<close>

definition forward_request :: "(string \<Rightarrow> (string \<times> string) option) \<Rightarrow> string \<Rightarrow> relay_request \<Rightarrow> local_request option" where
  "forward_request resolve local_origin r = (case resolve (rr_path r) of
     None \<Rightarrow> None
   | Some (origin, pathname) \<Rightarrow>
       if origin \<noteq> local_origin \<or> take 17 pathname \<noteq> HOST_PREFIX then None
       else map_option (\<lambda>hs. \<lparr>lq_method = rr_method r, lq_path = rr_path r, lq_headers = hs,
           lq_body = (if rr_method r = ''GET'' \<or> rr_method r = ''OPTIONS'' then None else Some (buffer_from64 (rr_body64 r)))\<rparr>)
         (local_headers (rr_headers r)))"

record local_response =
  lp_status :: nat
  lp_headers :: headers
  lp_chunks :: "string list"

definition readBoundedResponse :: "string list \<Rightarrow> nat \<Rightarrow> string option" where
  "readBoundedResponse chunks maximum = map_option concat (read_chunks maximum 0 chunks)"

definition responseHeaders :: "headers \<Rightarrow> headers" where
  "responseHeaders source = fold (copyHeader source) RESPONSE_HEADERS []"

definition forward_answer :: "string \<Rightarrow> local_response \<Rightarrow> relay_response option" where
  "forward_answer rid p = map_option (\<lambda>body. \<lparr>rp_id = rid, rp_status = lp_status p, rp_headers = responseHeaders (lp_headers p),
     rp_body64 = btoa body\<rparr>) (readBoundedResponse (lp_chunks p) MAX_BODY_BYTES)"

definition send_error :: "string \<Rightarrow> relay_response" where
  "send_error rid = \<lparr>rp_id = rid, rp_status = 502, rp_headers = [(''content-type'', ''application/json; charset=utf-8'')],
     rp_body64 = btoa ''{\"error\":\"Polymux Host could not handle the relayed request.\"}''\<rparr>"

text \<open>The frame a request leads to: an answer of the local server, \<open>None\<close> where it gave none, or the error.\<close>

definition host_reply :: "(string \<Rightarrow> (string \<times> string) option) \<Rightarrow> string \<Rightarrow> (local_request \<Rightarrow> local_response option) \<Rightarrow> relay_request \<Rightarrow> relay_response" where
  "host_reply resolve local_origin server r =
     (case Option.bind (Option.bind (forward_request resolve local_origin r) server) (forward_answer (rr_id r)) of
        Some p \<Rightarrow> p | None \<Rightarrow> send_error (rr_id r))"

section \<open>The connect code\<close>

type_synonym registration = "string \<times> int"

definition updateConnectCode :: "string option \<Rightarrow> rat option \<Rightarrow> int \<Rightarrow> (string, registration option) result" where
  "updateConnectCode code expiresAt now = (case code of
     None \<Rightarrow> Inr None
   | Some c \<Rightarrow>
       let pairing = normalizeHostPairingCode c in
       (case expiresAt of
          Some e \<Rightarrow> if \<not> HOST_PAIRING_CODE pairing \<or> e \<noteq> of_int \<lfloor>e\<rfloor> \<or> e = 0 \<or> e \<le> of_int now
            then Inl ''The Polymux connect code is invalid or expired'' else Inr (Some (pairing, \<lfloor>e\<rfloor>))
        | None \<Rightarrow> Inl ''The Polymux connect code is invalid or expired''))"

text \<open>What \<open>#publishConnectCode\<close> sends: the method and the body.\<close>

definition publish_request :: "registration option \<Rightarrow> string \<times> json option" where
  "publish_request r = (case r of
     None \<Rightarrow> (''DELETE'', None)
   | Some (c, e) \<Rightarrow> (''PUT'', Some (JObj [(''code'', JStr c), (''expiresAt'', JNum (of_int e))])))"

definition publish_result :: "http_response \<Rightarrow> (string, bool) result" where
  "publish_result response =
     (if hs_status response = 409 then Inr False
      else if 200 \<le> hs_status response \<and> hs_status response \<le> 299 then Inr True
      else case hs_body response of
        JsonContent v \<Rightarrow> (case prop_of v ''error'' of Some (JStr e) \<Rightarrow> Inl e
          | _ \<Rightarrow> Inl (''Polymux Connect returned '' @ show_nat (hs_status response)))
      | _ \<Rightarrow> Inl (''Polymux Connect returned '' @ show_nat (hs_status response)))"

section \<open>Keeping the connection\<close>

definition RECONNECT_MS :: nat where "RECONNECT_MS = 2000"
definition MAX_RECONNECT_MS :: nat where "MAX_RECONNECT_MS = 30000"

text \<open>The calls of \<open>#connect\<close> under way: finding the endpoint, opening the socket, or with the socket open.\<close>

datatype link = Discovering | Opening | Opened

record team_relay =
  tr_started :: bool
  tr_closed :: bool
  tr_timer :: "nat option"  \<comment> \<open>the delay the reconnect timer was set to\<close>
  tr_delay :: nat
  tr_links :: "link list"

definition new_team_relay :: team_relay where
  "new_team_relay = \<lparr>tr_started = False, tr_closed = False, tr_timer = None, tr_delay = RECONNECT_MS, tr_links = []\<rparr>"

definition scheduleReconnect :: "team_relay \<Rightarrow> team_relay" where
  "scheduleReconnect s =
     (if tr_closed s \<or> tr_timer s \<noteq> None then s
      else s\<lparr>tr_timer := Some (tr_delay s), tr_delay := min MAX_RECONNECT_MS (tr_delay s * 2)\<rparr>)"

definition drop_link :: "nat \<Rightarrow> team_relay \<Rightarrow> team_relay" where
  "drop_link n s = s\<lparr>tr_links := take n (tr_links s) @ drop (Suc n) (tr_links s)\<rparr>"

definition link_begin :: "team_relay \<Rightarrow> team_relay" where
  "link_begin s = (if tr_closed s then s else s\<lparr>tr_links := tr_links s @ [Discovering]\<rparr>)"

definition team_start :: "team_relay \<Rightarrow> team_relay" where
  "team_start s = link_begin (s\<lparr>tr_started := True, tr_closed := False\<rparr>)"

definition link_discovered :: "nat \<Rightarrow> team_relay \<Rightarrow> team_relay" where
  "link_discovered n s = (if tr_closed s then drop_link n s else s\<lparr>tr_links := (tr_links s)[n := Opening]\<rparr>)"

definition link_opened :: "nat \<Rightarrow> team_relay \<Rightarrow> team_relay" where
  "link_opened n s = s\<lparr>tr_links := (tr_links s)[n := Opened], tr_delay := RECONNECT_MS\<rparr>"

text \<open>A failed discovery, or the end of a socket.\<close>

definition link_ended :: "nat \<Rightarrow> team_relay \<Rightarrow> team_relay" where
  "link_ended n s = scheduleReconnect (drop_link n s)"

definition reconnect :: "team_relay \<Rightarrow> team_relay" where
  "reconnect s = link_begin (s\<lparr>tr_timer := None\<rparr>)"

definition team_close :: "team_relay \<Rightarrow> team_relay" where
  "team_close s = s\<lparr>tr_closed := True, tr_timer := None\<rparr>"

text \<open>The server that owns a relay starts it once; an opening that fails ends with the socket's close event.\<close>

inductive team_step :: "team_relay \<Rightarrow> team_relay \<Rightarrow> bool" where
  team_starts: "\<not> tr_started s \<Longrightarrow> team_step s (team_start s)"
| team_discovered: "n < length (tr_links s) \<Longrightarrow> tr_links s ! n = Discovering \<Longrightarrow> team_step s (link_discovered n s)"
| team_opened: "n < length (tr_links s) \<Longrightarrow> tr_links s ! n = Opening \<Longrightarrow> team_step s (link_opened n s)"
| team_ended: "n < length (tr_links s) \<Longrightarrow> team_step s (link_ended n s)"
| team_timer: "tr_timer s \<noteq> None \<Longrightarrow> team_step s (reconnect s)"
| team_closes: "tr_started s \<Longrightarrow> team_step s (team_close s)"

definition delay_ok :: "nat \<Rightarrow> bool" where
  "delay_ok d \<longleftrightarrow> d \<in> {2000, 4000, 8000, 16000, 30000}"

definition team_inv :: "team_relay \<Rightarrow> bool" where
  "team_inv s \<longleftrightarrow> (tr_closed s \<longrightarrow> tr_timer s = None \<and> tr_started s) \<and>
     (if tr_started s \<and> \<not> tr_closed s then length (tr_links s) + (if tr_timer s = None then 0 else 1) = 1
      else length (tr_links s) \<le> 1 \<and> tr_timer s = None \<and> (\<not> tr_started s \<longrightarrow> tr_links s = [])) \<and>
     delay_ok (tr_delay s) \<and> (\<forall>d. tr_timer s = Some d \<longrightarrow> delay_ok d)"

lemma drop_link_length: "n < length (tr_links s) \<Longrightarrow> length (tr_links (drop_link n s)) = length (tr_links s) - 1"
  by (simp add: drop_link_def)

lemma drop_link_simps [simp]: "tr_started (drop_link n s) = tr_started s" "tr_closed (drop_link n s) = tr_closed s"
  "tr_timer (drop_link n s) = tr_timer s" "tr_delay (drop_link n s) = tr_delay s"
  by (simp_all add: drop_link_def)

lemma delay_doubles: "delay_ok d \<Longrightarrow> delay_ok (min MAX_RECONNECT_MS (d * 2))"
  by (auto simp: delay_ok_def MAX_RECONNECT_MS_def)

lemma team_step_inv: "team_step s t \<Longrightarrow> team_inv s \<Longrightarrow> team_inv t"
proof (induction rule: team_step.induct)
  case (team_starts s)
  then show ?case by (simp add: team_inv_def team_start_def link_begin_def)
next
  case (team_discovered n s)
  then show ?case using drop_link_length [of n s] by (auto simp: team_inv_def link_discovered_def split: if_splits)
next
  case (team_opened n s)
  then show ?case by (auto simp: team_inv_def link_opened_def delay_ok_def RECONNECT_MS_def split: if_splits)
next
  case (team_ended n s)
  then show ?case using drop_link_length [of n s] delay_doubles [of "tr_delay s"]
    by (auto simp: team_inv_def link_ended_def scheduleReconnect_def split: if_splits)
next
  case (team_timer s)
  then show ?case by (auto simp: team_inv_def reconnect_def link_begin_def split: if_splits)
next
  case (team_closes s)
  then show ?case by (auto simp: team_inv_def team_close_def split: if_splits)
qed

lemma team_reachable_inv: "team_step\<^sup>*\<^sup>* new_team_relay s \<Longrightarrow> team_inv s"
proof (induction rule: rtranclp_induct)
  case base
  show ?case by (simp add: team_inv_def new_team_relay_def delay_ok_def RECONNECT_MS_def)
qed (rule team_step_inv)



section \<open>Frames pass both ends\<close>

lemma buffer_btoa [simp]: "buffer_from64 (btoa s) = s"
proof -
  define f where "f = (\<lambda>c. if c = CHR ''-'' then Some 62 else if c = CHR ''_'' then Some 63 else b64_value c)"
  have no: "b64_value CHR ''-'' = None" "b64_value CHR ''_'' = None" "b64_value CHR ''='' = None" by (simp_all add: b64_value_def char_code_def)
  have f: "f (b64_char n) = Some n" if "n < 64" for n using b64_char_value(1) [OF that] no by (auto simp: f_def)
  have "List.map_filter f (map b64_char ns) = ns" if "list_all (\<lambda>n. n < 64) ns" for ns
    using that f by (induction ns) (simp_all add: List.map_filter_simps)
  moreover have "List.map_filter f (replicate k CHR ''='') = []" for k
    using no by (induction k) (simp_all add: List.map_filter_simps f_def)
  moreover have "List.map_filter f (xs @ ys) = List.map_filter f xs @ List.map_filter f ys" for xs ys by (simp add: List.map_filter_def)
  ultimately have "List.map_filter f (btoa s) = b64_plain s" using plain_small by (simp add: btoa_split list_all_iff)
  then show ?thesis by (simp add: buffer_from64_def f_def [symmetric] plain_bytes)
qed

definition short_headers :: "headers \<Rightarrow> bool" where
  "short_headers hs \<longleftrightarrow> list_all (\<lambda>(k, v). length v \<le> 8192) hs"

lemma string_object_ok:
  assumes "length hs \<le> 24" and "list_all (\<lambda>(k, v). length k \<le> 120) hs"
  shows "stringRecord (Some (string_object hs)) \<longleftrightarrow> short_headers hs"
  using assms by (auto simp: stringRecord_def string_object_def short_headers_def list_all_iff)

lemma request_names_short: "k \<in> set REQUEST_HEADERS \<Longrightarrow> length k \<le> 120"
  by (auto simp: REQUEST_HEADERS_def)

lemma response_names_short: "k \<in> set RESPONSE_HEADERS \<Longrightarrow> length k \<le> 120"
  by (auto simp: RESPONSE_HEADERS_def)

lemma methods_json: "m \<in> set PROXY_METHODS \<Longrightarrow> Some (JStr m) \<in> {Some (JStr ''GET''), Some (JStr ''POST''), Some (JStr ''OPTIONS'')}"
  by (auto simp: PROXY_METHODS_def)

text \<open>The frame of a call is let through by the host exactly when its headers are short.\<close>

lemma request_frame_ok:
  assumes c: "call_ok c" and rid: "rid \<noteq> []" "length rid \<le> 120" and body: "length body \<le> MAX_BODY_BYTES"
  shows "host_message (Text (Some (request_frame (relayed_frame rid body c)))) =
    (if short_headers (pc_headers c) then Forward (relayed_frame rid body c) else CloseSocket 1007)"
proof -
  let ?f = "relayed_frame rid body c"
  have "list_all (\<lambda>(k, v). length k \<le> 120) (pc_headers c)" "length (pc_headers c) \<le> 24"
    using c request_names_short by (auto simp: call_ok_def list_all_iff)
  then have "stringRecord (Some (string_object (pc_headers c))) \<longleftrightarrow> short_headers (pc_headers c)" by (rule string_object_ok [rotated])
  then have valid: "isHostRelayRequest (request_frame ?f) \<longleftrightarrow> short_headers (pc_headers c)"
    using c rid methods_json [of "pc_method c"]
    by (simp add: isHostRelayRequest_def request_frame_def relayed_frame_def shortId_def string_field_def call_ok_def HOST_PREFIX_def del: insert_iff)
  have "length (rr_body64 ?f) \<le> maximumBase64Length MAX_BODY_BYTES" using body maximum_mono by (simp add: relayed_frame_def)
  then show ?thesis using valid by (simp add: host_message_def)
qed

text \<open>What the local server answered is the answer the client of the relay gets.\<close>

definition passable :: "local_response \<Rightarrow> bool" where
  "passable p \<longleftrightarrow> 200 \<le> lp_status p \<and> lp_status p \<le> 599 \<and> (lp_status p \<in> {204, 205, 304} \<longrightarrow> concat (lp_chunks p) = []) \<and>
     length (concat (lp_chunks p)) \<le> MAX_BODY_BYTES \<and> short_headers (lp_headers p) \<and> clean (lp_headers p)"

lemma response_headers_ok:
  assumes "short_headers hs" and "clean hs"
  shows "stringRecord (Some (string_object (responseHeaders hs)))" "clean (responseHeaders hs)"
    "map_of (responseHeaders hs) k = (if k \<in> set RESPONSE_HEADERS \<and> map_of hs k \<noteq> Some [] then map_of hs k else None)"
proof -
  have short: "short_headers (responseHeaders hs)"
    using assms(1) by (auto simp: short_headers_def list_all_iff responseHeaders_def copied_member dest!: map_of_SomeD)
  have "length (responseHeaders hs) \<le> 24"
    using copied_length [of hs RESPONSE_HEADERS "[]"] by (simp add: responseHeaders_def RESPONSE_HEADERS_def)
  moreover have "list_all (\<lambda>(k, v). length k \<le> 120) (responseHeaders hs)"
    using response_names_short by (auto simp: list_all_iff responseHeaders_def copied_member)
  ultimately show "stringRecord (Some (string_object (responseHeaders hs)))" using string_object_ok short by blast
  show "clean (responseHeaders hs)" unfolding responseHeaders_def by (rule clean_copied [OF assms(2)]) (simp_all add: clean_def)
  show "map_of (responseHeaders hs) k = (if k \<in> set RESPONSE_HEADERS \<and> map_of hs k \<noteq> Some [] then map_of hs k else None)"
    unfolding responseHeaders_def map_of_copied by (cases "map_of hs k") simp_all
qed

definition answer_headers :: "headers \<Rightarrow> headers" where
  "answer_headers hs = map_set ''x-content-type-options'' ''nosniff'' (map_set ''cache-control'' ''no-store''
     (fold (copyHeader (responseHeaders hs)) RESPONSE_HEADERS []))"

lemma answer_passes:
  assumes p: "passable p" and rid: "rid \<noteq> []" "length rid \<le> 120"
  shows "\<exists>g. forward_answer rid p = Some g \<and> isHostRelayResponse (response_frame g) \<and> rp_id g = rid \<and>
    length (rp_body64 g) \<le> maximumBase64Length MAX_BODY_BYTES \<and>
    answer_of g = Some \<lparr>hs_status = lp_status p, hs_headers = answer_headers (lp_headers p), hs_body = BytesContent (concat (lp_chunks p))\<rparr>"
proof -
  let ?g = "\<lparr>rp_id = rid, rp_status = lp_status p, rp_headers = responseHeaders (lp_headers p), rp_body64 = btoa (concat (lp_chunks p))\<rparr>"
  have hs: "short_headers (lp_headers p)" "clean (lp_headers p)" and len: "length (concat (lp_chunks p)) \<le> MAX_BODY_BYTES"
    using p by (simp_all add: passable_def)
  note ok = response_headers_ok [OF hs]
  have "forward_answer rid p = Some ?g"
    using len by (simp add: forward_answer_def readBoundedResponse_def read_chunks_result)
  moreover have "isHostRelayResponse (response_frame ?g)"
    using ok(1) rid p by (simp add: isHostRelayResponse_def response_frame_def shortId_def string_field_def passable_def)
  moreover have "forwardedResponseHeaders (responseHeaders (lp_headers p)) = Some (answer_headers (lp_headers p))"
    using set_clean [OF ok(2)] by (simp add: forwardedResponseHeaders_def answer_headers_def)
  then have "answer_of ?g = Some \<lparr>hs_status = lp_status p, hs_headers = answer_headers (lp_headers p), hs_body = BytesContent (concat (lp_chunks p))\<rparr>"
    using p by (auto simp: answer_of_def base64ToBytes_def bytes_response_def passable_def)
  moreover have "length (rp_body64 ?g) \<le> maximumBase64Length MAX_BODY_BYTES" using len maximum_mono by (simp add: btoa_length)
  ultimately show ?thesis by (intro exI [of _ ?g]) simp
qed

lemma map_of_answer_headers:
  assumes "short_headers hs" and "clean hs"
  shows "map_of (answer_headers hs) k =
    (if k = ''x-content-type-options'' then Some ''nosniff'' else if k = ''cache-control'' then Some ''no-store''
     else if k \<in> set RESPONSE_HEADERS \<and> map_of hs k \<noteq> Some [] then map_of hs k else None)"
  unfolding answer_headers_def map_of_map_set map_of_copied response_headers_ok(3) [OF assms] fun_upd_def
  by (cases "map_of hs k") simp_all

end
