(* ===== verification/RelayPairing.thy ===== *)
theory RelayPairing
  imports TeamRelay
begin

text \<open>
  Pairing by a connect code, \<open>pairByConnectCode\<close> of \<^verbatim>\<open>apps/connect/relay/src/index.ts\<close>, and what the relay, the registry,
  the limiter and the host's end promise together.
\<close>

section \<open>Pairing by a connect code\<close>

definition CONNECT_ATTEMPTS_PER_MINUTE :: nat where "CONNECT_ATTEMPTS_PER_MINUTE = 8"
definition CONNECT_ATTEMPTS_PER_HOUR :: nat where "CONNECT_ATTEMPTS_PER_HOUR = 30"
definition NETWORK_ATTEMPTS_PER_MINUTE :: nat where "NETWORK_ATTEMPTS_PER_MINUTE = 300"
definition NETWORK_ATTEMPTS_PER_HOUR :: nat where "NETWORK_ATTEMPTS_PER_HOUR = 3000"

text \<open>The body with its code in normal form, if it is one.\<close>

definition isConnectPairBody :: "json \<Rightarrow> (string \<times> json) list option" where
  "isConnectPairBody v = (case v of
     JObj kvs \<Rightarrow>
       (case map_of kvs ''code'' of
          Some (JStr c) \<Rightarrow>
            let code = normalizeHostPairingCode c in
            if \<not> HOST_PAIRING_CODE code then None
            else (case map_of kvs ''desktopId'' of
              Some (JStr d) \<Rightarrow>
                if length d < 1 \<or> 120 < length d then None
                else (case map_of kvs ''deviceName'' of
                  None \<Rightarrow> Some (map_set ''code'' (JStr code) kvs)
                | Some (JStr n) \<Rightarrow> if length n \<le> 120 then Some (map_set ''code'' (JStr code) kvs) else None
                | Some _ \<Rightarrow> None)
            | _ \<Rightarrow> None)
        | _ \<Rightarrow> None)
   | _ \<Rightarrow> None)"

definition pair_options :: http_response where
  "pair_options = \<lparr>hs_status = 204, hs_headers = [(''access-control-allow-headers'', ''content-type''),
     (''access-control-allow-methods'', ''POST, OPTIONS''), (''cache-control'', ''no-store''), (''vary'', ''origin'')], hs_body = NoContent\<rparr>"

text \<open>Up to the limiters: an answer, or the body.\<close>

definition pair_begin :: "http_request \<Rightarrow> (string \<Rightarrow> json option) \<Rightarrow> (http_response, (string \<times> json) list) result" where
  "pair_begin rq parse =
     (if hq_method rq = ''OPTIONS'' then Inl (withMobileCors rq pair_options)
      else if hq_method rq \<noteq> ''POST'' then Inl (withMobileCors rq (error_response 405 ''Method not allowed.'' [(''allow'', ''POST, OPTIONS'')]))
      else if requestBodyTooLarge rq MAX_CONNECT_BODY_BYTES then Inl (connectError rq 413 ''The connect request is too large.'' 0)
      else case readBoundedBody rq MAX_CONNECT_BODY_BYTES of
        Inl (status, message) \<Rightarrow> Inl (connectError rq status message 0)
      | Inr text \<Rightarrow> (case Option.bind (parse text) isConnectPairBody of
          None \<Rightarrow> Inl (connectError rq 400 ''Enter the connect code shown by Polymux Host.'' 0)
        | Some body \<Rightarrow> Inr body))"

text \<open>The key of a limiter: the digest of the client's address and a scope, in hexadecimal.\<close>

definition connectClientKey :: "(string \<Rightarrow> string) \<Rightarrow> http_request \<Rightarrow> string \<Rightarrow> string" where
  "connectClientKey sha256_hex rq scope =
     (let address = (case map_of (hq_headers rq) ''cf-connecting-ip'' of Some a \<Rightarrow> a | None \<Rightarrow> ''unknown'') in
      sha256_hex (''polymux-connect-client-v1:'' @ address @ '':'' @ scope))"

definition pair_keys :: "(string \<Rightarrow> string) \<Rightarrow> http_request \<Rightarrow> (string \<times> json) list \<Rightarrow> string \<times> string" where
  "pair_keys sha256_hex rq body = (connectClientKey sha256_hex rq ''network'',
     connectClientKey sha256_hex rq (''client:'' @ string_of (map_of body ''desktopId'')))"

text \<open>Both limiters are asked, whatever the other says.\<close>

type_synonym limiters = "string \<Rightarrow> attempt_window option"

definition take_both :: "string \<times> string \<Rightarrow> int \<Rightarrow> limiters \<Rightarrow> (bool \<times> int) \<times> limiters" where
  "take_both keys now l =
     (let (network, l1) = (case take_attempt now NETWORK_ATTEMPTS_PER_MINUTE NETWORK_ATTEMPTS_PER_HOUR (l (fst keys)) of (a, w) \<Rightarrow> (a, l(fst keys := w)));
          (client, l2) = (case take_attempt now CONNECT_ATTEMPTS_PER_MINUTE CONNECT_ATTEMPTS_PER_HOUR (l1 (snd keys)) of (a, w) \<Rightarrow> (a, l1(snd keys := w))) in
      ((fst network \<and> fst client, max (snd network) (snd client)), l2))"

text \<open>The request a pairing makes of its host, and the answer when no host is found.\<close>

definition pair_request :: "http_request \<Rightarrow> (json \<Rightarrow> string) \<Rightarrow> (string \<times> json) list \<Rightarrow> http_request" where
  "pair_request rq stringify body =
     internal ''POST'' ''/proxy'' (map_set ''x-polymux-proxy-path'' ''/polymux-host/v1/pair''
       (map_set ''content-type'' ''application/json'' (forwardedRequestHeaders (hq_headers rq)))) (Some [stringify (JObj body)])"

definition pair_lookup :: "http_request \<Rightarrow> (json \<Rightarrow> string) \<Rightarrow> (string \<times> json) list \<Rightarrow> int \<Rightarrow> limiters \<Rightarrow> directory \<Rightarrow> (string \<Rightarrow> string) \<Rightarrow>
    (http_response, string \<times> http_request) result \<times> limiters \<times> directory" where
  "pair_lookup rq stringify body now l d sha256_hex =
     (case take_both (pair_keys sha256_hex rq body) now l of ((allowed, retry), l') \<Rightarrow>
        if \<not> allowed then (Inl (connectError rq 429 ''Too many connect attempts. Try again shortly.'' (nat retry)), l', d)
        else case directory_resolve (string_of (map_of body ''code'')) now d of
          (None, d') \<Rightarrow> (Inl (connectError rq 401 ''The connect code is invalid or expired.'' 0), l', d')
        | (Some hostId, d') \<Rightarrow> (Inr (hostId, pair_request rq stringify body), l', d'))"

text \<open>The answer of the host goes back as it is; an accepted pairing takes its code off the registry.\<close>

definition pair_end :: "(string \<times> json) list \<Rightarrow> string \<Rightarrow> http_response \<Rightarrow> directory \<Rightarrow> directory" where
  "pair_end body hostId response d =
     (if hs_status response = 202 then directory_remove (string_of (map_of body ''code'')) hostId d else d)"

section \<open>Where a code leads\<close>

fun ledger_after :: "(string \<Rightarrow> string \<Rightarrow> bool) \<Rightarrow> (int \<times> code_call) list \<Rightarrow> ledger \<Rightarrow> ledger" where
  "ledger_after admissible [] m = m"
| "ledger_after admissible ((now, Claim c h e) # calls) m =
     ledger_after admissible calls (if admissible c h \<and> now < e \<and> ledger_host m now c \<in> {None, Some h} then m(c \<mapsto> (h, e)) else m)"
| "ledger_after admissible ((now, Find c) # calls) m = ledger_after admissible calls m"
| "ledger_after admissible ((now, Forget c h) # calls) m = ledger_after admissible calls (if map_option fst (m c) = Some h then m(c := None) else m)"
| "ledger_after admissible ((now, Ring shard) # calls) m = ledger_after admissible calls m"

lemma ledger_answers_append:
  "ledger_answers admissible (calls @ rest) m = ledger_answers admissible calls m @ ledger_answers admissible rest (ledger_after admissible calls m)"
  by (induction admissible calls m rule: ledger_after.induct) (simp_all add: Let_def)

text \<open>A grant of a code that its host has not given up since.\<close>

definition standing_grant :: "(string \<Rightarrow> string \<Rightarrow> bool) \<Rightarrow> (int \<times> code_call) list \<Rightarrow> string \<Rightarrow> string \<Rightarrow> int \<Rightarrow> bool" where
  "standing_grant admissible calls c h e \<longleftrightarrow>
     (\<exists>before t after. calls = before @ (t, Claim c h e) # after \<and> admissible c h \<and> t < e \<and> (\<forall>t'. (t', Forget c h) \<notin> set after))"

lemma standing_Cons: "standing_grant admissible calls c h e \<Longrightarrow> standing_grant admissible (call # calls) c h e"
  unfolding standing_grant_def by (metis append_Cons)

lemma ledger_grant:
  "ledger_after admissible calls m c = Some (h, e) \<Longrightarrow>
    m c = Some (h, e) \<and> (\<forall>t. (t, Forget c h) \<notin> set calls) \<or> standing_grant admissible calls c h e"
proof (induction admissible calls m rule: ledger_after.induct)
  case (2 admissible now c' h' e' calls m)
  let ?m = "if admissible c' h' \<and> now < e' \<and> ledger_host m now c' \<in> {None, Some h'} then m(c' \<mapsto> (h', e')) else m"
  have "ledger_after admissible calls ?m c = Some (h, e)" using 2(2) by simp
  from 2(1) [OF this] show ?case
  proof
    assume a: "?m c = Some (h, e) \<and> (\<forall>t. (t, Forget c h) \<notin> set calls)"
    show ?thesis
    proof (cases "m c = Some (h, e)")
      case False
      with a have new: "c' = c" "h' = h" "e' = e" "admissible c h" "now < e" by (auto split: if_splits)
      have "(now, Claim c' h' e') # calls = [] @ (now, Claim c h e) # calls" using new by simp
      then have "standing_grant admissible ((now, Claim c' h' e') # calls) c h e"
        unfolding standing_grant_def using new(4,5) a by blast
      then show ?thesis ..
    qed (use a in simp)
  qed (use standing_Cons in blast)
next
  case (4 admissible now c' h' calls m)
  have "ledger_after admissible calls (if map_option fst (m c') = Some h' then m(c' := None) else m) c = Some (h, e)" using 4(2) by simp
  from 4(1) [OF this] show ?case
  proof
    assume a: "(if map_option fst (m c') = Some h' then m(c' := None) else m) c = Some (h, e) \<and> (\<forall>t. (t, Forget c h) \<notin> set calls)"
    then have "m c = Some (h, e)" "\<not> (c' = c \<and> h' = h)" by (auto split: if_splits)
    with a show ?thesis by auto
  qed (use standing_Cons in blast)
next
  case (3 admissible now c' calls m)
  then show ?case using standing_Cons by fastforce
next
  case (5 admissible now shard calls m)
  then show ?case using standing_Cons by fastforce
qed simp



section \<open>Requests and their answers\<close>

text \<open>C26: every request that got past the relay's checks has one end.  It is read, or it is on the table under its own identifier with its
  timer running, or it has its one answer and is on no table; the exception are the answers that could not be made into a response.\<close>

theorem relay_calls_conserved:
  assumes "relay_reachable sha256 s" and "n < length (rl_calls s)"
  defines "c \<equiv> rl_calls s ! n"
  shows "case pc_answer c of
      Some _ \<Rightarrow> n \<notin> pr_call ` snd ` set (rl_pending s) \<and> n \<notin> fst ` set (rl_lost s)
    | None \<Rightarrow> (case pc_id c of
        None \<Rightarrow> n \<notin> pr_call ` snd ` set (rl_pending s) \<and> n \<notin> fst ` set (rl_lost s)
      | Some rid \<Rightarrow> (map_option pr_call (map_of (rl_pending s) rid) = Some n) \<noteq> ((n, rid) \<in> set (rl_lost s)) \<and>
          (\<forall>m < length (rl_calls s). pc_id (rl_calls s ! m) = Some rid \<longrightarrow> m = n))"
proof -
  note inv = reachable_relay_inv [OF assms(1), unfolded relay_inv_def requests_ok_def]
  have w: "waiting_calls s = pending_calls s \<union> set (rl_lost s)" "pending_calls s \<inter> set (rl_lost s) = {}" using inv by blast+
  have d: "distinct (map fst (rl_pending s))" using inv by blast
  have idle: "n \<notin> pr_call ` snd ` set (rl_pending s) \<and> n \<notin> fst ` set (rl_lost s)" if "\<And>rid. (n, rid) \<notin> waiting_calls s"
    using that unfolding w pending_calls_def by force
  show ?thesis
  proof (cases "pc_answer c")
    case (Some a)
    then show ?thesis using idle by (simp add: waiting_calls_def c_def)
  next
    case None
    show ?thesis
    proof (cases "pc_id c")
      case id: None
      then show ?thesis using None idle by (simp add: waiting_calls_def c_def)
    next
      case id: (Some rid)
      have "(n, rid) \<in> waiting_calls s" using assms(2) None id by (simp add: waiting_calls_def c_def)
      then have one: "((n, rid) \<in> pending_calls s) \<noteq> ((n, rid) \<in> set (rl_lost s))" using w by blast
      have "(n, rid) \<in> pending_calls s \<longleftrightarrow> map_option pr_call (map_of (rl_pending s) rid) = Some n"
        using map_of_eq_Some_iff [OF d] by (force simp: pending_calls_def)
      moreover have "m = n" if "m < length (rl_calls s)" "pc_id (rl_calls s ! m) = Some rid" for m
        using inv that id assms(2) by (simp add: ids_ok_def one_each_def c_def)
      ultimately show ?thesis using one None id by simp
    qed
  qed
qed

text \<open>A host that is connected and has one request to answer.\<close>

definition demo_token :: string where "demo_token = replicate 32 CHR ''s''"

definition demo_connect :: http_request where
  "demo_connect = internal ''GET'' ''/connect'' [(''upgrade'', ''websocket''), (''authorization'', ''Bearer '' @ demo_token),
     (''x-polymux-register'', ''1''), (''x-polymux-host-id'', demo_host)] None"

definition demo_proxy :: http_request where
  "demo_proxy = internal ''POST'' ''/proxy'' [(''x-polymux-proxy-path'', ''/polymux-host/v1/pair'')] (Some [''hello''])"

definition demo_connected :: relay where "demo_connected = snd (connect (\<lambda>x. x) demo_connect new_relay)"
definition demo_relay :: relay where "demo_relay = snd (proxy_begin demo_proxy demo_connected)"

lemma demo_secret: "bearer (Some (''Bearer '' @ demo_token)) = demo_token" "length demo_token = 32" "demo_token \<noteq> []"
  by (simp_all add: demo_token_def bearer_def js_trim_def is_js_space_def numeral_eq_Suc)

lemma demo_identify: "identify (\<lambda>x. x) demo_connect True new_relay = (None, new_relay\<lparr>rl_secret := Some (demo_token), rl_hostId := Some demo_host\<rparr>)"
  unfolding identify_def authenticateHost_def recordHostId_def Let_def
  using demo_hosts(1) demo_secret by (simp add: demo_connect_def internal_def new_relay_def)

lemma demo_connected: "demo_connected = new_relay\<lparr>rl_secret := Some demo_token, rl_hostId := Some demo_host, rl_sockets := [True]\<rparr>"
proof -
  have up: "map_option js_lower (map_of (hq_headers demo_connect) ''upgrade'') = Some ''websocket''"
    by (simp add: demo_connect_def internal_def js_lower_def js_lower_char_def)
  show ?thesis unfolding demo_connected_def connect_def up demo_identify by (simp add: new_relay_def)
qed

lemma demo_connected_reachable: "relay_reachable (\<lambda>x. x) demo_connected"
  unfolding relay_reachable_def demo_connected_def by (rule r_into_rtranclp) (rule step_connect)

lemma demo_relay: "demo_relay = \<lparr>rl_secret = Some demo_token, rl_hostId = Some demo_host, rl_code = None, rl_sockets = [True], rl_pending = [],
    rl_calls = [\<lparr>pc_method = ''POST'', pc_path = ''/polymux-host/v1/pair'', pc_headers = [], pc_socket = 0, pc_id = None, pc_answer = None\<rparr>],
    rl_sent = [], rl_lost = []\<rparr>"
  unfolding demo_relay_def demo_connected
  by (simp add: proxy_begin_def connectedHost_def new_relay_def MAX_ACTIVE_REQUESTS_def demo_proxy_def internal_def PROXY_METHODS_def
    forwardedRequestHeaders_def REQUEST_HEADERS_def copyHeader_def HOST_PREFIX_def)

lemma demo_reachable: "relay_reachable (\<lambda>x. x) demo_relay"
  using demo_connected_reachable step_proxy unfolding relay_reachable_def demo_relay_def by (rule rtranclp.rtrancl_into_rtrancl)

definition demo_sent :: relay where "demo_sent = proxy_forward 0 (Inr ''hello'') ''r1'' 0 True demo_relay"

lemma demo_sent_reachable: "relay_reachable (\<lambda>x. x) demo_sent"
proof -
  have "relay_step (\<lambda>x. x) demo_relay demo_sent" unfolding demo_sent_def by (rule step_forward) (simp_all add: demo_relay)
  with demo_reachable show ?thesis unfolding relay_reachable_def by (rule rtranclp.rtrancl_into_rtrancl)
qed

theorem relay_calls_conserved_witness:
  "map_option pr_call (map_of (rl_pending demo_sent) ''r1'') = Some 0 \<and> (0, ''r1'') \<notin> set (rl_lost demo_sent)"
  using relay_calls_conserved [OF demo_sent_reachable, of 0] by (simp add: demo_sent_def demo_relay proxy_forward_def Let_def)

lemma step_identity: "relay_step sha256 s t \<Longrightarrow> rl_secret s = Some h \<Longrightarrow> rl_secret t = Some h \<and> (rl_hostId s = Some i \<longrightarrow> rl_hostId t = Some i)"
proof (induction rule: relay_step.induct)
  have ident: "rl_secret (snd (identify sha256 rq b s)) = Some h \<and> (rl_hostId s = Some i \<longrightarrow> rl_hostId (snd (identify sha256 rq b s)) = Some i)"
    if "rl_secret s = Some h" for rq b s
    using that by (auto simp: identify_def authenticateHost_def recordHostId_def Let_def split: option.splits)
  {
    case (step_connect s rq)
    then show ?case using ident [OF step_connect, of rq True] by (auto simp: connect_def split: prod.splits option.splits)
  next
    case (step_code s rq)
    then show ?case using ident [OF step_code, of rq False] by (auto simp: connect_code_begin_def Let_def split: prod.splits option.splits)
  }
  have fin: "rl_secret (fold (\<lambda>(rid, p). answer_call (pr_call p) a) ps s) = rl_secret s \<and> rl_hostId (fold (\<lambda>(rid, p). answer_call (pr_call p) a) ps s) = rl_hostId s" for a ps s
    by (induction ps arbitrary: s) auto
  {
    case (step_proxy s rq)
    then show ?case using proxy_begin_result [of rq s] by auto
  next
    case (step_forward n s rid body now taken)
    then show ?case by (auto simp: proxy_forward_def Let_def split: sum.splits)
  next
    case (step_timeout s rid p now)
    then show ?case by (simp add: request_timeout_def)
  next
    case (step_message socket s message)
    then show ?case by (auto simp: webSocketMessage_def Let_def split: socket_message.splits option.splits)
  next
    case (step_gone socket s message)
    then show ?case using fin [of "error_response 503 message []" "rl_pending s" "close_socket socket s"]
      by (simp add: socket_gone_def Let_def finishPending_def)
  }
qed simp

text \<open>C21: who speaks for a host.  Once a host has registered its secret, no later step changes the secret or the identity, and
  only who presents a secret with the same digest gets a socket or has a connect code registered.\<close>

theorem host_identity_fixed:
  assumes "(relay_step sha256)\<^sup>*\<^sup>* s t" and "rl_secret s = Some h" and "rl_hostId s = Some i"
  shows "rl_secret t = Some h \<and> rl_hostId t = Some i \<and>
    (hs_status (fst (connect sha256 rq t)) = 101 \<or> isl (fst (connect_code_begin sha256 rq t)) = False \<longrightarrow>
      sha256 (bearer (map_of (hq_headers rq) ''authorization'')) = h \<and> map_of (hq_headers rq) ''x-polymux-host-id'' = Some i)"
proof -
  have t: "rl_secret t = Some h \<and> rl_hostId t = Some i"
    using assms by (induction rule: rtranclp_induct) (use step_identity in blast)+
  have "HOST_ID []  = False" by (simp add: HOST_ID_def HOST_ID_CLASSES_def)
  then have ident: "fst (identify sha256 rq b t) = None \<Longrightarrow> sha256 (bearer (map_of (hq_headers rq) ''authorization'')) = h \<and>
      map_of (hq_headers rq) ''x-polymux-host-id'' = Some i" for b
    using t by (auto simp: identify_def authenticateHost_def recordHostId_def Let_def split: option.splits if_splits)
  have errors: "fst (identify sha256 rq b t) = Some e \<Longrightarrow> hs_status e \<noteq> 101" for b e
    using t by (auto simp: identify_def authenticateHost_def recordHostId_def Let_def error_response_def json_response_def split: option.splits if_splits)
  have "fst (identify sha256 rq True t) = None" if "hs_status (fst (connect sha256 rq t)) = 101"
    using that errors [of True] by (fastforce simp: connect_def error_response_def json_response_def split: prod.splits option.splits if_splits)
  moreover have "fst (identify sha256 rq False t) = None" if "isl (fst (connect_code_begin sha256 rq t)) = False"
    using that by (auto simp: connect_code_begin_def split: prod.splits option.splits)
  ultimately show ?thesis using t ident by blast
qed

theorem host_identity_fixed_witness: "rl_secret demo_sent = Some (demo_token) \<and> rl_hostId demo_sent = Some demo_host"
proof -
  have "relay_step (\<lambda>x. x) demo_relay demo_sent" unfolding demo_sent_def by (rule step_forward) (simp_all add: demo_relay)
  then show ?thesis using host_identity_fixed [OF r_into_rtranclp, of "\<lambda>x. x" demo_relay demo_sent "demo_token" demo_host]
    by (simp add: demo_relay)
qed

definition local_of :: "proxy_call \<Rightarrow> string \<Rightarrow> local_request" where
  "local_of c body = \<lparr>lq_method = pc_method c, lq_path = pc_path c, lq_headers = fold (copyHeader (pc_headers c)) REQUEST_HEADERS [],
     lq_body = (if pc_method c = ''POST'' then Some body else None)\<rparr>"

lemma forward_local:
  assumes "call_ok c" and "clean (pc_headers c)" and "resolve (pc_path c) = Some (local_origin, pathname)" and "take 17 pathname = HOST_PREFIX"
  shows "forward_request resolve local_origin (relayed_frame rid body c) = Some (local_of c body)"
proof -
  have "pc_method c = ''GET'' \<or> pc_method c = ''OPTIONS'' \<longleftrightarrow> pc_method c \<noteq> ''POST''"
    using assms(1) by (auto simp: call_ok_def PROXY_METHODS_def)
  then show ?thesis
    using assms set_clean [OF assms(2)] by (simp add: forward_request_def relayed_frame_def local_headers_def local_of_def bytesToBase64_def)
qed


definition demo_local_answer :: local_response where "demo_local_answer = \<lparr>lp_status = 202, lp_headers = [], lp_chunks = [''accepted'']\<rparr>"


section \<open>Where the relay does not do what it means to\<close>

text \<open>
  An answer with a status below 200 passes the check of the frame but is no response.  The handler then throws after taking the request
  off the table and stopping its timer, and the client waits for ever: the call stays without an answer whatever happens.
\<close>

lemma answer_lost:
  assumes "map_of (rl_pending s) rid = Some p" and "rid \<noteq> []" "length rid \<le> 120"
  shows "(pr_call p, rid) \<in> set (rl_lost (webSocketMessage socket (Text (Some (response_frame
    \<lparr>rp_id = rid, rp_status = 100, rp_headers = [], rp_body64 = []\<rparr>))) s))"
proof -
  let ?r = "\<lparr>rp_id = rid, rp_status = 100, rp_headers = [], rp_body64 = []\<rparr>"
  have "isHostRelayResponse (response_frame ?r)"
    using assms(2,3) by (simp add: isHostRelayResponse_def response_frame_def shortId_def string_field_def stringRecord_def string_object_def)
  moreover have "answer_of ?r = None"
    by (auto simp: answer_of_def bytes_response_def bind_eq_None_conv)
  ultimately show ?thesis using assms(1) by (simp add: webSocketMessage_def Let_def)
qed

lemma lost_step: "relay_step sha256 s t \<Longrightarrow> set (rl_lost s) \<subseteq> set (rl_lost t)"
proof (induction rule: relay_step.induct)
  case (step_connect s rq)
  then show ?case using identify_same(2) [of sha256 rq True s] by (auto simp: connect_def split: prod.splits option.splits)
next
  case (step_code s rq)
  then show ?case using identify_same(2) [of sha256 rq False s] by (auto simp: connect_code_begin_def Let_def split: prod.splits option.splits)
next
  case (step_proxy s rq)
  then show ?case using proxy_begin_result [of rq s] by auto
next
  case (step_forward n s rid body now taken)
  then show ?case by (auto simp: proxy_forward_def Let_def split: sum.splits)
next
  case (step_timeout s rid p now)
  then show ?case by (simp add: request_timeout_def)
next
  case (step_message socket s message)
  then show ?case by (auto simp: webSocketMessage_def Let_def split: socket_message.splits option.splits)
next
  case (step_gone socket s message)
  then show ?case using finish_calls [of "error_response 503 message []" "rl_pending s" "close_socket socket s"]
    by (simp add: socket_gone_def Let_def finishPending_def)
qed simp

theorem lost_answers_stay_lost:
  assumes "relay_reachable sha256 s" and "(n, rid) \<in> set (rl_lost s)" and "(relay_step sha256)\<^sup>*\<^sup>* s t"
  shows "n < length (rl_calls t) \<and> pc_answer (rl_calls t ! n) = None \<and> (n, rid) \<notin> pending_calls t"
proof -
  have "(n, rid) \<in> set (rl_lost t)" using assms(3,2) by (induction rule: rtranclp_induct) (use lost_step in blast)+
  moreover have "relay_reachable sha256 t" using assms(1,3) unfolding relay_reachable_def by (rule rtranclp_trans)
  ultimately show ?thesis using reachable_relay_inv [of sha256 t] unfolding relay_inv_def requests_ok_def waiting_calls_def by blast
qed

text \<open>
  The bound on active requests is checked before the body is read, and requests that read at the same time
  do not count: any number of them can be active.
\<close>

lemma idle_calls_reachable:
  "\<exists>s. relay_reachable (\<lambda>x. x) s \<and> length (rl_calls s) = k \<and> (\<forall>c \<in> set (rl_calls s). pc_id c = None \<and> pc_answer c = None) \<and>
    rl_pending s = [] \<and> connectedHost s = Some 0"
proof (induction k)
  case 0
  show ?case using demo_connected_reachable by (intro exI [of _ demo_connected]) (simp add: demo_connected new_relay_def connectedHost_def)
next
  case (Suc k)
  then obtain s where s: "relay_reachable (\<lambda>x. x) s" "length (rl_calls s) = k"
    "\<forall>c \<in> set (rl_calls s). pc_id c = None \<and> pc_answer c = None" "rl_pending s = []" "connectedHost s = Some 0" by blast
  let ?t = "snd (proxy_begin demo_proxy s)"
  have "relay_reachable (\<lambda>x. x) ?t"
    using s(1) step_proxy unfolding relay_reachable_def by (rule rtranclp.rtrancl_into_rtrancl)
  moreover have "length (rl_calls ?t) = Suc k \<and> (\<forall>c \<in> set (rl_calls ?t). pc_id c = None \<and> pc_answer c = None) \<and>
      rl_pending ?t = [] \<and> rl_sockets ?t = rl_sockets s"
    using s(2-5) by (simp add: proxy_begin_def Let_def MAX_ACTIVE_REQUESTS_def demo_proxy_def internal_def PROXY_METHODS_def HOST_PREFIX_def)
  ultimately show ?case using s(5) by (intro exI [of _ ?t]) (simp add: connectedHost_def)
qed

definition nth_id :: "nat \<Rightarrow> string" where "nth_id i = replicate i CHR ''a''"

lemma nth_id_eq [simp]: "nth_id i = nth_id j \<longleftrightarrow> i = j"
  unfolding nth_id_def by (metis length_replicate)

lemma active_requests_unbounded: "\<exists>s. relay_reachable (\<lambda>x. x) s \<and> length (rl_pending s) = k"
proof -
  have "\<exists>s. relay_reachable (\<lambda>x. x) s \<and> length (rl_calls s) = k \<and> length (rl_pending s) = j \<and>
      (\<forall>i < k. pc_answer (rl_calls s ! i) = None \<and> pc_id (rl_calls s ! i) = (if i < j then Some (nth_id i) else None)) \<and>
      fst ` set (rl_pending s) \<subseteq> nth_id ` {..<j}" if "j \<le> k" for j
    using that
  proof (induction j)
    case 0
    obtain s where "relay_reachable (\<lambda>x. x) s" "length (rl_calls s) = k"
      "\<forall>c \<in> set (rl_calls s). pc_id c = None \<and> pc_answer c = None" "rl_pending s = []"
      using idle_calls_reachable [of k] by blast
    then show ?case by (intro exI [of _ s]) simp
  next
    case (Suc j)
    then obtain s where s: "relay_reachable (\<lambda>x. x) s" "length (rl_calls s) = k" "length (rl_pending s) = j"
      "\<And>i. i < k \<Longrightarrow> pc_answer (rl_calls s ! i) = None \<and> pc_id (rl_calls s ! i) = (if i < j then Some (nth_id i) else None)"
      "fst ` set (rl_pending s) \<subseteq> nth_id ` {..<j}" by fastforce
    let ?t = "proxy_forward j (Inr []) (nth_id j) 0 True s"
    have "Some (nth_id j) \<notin> pc_id ` set (rl_calls s)"
    proof
      assume "Some (nth_id j) \<in> pc_id ` set (rl_calls s)"
      then obtain i where "i < k" "pc_id (rl_calls s ! i) = Some (nth_id j)" using s(2) by (auto simp: in_set_conv_nth)
      then show False using s(4) [of i] by (simp split: if_splits)
    qed
    then have "relay_step (\<lambda>x. x) s ?t" using Suc.prems s(2) s(4) [of j] by (intro step_forward) simp_all
    with s(1) have "relay_reachable (\<lambda>x. x) ?t" unfolding relay_reachable_def by (rule rtranclp.rtrancl_into_rtrancl)
    moreover have "nth_id j \<notin> fst ` set (rl_pending s)" using s(5) by auto
    then have keys: "map fst (rl_pending ?t) = map fst (rl_pending s) @ [nth_id j]"
      by (simp add: proxy_forward_def Let_def map_set_keys)
    have "length (rl_pending ?t) = Suc j" using arg_cong [OF keys, of length] s(3) by (simp only: length_map length_append list.size add_0 add_Suc_right add_0_right)
    moreover have "fst ` set (rl_pending ?t) \<subseteq> nth_id ` {..<Suc j}"
      unfolding set_map [symmetric] keys set_append lessThan_Suc image_insert using s(5) by (simp only: set_map list.set) blast
    moreover have "length (rl_calls ?t) = k \<and> (\<forall>i < k. pc_answer (rl_calls ?t ! i) = None \<and>
        pc_id (rl_calls ?t ! i) = (if i < Suc j then Some (nth_id i) else None))"
      using Suc.prems s(2,4) by (simp add: proxy_forward_def Let_def nth_list_update less_Suc_eq)
    ultimately show ?case by blast
  qed
  from this [of k] show ?thesis by blast
qed

text \<open>
  The host closes its socket on a frame it finds invalid, and the relay puts no bound on the headers it forwards.  So one request, which
  needs no credentials, with an \<open>origin\<close> of more than 8192 characters takes the host off the relay and fails
  every request under way.
\<close>

definition long_request :: http_request where
  "long_request = internal ''GET'' ''/proxy'' [(''x-polymux-proxy-path'', ''/polymux-host/v1/health''), (''origin'', replicate 8193 CHR ''x'')] None"

lemma long_request_accepted:
  assumes "connectedHost s = Some h" and "length (rl_pending s) < 32"
  shows "proxy_begin long_request s = (None, s\<lparr>rl_calls := rl_calls s @ [\<lparr>pc_method = ''GET'', pc_path = ''/polymux-host/v1/health'',
    pc_headers = [(''origin'', replicate 8193 CHR ''x'')], pc_socket = h, pc_id = None, pc_answer = None\<rparr>]\<rparr>)"
  using assms by (simp add: proxy_begin_def MAX_ACTIVE_REQUESTS_def long_request_def internal_def PROXY_METHODS_def HOST_PREFIX_def
    forwardedRequestHeaders_def REQUEST_HEADERS_def copyHeader_def)

lemma finish_nth: "m < length (rl_calls s) \<Longrightarrow> rl_calls (fold (\<lambda>(rid, p). answer_call (pr_call p) a) ps s) ! m =
    (if m \<in> pr_call ` snd ` set ps then (rl_calls s ! m)\<lparr>pc_answer := Some a\<rparr> else rl_calls s ! m)"
proof (induction ps arbitrary: s)
  case (Cons e ps)
  then show ?case by (cases e) (simp add: answer_call_nth)
qed simp

lemma last_socket_gone:
  assumes inv: "relay_inv s" and host: "connectedHost s = Some h" and m: "(m, i) \<in> pending_calls s"
  shows "rl_pending (socket_gone h message s) = []" "pc_answer (rl_calls (socket_gone h message s) ! m) = Some (error_response 503 message [])"
proof -
  have h: "h < length (rl_sockets s)" "rl_sockets s ! h" using host by (auto simp: connectedHost_def find_Some_iff)
  then have only: "\<not> rl_sockets s ! n" if "n < length (rl_sockets s)" "n \<noteq> h" for n
    using inv that by (force simp: relay_inv_def sockets_ok_def)
  have none: "connectedHost (close_socket h s) = None"
    using only h(1) by (auto simp: connectedHost_def find_None_iff close_socket_def nth_list_update)
  then show "rl_pending (socket_gone h message s) = []" by (simp add: socket_gone_def Let_def finishPending_def)
  have "(m, i) \<in> waiting_calls s" using inv m by (auto simp: relay_inv_def requests_ok_def)
  then have "m < length (rl_calls (close_socket h s))" by (simp add: waiting_calls_def)
  from finish_nth [OF this, of "error_response 503 message []" "rl_pending s"] none m
  show "pc_answer (rl_calls (socket_gone h message s) ! m) = Some (error_response 503 message [])"
    by (force simp: socket_gone_def Let_def finishPending_def pending_calls_def)
qed

text \<open>C32: a call with a header that is too long, sent to a connected host, makes the host close its socket, and with it every request
  under way is answered as failed.\<close>

theorem long_header_drops_host:
  fixes now :: int
  assumes reach: "relay_reachable sha256 s" and n: "n < length (rl_calls s)" "pc_id (rl_calls s ! n) = None" "pc_answer (rl_calls s ! n) = None"
    and rid: "rid \<noteq> []" "length rid \<le> 120" "Some rid \<notin> pc_id ` set (rl_calls s)" and body: "length body \<le> MAX_BODY_BYTES"
    and long: "\<not> short_headers (pc_headers (rl_calls s ! n))" and host: "connectedHost s = Some h"
  defines "sent \<equiv> proxy_forward n (Inr body) rid now True s"
  shows "host_message (Text (Some (request_frame (relayed_frame rid body (rl_calls s ! n))))) = CloseSocket 1007 \<and>
    (\<forall>(m, i) \<in> pending_calls sent. rl_pending (socket_gone h DISCONNECTED sent) = [] \<and>
      pc_answer (rl_calls (socket_gone h DISCONNECTED sent) ! m) = Some (error_response 503 DISCONNECTED []))"
proof -
  have inv: "relay_inv s" by (rule reachable_relay_inv [OF reach])
  then have "call_ok (rl_calls s ! n)" using n(1) by (simp add: relay_inv_def)
  then have "host_message (Text (Some (request_frame (relayed_frame rid body (rl_calls s ! n))))) = CloseSocket 1007"
    using request_frame_ok [OF _ rid(1,2) body] long by simp
  moreover have "relay_inv sent" unfolding sent_def by (rule inv_forward [OF inv n rid(3)])
  moreover have "connectedHost sent = Some h" using host by (simp add: sent_def proxy_forward_def Let_def connectedHost_def)
  ultimately show ?thesis using last_socket_gone by blast
qed

definition demo_long :: relay where "demo_long = snd (proxy_begin long_request demo_connected)"

lemma demo_long: "relay_reachable (\<lambda>x. x) demo_long" "connectedHost demo_long = Some 0"
  "rl_calls demo_long = [\<lparr>pc_method = ''GET'', pc_path = ''/polymux-host/v1/health'', pc_headers = [(''origin'', replicate 8193 CHR ''x'')],
    pc_socket = 0, pc_id = None, pc_answer = None\<rparr>]" "rl_pending demo_long = []"
proof -
  show "relay_reachable (\<lambda>x. x) demo_long"
    using demo_connected_reachable step_proxy unfolding relay_reachable_def demo_long_def by (rule rtranclp.rtrancl_into_rtrancl)
  have host: "connectedHost demo_connected = Some 0" "rl_pending demo_connected = []" "rl_calls demo_connected = []"
    by (simp_all add: demo_connected new_relay_def connectedHost_def)
  note begun = long_request_accepted [OF host(1), unfolded host, simplified]
  show "connectedHost demo_long = Some 0" using host(1) by (simp add: demo_long_def begun connectedHost_def)
  show "rl_calls demo_long = [\<lparr>pc_method = ''GET'', pc_path = ''/polymux-host/v1/health'', pc_headers = [(''origin'', replicate 8193 CHR ''x'')],
    pc_socket = 0, pc_id = None, pc_answer = None\<rparr>]" "rl_pending demo_long = []"
    using host by (simp_all add: demo_long_def begun)
qed

theorem long_header_drops_host_witness:
  "host_message (Text (Some (request_frame (relayed_frame ''r1'' [] (rl_calls demo_long ! 0))))) = CloseSocket 1007 \<and>
   pc_answer (rl_calls (socket_gone 0 DISCONNECTED (proxy_forward 0 (Inr []) ''r1'' 0 True demo_long)) ! 0) = Some (error_response 503 DISCONNECTED [])"
proof -
  have "(0, ''r1'') \<in> pending_calls (proxy_forward 0 (Inr []) ''r1'' 0 True demo_long)"
    by (simp add: proxy_forward_def Let_def pending_calls_def demo_long)
  with long_header_drops_host [OF demo_long(1), of 0 "''r1''" "[]" 0 0] show ?thesis
    by (auto simp: demo_long short_headers_def)
qed

end
