(* ===== verification/Spec2Isabelle.thy ===== *)
theory Spec2Isabelle
  imports RunProperties ScheduleBook Locks LockerCsv LockerCloud Pairing Compaction TaskTools QrProperties RelayPairing
begin

text \<open>
  \<^bold>\<open>Polymux: the agent core, its delegated tasks, its scheduler, its locks, its locker, its protocol checks, its QR codes and its relay\<close>

  Polymux is an assistant whose host (a desktop program or a command line) runs an agent: a loop that asks
  a model for the next message, executes the tools the message calls and goes on until the model answers
  without calls.  A run can delegate work to runs of its own and hears of each when it ends.  Around that loop are the schedules that start runs, the standing goals that continue
  them, the compaction that keeps a conversation inside the model's window, the locks that order writes,
  a password locker that follows the account, the protocol that checks what clients send, and the relay through which a phone
  reaches a host that has no open port.  This
  development models these parts as they are written and proves what makes each correct.  All paths are
  relative to \<^verbatim>\<open>src/\<close>.

  \<^bold>\<open>How the code is modelled\<close>

  \<^item> An interface is a record, a union a datatype, an optional field an option, \<^verbatim>\<open>throw\<close> the left side of
    \<open>result\<close> (\<open>'e + 'a\<close>).  Counters and milliseconds are \<^typ>\<open>int\<close> or \<^typ>\<open>nat\<close>, numbers that may be
    fractional \<^typ>\<open>rat\<close>; JavaScript's remainder and rounding are written out (\<open>js_rem\<close>, \<open>js_round\<close>), and so are
    the checks on safe integers.  A string is a list of characters below 256; the long dash of a message is written as the one character
    0x97.
  \<^item> Everything that runs between two suspensions is atomic in JavaScript.  A component whose calls
    interleave is a step relation (\<open>mutex_step\<close>, \<open>mutation_step\<close>, \<open>queue_step\<close>, \<open>sched_step\<close>, \<open>fleet_step\<close>, \<open>relay_step\<close>,
    \<open>team_step\<close>); the
    agent loop is a state monad with exceptions in which each \<^verbatim>\<open>await\<close> runs a parameter that returns a value
    and the calls the host makes on the run's handle meanwhile.
  \<^item> What is not in the repository, or is input or output, is a parameter: models, tools, hooks, clock, event
    sink (\<open>run_env\<close>, \<open>run_request\<close>); the zone rules of the host; the KeePass vault, SHA-256 and the HTTP
    server of the cloud locker; the host's own server behind the relay; the source of random digits; \<^verbatim>\<open>JSON.parse\<close> and \<^verbatim>\<open>JSON.stringify\<close>.  Where a
    theorem relies on one of them it names what it needs, and its witness has a concrete instance.

  \<^bold>\<open>Parts, theories and what they show\<close>

  \<^item> \<open>Prelude\<close>: results, JavaScript's string and number functions, shared lemmas and collections.
  \<^item> \<open>AgentTypes\<close> (\<^verbatim>\<open>packages/inference/src/types.ts\<close>, \<^verbatim>\<open>packages/core/src/types.ts\<close>, \<^verbatim>\<open>usage.ts\<close>): messages, events,
    results; the usage of a run is the sum of its messages' usage.
  \<^item> \<open>RunControl\<close> (\<^verbatim>\<open>packages/core/src/control.ts\<close>): the steering queue, cancelling, sealing; no steering message
    is lost or repeated.
  \<^item> \<open>RunMonad\<close>, \<open>Inference\<close>, \<open>ToolExec\<close>, \<open>Runner\<close> (\<^verbatim>\<open>packages/core/src/runner.ts\<close>): the monad with its emitter,
    the model call with its retries, the tool schedule, the loop with its exits.  \<open>RunProperties\<close> holds C1 to C6:
    a bounded run ends, and a run that returns has closed its log with exactly one terminal event that carries its
    result; events are numbered upwards; a completed run has heard all accepted steering; every tool call of a turn is
    answered once, in order; an attempt that is retried has shown the client nothing; and a run cancelled beforehand never
    reaches the model (\<open>start_cancelled\<close>).
  \<^item> \<open>Calendar\<close>, \<open>Zones\<close>, \<open>Cron\<close> (\<^verbatim>\<open>packages/protocol/src/cron.ts\<close>): the Gregorian calendar, wall times in a zone, cron
    expressions.  C8 to C11: a parsed expression is well formed, fields read back what was printed, the
    next run is the first instant that matches, a wall time is found again.
  \<^item> \<open>ScheduleTime\<close>, \<open>Scheduler\<close>, \<open>ScheduleBook\<close> (\<^verbatim>\<open>apps/desktop/src/main/scheduler\<close>: \<^verbatim>\<open>time.ts\<close>, \<^verbatim>\<open>index.ts\<close>,
    \<^verbatim>\<open>tools.ts\<close>): the cadence of schedules, their table, timer and executor calls, the agent's tool.  C12, C17 and C18, with \<open>hourly_next_slot\<close>,
    \<open>daily_next_run\<close>, \<open>restart_drops_cron\<close>, \<open>failed_never_fires\<close> and \<open>schedule_tool_steps\<close>: the next run is later and the first of its cadence; the table keeps its invariant; a due row is fired and the timer is
    always armed in time; what a tool call does is a sequence of scheduler steps, which is proved against the
    interface \<open>book_laws\<close>.  Two of these theorems (\<open>restart_drops_cron\<close>, \<open>failed_never_fires\<close>) and three more lemmas
    (\<open>yearly_leap_day_lost\<close>, \<open>pause_while_running_lost\<close>, \<open>run_now_resumes_paused\<close>) state behaviour the comments or the tests deny.
  \<^item> \<open>Locks\<close> (\<^verbatim>\<open>packages/core/src/locks.ts\<close>, \<^verbatim>\<open>packages/tools/src/mutation-queue.ts\<close>, the event queue of \<^verbatim>\<open>runner.ts\<close>): C24, C25
    and \<open>event_queue_fifo\<close>.  Both mutexes are instances of the interface \<open>turn_taking\<close>: one holder for each key, in the order of arrival.
  \<^item> \<open>LockerCsv\<close> (\<^verbatim>\<open>packages/locker/src/csv.ts\<close>): C27, reading a file that was written as CSV gives its cells.
  \<^item> \<open>LockerSession\<close>, \<open>LockerCloud\<close> (\<^verbatim>\<open>packages/locker/src\<close>: \<^verbatim>\<open>session.ts\<close>, \<^verbatim>\<open>meta.ts\<close>, \<^verbatim>\<open>sync.ts\<close>, \<^verbatim>\<open>checksum.ts\<close>,
    \<^verbatim>\<open>remote.ts\<close>, \<^verbatim>\<open>cloud.ts\<close>): C29 to C31, and how a change is lost
    (\<open>newer_change_lost\<close>).  A synchronisation is proved against the interface \<open>cloud_laws\<close> of a store
    and \<open>supabase\<close> derives these laws for the HTTP client from what the server promises, with an
    in-memory server as an instance.
  \<^item> \<open>Validation\<close> (\<^verbatim>\<open>packages/protocol/src/validation.ts\<close>), \<open>Pairing\<close> (\<^verbatim>\<open>relay.ts\<close>, \<^verbatim>\<open>device-pairing.ts\<close>): C33, and pairing codes are valid and read back.
  \<^item> \<open>Goals\<close> (\<^verbatim>\<open>packages/agent/src/goals\<close>, goal rows of \<^verbatim>\<open>packages/storage/src/sqlite/sqlite-storage.ts\<close>): C36, and receipts are a window.
  \<^item> \<open>QrField\<close>, \<open>QrCode\<close>, \<open>QrMatrix\<close> (\<^verbatim>\<open>packages/protocol/src/qr.ts\<close>, the codes a phone scans to pair): the field of 256 elements and
    Reed-Solomon remainders, versions, codewords and blocks, the drawing of a symbol as a list of strokes, masks and their
    penalties.  \<open>QrReader\<close>, \<open>QrCount\<close> and \<open>QrRoundtrip\<close> hold the other side, a reader of symbols and the modules it expects, and
    \<open>QrProperties\<close> C15, C28, C35 and C37: the data modules are as many as the formula says, a symbol reads back as its
    text, every text of at most 2953 bytes has one, and its blocks are codewords.  The proportion of dark modules is a quotient of
    doubles in the code and a rational here; the two agree since it is rounded down at multiples of five percent, which a double
    holds exactly.
  \<^item> \<open>Regex\<close>: the regular expressions the code tests texts with, computed and proved equal to their meaning.
  \<^item> \<open>Fleet\<close> (\<^verbatim>\<open>packages/agent/src/subagents/fleet.ts\<close>): the tasks a run has delegated, their reports, waits and cancellation, as
    the relation \<open>fleet_step\<close> with a history.  C16 and C20: each dispatch is running or has settled once, no report is lost,
    repeated or made up, and a run that ends has heard them all.
  \<^item> \<open>TaskTools\<close> (\<^verbatim>\<open>task-tool.ts\<close>, \<^verbatim>\<open>tool-routing.ts\<close>, \<open>#runSubagent\<close> of \<^verbatim>\<open>runtime.ts\<close>): the tools that delegate, await and cancel, and
    the routing of a task to a part of the tools.  C22: a dispatch is a sequence of steps of the fleet that obeys what it says;
    C34: an inferred route is held to reading.
  \<^item> \<open>FileTools\<close> (\<^verbatim>\<open>packages/tools/src\<close>: \<^verbatim>\<open>registry.ts\<close>, \<^verbatim>\<open>types.ts\<close>, \<^verbatim>\<open>native/edit.ts\<close>, \<^verbatim>\<open>native/write.ts\<close>): C38.
  \<^item> \<open>RelayWire\<close>, \<open>RelayDirectory\<close>, \<open>RelayHost\<close>, \<open>RelayPairing\<close> (\<^verbatim>\<open>apps/connect/relay/src/index.ts\<close>): base64, headers, bounded
    bodies, frames and the routes of the worker; the registry of connect codes in its shards and the limiter of attempts; the
    object of a host as the relation \<open>relay_step\<close> with a history of its requests; pairing by a code.  \<open>TeamRelay\<close>
    (\<^verbatim>\<open>apps/desktop/src/main/team/host-relay.ts\<close>): the host's end of the socket, with \<open>team_step\<close> for its reconnections.  C23 and C13:
    the registry is a ledger of grants, which is proved against the interface \<open>code_directory\<close>, and the limiter counts.  C19 and C21:
    a code leads to the host that registered it, and who speaks for a host cannot change.  C26 and C7: each request has
    one end, and it and its answer pass unchanged.  C14: the host keeps its connection.  C32 and the lemmas \<open>answer_lost\<close>,
    \<open>lost_answers_stay_lost\<close>, \<open>active_requests_unbounded\<close> and \<open>limiter_out_of_order\<close> state behaviour that is not meant.
  \<^item> \<open>Compaction\<close> (\<^verbatim>\<open>packages/agent/src/context\<close>, compaction rows of \<^verbatim>\<open>sqlite-storage.ts\<close>): C39 and C40.

  \<^bold>\<open>How the parts meet\<close>

  The scheduler and the goal loop start runs; a run's context passes through compaction before each turn (the
  parameter \<open>rq_transformContext\<close> of \<open>run_request\<close>); tools run inside \<open>ToolExec\<close>, the file tools under the
  mutation queue of \<open>Locks\<close>; a fleet posts its reports into the steering queue of its run (\<open>RunControl\<close>), the callback that ends a
  run waits for it, and a routed task gets its budget of tool turns from \<open>TaskTools\<close>; a run's events leave through the event queue of \<open>Locks\<close>; the goal judge reads the
  final message of the run.  A phone pairs with the code of \<open>Pairing\<close>, drawn as a symbol of \<open>QrMatrix\<close> or typed in: the host publishes the code
  through \<open>TeamRelay\<close> to the registry, and the relay passes the phone's request to the host it leads to.

  \<^bold>\<open>Bounds and fuel\<close>

  The agent loop (\<open>run_loop\<close>) takes fuel; \<open>start_terminates\<close> shows that the turns the request allows, three
  repair turns and one more step are enough, whatever the parameters do.  A run without a bound on its turns
  need not end and has no such theorem.  The searches of \<open>Cron\<close> and \<open>ScheduleTime\<close> run over the finite
  windows the code writes down; drawing a pairing code takes the thirty-two attempts of the code.  All
  other recursion is on the data.

  \<^bold>\<open>Not modelled\<close>

  Input and output around the modelled code; the KeePass database, WebCrypto and passkeys; one-time
  passwords and origin matching of the locker; the storage tables beside goals and compactions; the
  memory, skills and prompts of \<^verbatim>\<open>packages/agent\<close>; the remaining validators; drive, hub, wechat, browser and
  computer packages, which are clients of third-party services; the user interfaces and the edge services.
  Of the relay: the log it writes, the answer to pings, and the interleaving of two registrations of connect codes by one host.
  Of the modelled code: byte counts of telemetry, provider data carried by blocks, causes of errors, and characters
  above 255 (a text of ideographs is estimated at one token a character by the code).
\<close>

end
